(* ===== verification/Prelude.thy ===== *)
theory Prelude
  imports Main "HOL-Library.Word"
begin

text \<open>
  What the components of the development share: the machine integer types of the
  C++ sources, the generic notions of a compare-and-swap loop and of reachable
  states of a transition system, and the list lemmas the component proofs use.
\<close>

unbundle bit_operations_syntax

section \<open>Machine integers\<close>

type_synonym u8 = "8 word"
type_synonym u16 = "16 word"
type_synonym u32 = "32 word"
type_synonym u64 = "64 word"

text \<open>The build targets are 64-bit Linux: size\_t, uintptr\_t and uint64\_t are 64 bits wide.\<close>

type_synonym size_t = "64 word"
type_synonym bytes = "u8 list"

section \<open>Collections of facts\<close>

named_theorems elio_defs \<open>definitions unfolded by the component proofs\<close>
named_theorems inv_intros \<open>preservation of component invariants\<close>

section \<open>Compare-and-swap loops\<close>

text \<open>
  The atomic objects of the library are updated by loops of one shape: load the
  word, decide from the loaded value either to return or to attempt a
  compare-exchange, and on failure retry with the value the failed
  compare-exchange loaded. A run of such a loop is determined by what memory
  holds at each attempt and by whether the attempt fails spuriously
  (compare\_exchange\_weak may). \<open>cas_loop f cur obs\<close> is the loop with \<open>cur\<close>
  loaded and \<open>obs\<close> the later observations: a list of memory contents paired with
  \<open>True\<close> when the weak compare-exchange does not fail spuriously. \<open>None\<close> means
  that the loop is still running when the observations end. A result carries
  the value the loop wrote, if it wrote one.
\<close>

fun cas_loop :: "('s \<Rightarrow> ('s \<times> 'r) + 'r) \<Rightarrow> 's \<Rightarrow> ('s \<times> bool) list \<Rightarrow> ('s option \<times> 'r) option" where
  "cas_loop f cur obs =
     (case f cur of
        Inr r \<Rightarrow> Some (None, r)
      | Inl (d, r) \<Rightarrow>
          (case obs of
             [] \<Rightarrow> None
           | (m, strong) # obs' \<Rightarrow>
               if m = cur \<and> strong then Some (Some d, r) else cas_loop f m obs'))"

declare cas_loop.simps [simp del]

text \<open>The same decision taken in one atomic step on the memory word.\<close>

definition cas_atomic :: "('s \<Rightarrow> ('s \<times> 'r) + 'r) \<Rightarrow> 's \<Rightarrow> 's \<times> 'r" where
  "cas_atomic f m = (case f m of Inl (d, r) \<Rightarrow> (d, r) | Inr r \<Rightarrow> (m, r))"

lemma cas_loop_return: "f cur = Inr r \<Longrightarrow> cas_loop f cur obs = Some (None, r)"
  by (subst cas_loop.simps) simp

lemma cas_loop_Nil: "f cur = Inl p \<Longrightarrow> cas_loop f cur [] = None"
  by (subst cas_loop.simps) (simp add: case_prod_beta)

lemma cas_loop_Cons: "f cur = Inl (d, r) \<Longrightarrow>
    cas_loop f cur ((m, strong) # obs) =
      (if m = cur \<and> strong then Some (Some d, r) else cas_loop f m obs)"
  by (subst cas_loop.simps) simp

text \<open>A loop that wrote did so on top of a value it decided on: its linearization point.\<close>

lemma cas_loop_wrote:
  assumes "cas_loop f cur obs = Some (Some d, r)"
  shows "\<exists>m. (m, True) \<in> set obs \<and> f m = Inl (d, r)"
  using assms
proof (induction obs arbitrary: cur)
  case Nil
  then show ?case by (cases "f cur") (auto simp: cas_loop_return cas_loop_Nil)
next
  case (Cons ob obs)
  obtain m strong where ob: "ob = (m, strong)" by (cases ob)
  from Cons.prems obtain d' r' where f: "f cur = Inl (d', r')"
    by (cases "f cur") (auto simp: cas_loop_return)
  show ?case
    using Cons.prems Cons.IH [of m]
    by (auto simp: ob cas_loop_Cons [where f = f, OF f] f split: if_splits)
qed

text \<open>A loop that returned without writing decided so on a value it observed.\<close>

lemma cas_loop_returned:
  assumes "cas_loop f cur obs = Some (None, r)"
  shows "\<exists>m \<in> insert cur (fst ` set obs). f m = Inr r"
  using assms
proof (induction obs arbitrary: cur)
  case Nil
  then show ?case by (cases "f cur") (auto simp: cas_loop_return cas_loop_Nil)
next
  case (Cons ob obs)
  obtain m strong where ob: "ob = (m, strong)" by (cases ob)
  show ?case
  proof (cases "f cur")
    case (Inr r')
    with Cons.prems show ?thesis by (simp add: cas_loop_return)
  next
    case (Inl p)
    then obtain d' r' where f: "f cur = Inl (d', r')" by (cases p) simp
    show ?thesis
      using Cons.prems Cons.IH [of m]
      by (auto simp: ob cas_loop_Cons [where f = f, OF f] split: if_splits)
  qed
qed

text \<open>
  Progress: two undisturbed attempts are enough. When memory holds \<open>m\<close> at the
  attempt after the (possibly stale) load and at the retry, the loop returns what
  the atomic step on \<open>m\<close> returns.
\<close>

lemma cas_loop_quiet:
  assumes "f cur = Inl (d, r)"
  shows "cas_loop f cur [(m, True), (m, True)] =
    Some (case f m of Inl (d, r) \<Rightarrow> (Some d, r) | Inr r \<Rightarrow> (None, r))"
  by (cases "f m") (auto simp: cas_loop_Cons [where f = f, OF assms] assms cas_loop_return cas_loop_Cons)

section \<open>Transition systems\<close>

text \<open>
  States a concurrent object can reach: labels are the atomic operations, in any
  order the step relation allows.
\<close>

inductive reach :: "('s \<Rightarrow> bool) \<Rightarrow> ('s \<Rightarrow> 'a \<Rightarrow> 's \<Rightarrow> bool) \<Rightarrow> 's \<Rightarrow> bool"
  for init :: "'s \<Rightarrow> bool" and stp :: "'s \<Rightarrow> 'a \<Rightarrow> 's \<Rightarrow> bool" where
  reach_init: "init s \<Longrightarrow> reach init stp s"
| reach_step: "reach init stp s \<Longrightarrow> stp s a t \<Longrightarrow> reach init stp t"

text \<open>
  The contract of an inductive invariant. A component provides its initial
  states, its steps and an invariant; the client gets the invariant in every
  reachable state and along every run.
\<close>

locale invariant_system =
  fixes init :: "'s \<Rightarrow> bool"
    and stp :: "'s \<Rightarrow> 'a \<Rightarrow> 's \<Rightarrow> bool"
    and inv :: "'s \<Rightarrow> bool"
  assumes inv_init: "init s \<Longrightarrow> inv s"
    and inv_step: "inv s \<Longrightarrow> stp s a t \<Longrightarrow> inv t"
begin

lemma reach_inv: "reach init stp s \<Longrightarrow> inv s"
  by (induction rule: reach.induct) (auto intro: inv_init inv_step)

lemma reach_consequence:
  assumes "reach init stp s" and "\<And>t. inv t \<Longrightarrow> P t"
  shows "P s"
  using assms(2) [OF reach_inv [OF assms(1)]] .

end

text \<open>
  Most components give their steps as a guard and an executable successor; a
  script of labels then runs from a state.
\<close>

definition exec_step :: "('s \<Rightarrow> 'a \<Rightarrow> bool) \<Rightarrow> ('s \<Rightarrow> 'a \<Rightarrow> 's option) \<Rightarrow> 's \<Rightarrow> 'a \<Rightarrow> 's \<Rightarrow> bool" where
  "exec_step en ex s l t \<longleftrightarrow> en s l \<and> ex s l = Some t"

fun run_labels :: "('s \<Rightarrow> 'a \<Rightarrow> bool) \<Rightarrow> ('s \<Rightarrow> 'a \<Rightarrow> 's option) \<Rightarrow> 's \<Rightarrow> 'a list \<Rightarrow> 's option" where
  "run_labels en ex s [] = Some s"
| "run_labels en ex s (l # ls) =
     (if en s l then (case ex s l of None \<Rightarrow> None | Some t \<Rightarrow> run_labels en ex t ls) else None)"

lemma reach_run_labels:
  "reach init (exec_step en ex) s \<Longrightarrow> run_labels en ex s ls = Some t \<Longrightarrow> reach init (exec_step en ex) t"
proof (induction ls arbitrary: s)
  case Nil
  then show ?case by simp
next
  case (Cons l ls)
  from Cons.prems(2) obtain u where u: "en s l" "ex s l = Some u" "run_labels en ex u ls = Some t"
    by (auto split: if_splits option.splits)
  then have "exec_step en ex s l u" by (simp add: exec_step_def)
  with Cons.prems(1) have "reach init (exec_step en ex) u" by (rule reach_step)
  then show ?case using u(3) by (rule Cons.IH)
qed

section \<open>Errors as values\<close>

text \<open>Sequencing of code that may throw: \<open>Inl\<close> is the exception, \<open>Inr\<close> the result.\<close>

definition ebind :: "'e + 'a \<Rightarrow> ('a \<Rightarrow> 'e + 'b) \<Rightarrow> 'e + 'b" where
  "ebind m f = (case m of Inl e \<Rightarrow> Inl e | Inr x \<Rightarrow> f x)"

lemma ebind_simps [simp]:
  "ebind (Inl e) f = Inl e"
  "ebind (Inr x) f = f x"
  by (simp_all add: ebind_def)

lemma ebind_Inr_iff: "ebind m f = Inr y \<longleftrightarrow> (\<exists>x. m = Inr x \<and> f x = Inr y)"
  by (cases m) simp_all

lemma ebind_Inl_iff: "ebind m f = Inl e \<longleftrightarrow> m = Inl e \<or> (\<exists>x. m = Inr x \<and> f x = Inl e)"
  by (cases m) simp_all

section \<open>Counting\<close>

text \<open>How many of the (finitely many) objects satisfy a predicate, as an integer.\<close>

definition cnt :: "('a \<Rightarrow> bool) \<Rightarrow> int" where
  "cnt P = int (card {x. P x})"

lemma cnt_nonneg [simp]: "0 \<le> cnt P"
  by (simp add: cnt_def)

lemma cnt_upd:
  assumes fin: "finite {x. P x}" and same: "\<And>x. x \<noteq> a \<Longrightarrow> Q x = P x"
  shows "finite {x. Q x}" and "cnt Q = cnt P + of_bool (Q a) - of_bool (P a)"
proof -
  define R where "R = {x. P x} - {a}"
  have R: "finite R" "a \<notin> R" using fin by (auto simp: R_def)
  have p: "{x. P x} = (if P a then insert a R else R)" by (auto simp: R_def)
  have q: "{x. Q x} = (if Q a then insert a R else R)" by (auto simp: R_def) (metis same)+
  show "finite {x. Q x}" using R by (simp add: q)
  show "cnt Q = cnt P + of_bool (Q a) - of_bool (P a)"
    using R by (simp add: cnt_def p q)
qed

lemma cnt_pos: "finite {x. P x} \<Longrightarrow> P a \<Longrightarrow> 1 \<le> cnt P"
  by (auto simp: cnt_def Suc_le_eq card_gt_0_iff)

lemma cnt_empty [simp]: "cnt (\<lambda>x. False) = 0"
  by (simp add: cnt_def)

section \<open>Lists\<close>

definition hd_opt :: "'a list \<Rightarrow> 'a option" where
  "hd_opt xs = (case xs of [] \<Rightarrow> None | x # _ \<Rightarrow> Some x)"

definition last_opt :: "'a list \<Rightarrow> 'a option" where
  "last_opt xs = (if xs = [] then None else Some (last xs))"

lemma hd_opt_simps [simp]:
  "hd_opt [] = None"
  "hd_opt (x # xs) = Some x"
  by (simp_all add: hd_opt_def)

lemma last_opt_simps [simp]:
  "last_opt [] = None"
  "last_opt (xs @ [x]) = Some x"
  by (simp_all add: last_opt_def)

lemma hd_opt_append: "hd_opt (xs @ ys) = (if xs = [] then hd_opt ys else hd_opt xs)"
  by (cases xs) simp_all

lemma last_opt_append: "last_opt (xs @ ys) = (if ys = [] then last_opt xs else last_opt ys)"
  by (simp add: last_opt_def)

lemma last_opt_Cons: "last_opt (x # xs) = (if xs = [] then Some x else last_opt xs)"
  by (simp add: last_opt_def)

lemma hd_opt_None [simp]: "hd_opt xs = None \<longleftrightarrow> xs = []"
  by (cases xs) simp_all

lemma last_opt_None [simp]: "last_opt xs = None \<longleftrightarrow> xs = []"
  by (simp add: last_opt_def)

lemma None_eq_opt [simp]:
  "None = hd_opt xs \<longleftrightarrow> xs = []"
  "None = last_opt xs \<longleftrightarrow> xs = []"
  by (metis hd_opt_None, metis last_opt_None)

lemma hd_opt_in_set: "hd_opt xs = Some x \<Longrightarrow> x \<in> set xs"
  by (cases xs) simp_all

lemma last_opt_in_set: "last_opt xs = Some x \<Longrightarrow> x \<in> set xs"
  by (auto simp: last_opt_def split: if_splits)

end
