(* ===== verification/Wake_State.thy ===== *)
theory Wake_State
  imports Prelude
begin

text \<open>
  The wake state of a suspended waiter (src/include/elio/sync/detail/wake_state.hpp):
  the one atomic word on which a notifier, a cancellation request, the awaiter
  itself and the destructor of its frame race. Every operation is given as the
  decision its compare-exchange loop takes on a loaded value; the atomic form is
  that decision on the memory word, and \<open>cas_loop\<close> is the retry loop itself.
\<close>

section \<open>States and actions\<close>

datatype wake_action = Rejected | Completed_Inline | Schedule

datatype wstate =
    Idle
  | Blocked
  | Waiting
  | Notified_Inline
  | Cancelled_Inline
  | Notification_Claimed
  | Cancellation_Claimed
  | Notification_Scheduling
  | Cancellation_Scheduling
  | Abandoned

text \<open>Coroutine handles are addresses; \<open>None\<close> is the null handle.\<close>

type_synonym coro_handle = nat

record wake_state =
  ws_handle :: "coro_handle option"
  ws_state :: wstate

definition make_wake_state :: wake_state where
  "make_wake_state = \<lparr>ws_handle = None, ws_state = Idle\<rparr>"

definition wake_state_with_handle :: "coro_handle \<Rightarrow> wake_state" where
  "wake_state_with_handle h = \<lparr>ws_handle = Some h, ws_state = Waiting\<rparr>"

section \<open>Operations\<close>

text \<open>compare\_exchange\_strong on the state word: whether it succeeded, and the word after it.\<close>

definition cas_strong :: "wstate \<Rightarrow> wstate \<Rightarrow> wake_state \<Rightarrow> bool \<times> wake_state" where
  "cas_strong expected desired w =
     (if ws_state w = expected then (True, w\<lparr>ws_state := desired\<rparr>) else (False, w))"

definition set_handle :: "coro_handle \<Rightarrow> wake_state \<Rightarrow> wake_state" where
  "set_handle h w = snd (cas_strong Idle Waiting (w\<lparr>ws_handle := Some h\<rparr>))"

definition set_handle_blocked :: "coro_handle \<Rightarrow> wake_state \<Rightarrow> bool \<times> wake_state" where
  "set_handle_blocked h w = cas_strong Idle Blocked (w\<lparr>ws_handle := Some h\<rparr>)"

definition unblock_after_publish :: "wake_state \<Rightarrow> bool \<times> wake_state" where
  "unblock_after_publish w = cas_strong Blocked Waiting w"

text \<open>
  The decisions of the loops: \<open>Inl (desired, result)\<close> attempts the exchange,
  \<open>Inr result\<close> returns at once.
\<close>

fun claim_notification_step :: "wstate \<Rightarrow> (wstate \<times> wake_action) + wake_action" where
  "claim_notification_step Idle = Inl (Notified_Inline, Completed_Inline)"
| "claim_notification_step Blocked = Inl (Notified_Inline, Completed_Inline)"
| "claim_notification_step Waiting = Inl (Notification_Claimed, Schedule)"
| "claim_notification_step _ = Inr Rejected"

text \<open>The result of request\_cancel is paired with its local should\_schedule.\<close>

fun request_cancel_step :: "wstate \<Rightarrow> (wstate \<times> bool \<times> bool) + (bool \<times> bool)" where
  "request_cancel_step Idle = Inl (Cancelled_Inline, True, False)"
| "request_cancel_step Blocked = Inl (Cancelled_Inline, True, False)"
| "request_cancel_step Waiting = Inl (Cancellation_Claimed, True, True)"
| "request_cancel_step Cancelled_Inline = Inr (True, False)"
| "request_cancel_step Cancellation_Claimed = Inr (True, False)"
| "request_cancel_step Cancellation_Scheduling = Inr (True, False)"
| "request_cancel_step _ = Inr (False, False)"

fun schedule_selected_step :: "wstate \<Rightarrow> (wstate \<times> bool) + bool" where
  "schedule_selected_step Waiting = Inl (Notification_Scheduling, True)"
| "schedule_selected_step Notification_Claimed = Inl (Notification_Scheduling, True)"
| "schedule_selected_step Cancellation_Claimed = Inl (Cancellation_Scheduling, True)"
| "schedule_selected_step Blocked = Inl (Notified_Inline, False)"
| "schedule_selected_step _ = Inr False"

fun abandon_step :: "wstate \<Rightarrow> (wstate \<times> unit) + unit" where
  "abandon_step Notification_Scheduling = Inr ()"
| "abandon_step Cancellation_Scheduling = Inr ()"
| "abandon_step Abandoned = Inr ()"
| "abandon_step _ = Inl (Abandoned, ())"

text \<open>
  The operations as single atomic steps. An operation that passes the handle to
  the scheduler returns it in a list, so that a run collects what was scheduled.
\<close>

definition apply_step :: "(wstate \<Rightarrow> (wstate \<times> 'r) + 'r) \<Rightarrow> wake_state \<Rightarrow> 'r \<times> wake_state" where
  "apply_step f w = (let (s, r) = cas_atomic f (ws_state w) in (r, w\<lparr>ws_state := s\<rparr>))"

definition claim_notification :: "wake_state \<Rightarrow> wake_action \<times> wake_state" where
  "claim_notification w = apply_step claim_notification_step w"

text \<open>schedule\_claimed tries its two exchanges one after the other.\<close>

definition schedule_claimed_notification :: "wake_state \<Rightarrow> bool \<times> wake_state" where
  "schedule_claimed_notification w = cas_strong Notification_Claimed Notification_Scheduling w"

definition schedule_claimed_cancellation :: "wake_state \<Rightarrow> bool \<times> wake_state" where
  "schedule_claimed_cancellation w = cas_strong Cancellation_Claimed Cancellation_Scheduling w"

definition schedule_claimed :: "wake_state \<Rightarrow> bool \<times> wake_state \<times> coro_handle option list" where
  "schedule_claimed w =
     (let (ok, w') = schedule_claimed_notification w in
      if ok then (True, w', [ws_handle w'])
      else let (ok', w'') = schedule_claimed_cancellation w' in
           if ok' then (True, w'', [ws_handle w'']) else (False, w'', []))"

definition request_cancel :: "wake_state \<Rightarrow> bool \<times> wake_state \<times> coro_handle option list" where
  "request_cancel w =
     (let ((r, should_schedule), w') = apply_step request_cancel_step w in
      if should_schedule then let (_, w'', out) = schedule_claimed w' in (r, w'', out)
      else (r, w', []))"

definition schedule_selected :: "wake_state \<Rightarrow> bool \<times> wake_state \<times> coro_handle option list" where
  "schedule_selected w =
     (let (should_schedule, w') = apply_step schedule_selected_step w in
      (should_schedule, w', if should_schedule then [ws_handle w'] else []))"

definition abandon :: "wake_state \<Rightarrow> wake_state" where
  "abandon w = snd (apply_step abandon_step w)"

definition was_cancelled :: "wake_state \<Rightarrow> bool" where
  "was_cancelled w \<longleftrightarrow> ws_state w = Cancelled_Inline \<or>
     ws_state w = Cancellation_Claimed \<or> ws_state w = Cancellation_Scheduling"

definition notification_was_selected :: "wake_state \<Rightarrow> bool" where
  "notification_was_selected w \<longleftrightarrow> ws_state w = Notified_Inline \<or>
     ws_state w = Notification_Claimed \<or> ws_state w = Notification_Scheduling"

text \<open>The helpers that take a possibly null shared pointer.\<close>

definition claim_wake_state :: "wake_state option \<Rightarrow> wake_action \<times> wake_state option" where
  "claim_wake_state p =
     (case p of None \<Rightarrow> (Rejected, None)
      | Some w \<Rightarrow> let (a, w') = claim_notification w in (a, Some w'))"

definition cancel_wake_state :: "wake_state option \<Rightarrow> wake_state option" where
  "cancel_wake_state p = map_option abandon p"

definition schedule_wake_state ::
    "wake_state option \<Rightarrow> bool \<times> wake_state option \<times> coro_handle option list" where
  "schedule_wake_state p =
     (case p of None \<Rightarrow> (False, None, [])
      | Some w \<Rightarrow> let (b, w', out) = schedule_selected w in (b, Some w', out))"

text \<open>schedule\_wake\_states counts the states it scheduled, in the order of the range.\<close>

fun schedule_wake_states ::
    "wake_state option list \<Rightarrow> nat \<times> wake_state option list \<times> coro_handle option list" where
  "schedule_wake_states [] = (0, [], [])"
| "schedule_wake_states (p # ps) =
     (let (b, p', out) = schedule_wake_state p; (n, ps', out') = schedule_wake_states ps
      in ((if b then Suc n else n), p' # ps', out @ out'))"

lemmas wake_op_defs = cas_strong_def set_handle_def set_handle_blocked_def
  unblock_after_publish_def apply_step_def cas_atomic_def claim_notification_def
  schedule_claimed_notification_def schedule_claimed_cancellation_def
  schedule_claimed_def request_cancel_def schedule_selected_def abandon_def
  was_cancelled_def notification_was_selected_def

section \<open>Interleavings\<close>

text \<open>
  All threads that share the word, as a sequence of atomic accesses in any
  order. request\_cancel is two accesses (the claim, then schedule\_claimed) and
  schedule\_claimed is two more, so other threads may come in between.
\<close>

datatype wake_op =
    Set_Handle coro_handle
  | Set_Handle_Blocked coro_handle
  | Unblock
  | Claim
  | Cancel_Claim
  | Sched_Claimed_Notification
  | Sched_Claimed_Cancellation
  | Sched_Selected
  | Abandon

record wake_sys =
  wk :: wake_state
  scheduled :: "coro_handle option list"

definition emit_if :: "bool \<times> wake_state \<Rightarrow> wake_sys \<Rightarrow> wake_sys" where
  "emit_if p s = (let (ok, w) = p in
     \<lparr>wk = w, scheduled = (if ok then scheduled s @ [ws_handle w] else scheduled s)\<rparr>)"

fun wake_exec :: "wake_sys \<Rightarrow> wake_op \<Rightarrow> wake_sys" where
  "wake_exec s (Set_Handle h) = s\<lparr>wk := set_handle h (wk s)\<rparr>"
| "wake_exec s (Set_Handle_Blocked h) = s\<lparr>wk := snd (set_handle_blocked h (wk s))\<rparr>"
| "wake_exec s Unblock = s\<lparr>wk := snd (unblock_after_publish (wk s))\<rparr>"
| "wake_exec s Claim = s\<lparr>wk := snd (claim_notification (wk s))\<rparr>"
| "wake_exec s Cancel_Claim = s\<lparr>wk := snd (apply_step request_cancel_step (wk s))\<rparr>"
| "wake_exec s Sched_Claimed_Notification = emit_if (schedule_claimed_notification (wk s)) s"
| "wake_exec s Sched_Claimed_Cancellation = emit_if (schedule_claimed_cancellation (wk s)) s"
| "wake_exec s Sched_Selected = emit_if (apply_step schedule_selected_step (wk s)) s"
| "wake_exec s Abandon = s\<lparr>wk := abandon (wk s)\<rparr>"

definition wake_run :: "wake_sys \<Rightarrow> wake_op list \<Rightarrow> wake_sys" where
  "wake_run s ops = foldl wake_exec s ops"

definition wake_init :: "wake_sys \<Rightarrow> bool" where
  "wake_init s \<longleftrightarrow> scheduled s = [] \<and>
     (wk s = make_wake_state \<or> (\<exists>h. wk s = wake_state_with_handle h))"

definition scheduling_states :: "wstate set" where
  "scheduling_states = {Notification_Scheduling, Cancellation_Scheduling}"

text \<open>
  The invariant: the scheduler was called exactly when the word says so, once, and
  never with a null handle.
\<close>

definition wake_inv :: "wake_sys \<Rightarrow> bool" where
  "wake_inv s \<longleftrightarrow>
     length (scheduled s) = (if ws_state (wk s) \<in> scheduling_states then 1 else 0) \<and>
     None \<notin> set (scheduled s) \<and>
     (ws_state (wk s) \<in> {Blocked, Waiting, Notification_Claimed, Cancellation_Claimed}
        \<union> scheduling_states \<longrightarrow> ws_handle (wk s) \<noteq> None)"

lemma wake_exec_inv [inv_intros]: "wake_inv s \<Longrightarrow> wake_inv (wake_exec s a)"
  by (cases a; cases "ws_state (wk s)")
     (auto simp: wake_inv_def scheduling_states_def wake_op_defs emit_if_def)

interpretation wake: invariant_system wake_init "\<lambda>s a t. t = wake_exec s a" wake_inv
proof unfold_locales
  fix s show "wake_init s \<Longrightarrow> wake_inv s"
    by (auto simp: wake_init_def wake_inv_def make_wake_state_def wake_state_with_handle_def
        scheduling_states_def)
next
  fix s a t show "wake_inv s \<Longrightarrow> t = wake_exec s a \<Longrightarrow> wake_inv t"
    by (simp add: wake_exec_inv)
qed

lemma reach_wake_run:
  "reach wake_init (\<lambda>s a t. t = wake_exec s a) s \<Longrightarrow>
   reach wake_init (\<lambda>s a t. t = wake_exec s a) (wake_run s ops)"
proof (induction ops arbitrary: s)
  case Nil
  then show ?case by (simp add: wake_run_def)
next
  case (Cons a ops)
  then have "reach wake_init (\<lambda>s a t. t = wake_exec s a) (wake_exec s a)"
    by (auto intro: reach_step)
  then show ?case using Cons.IH by (simp add: wake_run_def)
qed

lemma wake_run_inv: "wake_init s \<Longrightarrow> wake_inv (wake_run s ops)"
  by (rule wake.reach_inv, rule reach_wake_run, rule reach_init)

text \<open>A selected outcome survives every access except the abandonment of the frame.\<close>

definition sticky_outcome :: "wstate set \<Rightarrow> wake_sys \<Rightarrow> bool" where
  "sticky_outcome S s \<longleftrightarrow> ws_state (wk s) \<in> S \<union> {Abandoned}"

lemma notified_sticky:
  "sticky_outcome {Notified_Inline, Notification_Claimed, Notification_Scheduling} s \<Longrightarrow>
   sticky_outcome {Notified_Inline, Notification_Claimed, Notification_Scheduling} (wake_run s ops)"
proof (induction ops arbitrary: s)
  case Nil
  then show ?case by (simp add: wake_run_def)
next
  case (Cons a ops)
  have "sticky_outcome {Notified_Inline, Notification_Claimed, Notification_Scheduling} (wake_exec s a)"
    using Cons.prems by (cases a) (auto simp: sticky_outcome_def wake_op_defs emit_if_def)
  from Cons.IH [OF this] show ?case by (simp add: wake_run_def)
qed

lemma cancelled_sticky:
  "sticky_outcome {Cancelled_Inline, Cancellation_Claimed, Cancellation_Scheduling} s \<Longrightarrow>
   sticky_outcome {Cancelled_Inline, Cancellation_Claimed, Cancellation_Scheduling} (wake_run s ops)"
proof (induction ops arbitrary: s)
  case Nil
  then show ?case by (simp add: wake_run_def)
next
  case (Cons a ops)
  have "sticky_outcome {Cancelled_Inline, Cancellation_Claimed, Cancellation_Scheduling} (wake_exec s a)"
    using Cons.prems by (cases a) (auto simp: sticky_outcome_def wake_op_defs emit_if_def)
  from Cons.IH [OF this] show ?case by (simp add: wake_run_def)
qed

lemma abandoned_silent:
  "ws_state (wk s) = Abandoned \<Longrightarrow>
   scheduled (wake_run s ops) = scheduled s \<and> ws_state (wk (wake_run s ops)) = Abandoned"
proof (induction ops arbitrary: s)
  case Nil
  then show ?case by (simp add: wake_run_def)
next
  case (Cons a ops)
  have "ws_state (wk (wake_exec s a)) = Abandoned" "scheduled (wake_exec s a) = scheduled s"
    using Cons.prems by (cases a; simp add: wake_op_defs emit_if_def)+
  with Cons.IH [of "wake_exec s a"] show ?case by (simp add: wake_run_def)
qed

section \<open>Properties\<close>

text \<open>
  C1: however the accesses of notifiers, cancellation requests, the awaiter and
  the destructor interleave, the coroutine handle is passed to the scheduler at
  most once, exactly when the word is in a scheduling state, and never while it
  is still null.
\<close>

theorem wake_scheduled_at_most_once:
  assumes "wake_init s"
  shows "length (scheduled (wake_run s ops)) \<le> 1 \<and> None \<notin> set (scheduled (wake_run s ops)) \<and>
    (scheduled (wake_run s ops) \<noteq> [] \<longleftrightarrow>
       ws_state (wk (wake_run s ops)) \<in> scheduling_states)"
  using wake_run_inv [OF assms, of ops]
  by (auto simp: wake_inv_def split: if_splits)

theorem wake_scheduled_at_most_once_witness:
  "scheduled (wake_run \<lparr>wk = make_wake_state, scheduled = []\<rparr>
     [Set_Handle_Blocked 7, Unblock, Cancel_Claim, Claim, Sched_Selected,
      Sched_Claimed_Notification, Sched_Claimed_Cancellation]) = [Some 7] \<and>
   length (scheduled (wake_run \<lparr>wk = make_wake_state, scheduled = []\<rparr>
     [Set_Handle_Blocked 7, Unblock, Cancel_Claim, Claim, Sched_Selected,
      Sched_Claimed_Notification, Sched_Claimed_Cancellation])) \<le> 1"
  using wake_scheduled_at_most_once [of "\<lparr>wk = make_wake_state, scheduled = []\<rparr>"
    "[Set_Handle_Blocked 7, Unblock, Cancel_Claim, Claim, Sched_Selected,
      Sched_Claimed_Notification, Sched_Claimed_Cancellation]"]
  by (simp add: wake_init_def wake_run_def wake_op_defs emit_if_def make_wake_state_def)

text \<open>
  C2: a notification and a cancellation exclude each other for good. Once one of
  them has selected the result of the wait, no later sequence of accesses lets the
  other one be observed, and once the frame abandoned the state nothing is ever
  scheduled again.
\<close>

theorem wake_outcome_exclusive:
  "(notification_was_selected (wk s) \<longrightarrow> \<not> was_cancelled (wk (wake_run s ops))) \<and>
   (was_cancelled (wk s) \<longrightarrow> \<not> notification_was_selected (wk (wake_run s ops))) \<and>
   (ws_state (wk s) = Abandoned \<longrightarrow> scheduled (wake_run s ops) = scheduled s)"
proof (intro conjI impI)
  assume "notification_was_selected (wk s)"
  then show "\<not> was_cancelled (wk (wake_run s ops))"
    using notified_sticky [of s ops]
    by (auto simp: sticky_outcome_def was_cancelled_def notification_was_selected_def)
next
  assume "was_cancelled (wk s)"
  then show "\<not> notification_was_selected (wk (wake_run s ops))"
    using cancelled_sticky [of s ops]
    by (auto simp: sticky_outcome_def was_cancelled_def notification_was_selected_def)
next
  assume "ws_state (wk s) = Abandoned"
  then show "scheduled (wake_run s ops) = scheduled s" by (simp add: abandoned_silent)
qed

theorem wake_outcome_exclusive_witness:
  "notification_was_selected \<lparr>ws_handle = Some 3, ws_state = Notification_Claimed\<rparr> \<and>
   \<not> was_cancelled (wk (wake_run
      \<lparr>wk = \<lparr>ws_handle = Some 3, ws_state = Notification_Claimed\<rparr>, scheduled = []\<rparr>
      [Cancel_Claim, Sched_Claimed_Cancellation, Sched_Selected]))"
  using wake_outcome_exclusive [of
      "\<lparr>wk = \<lparr>ws_handle = Some 3, ws_state = Notification_Claimed\<rparr>, scheduled = []\<rparr>"
      "[Cancel_Claim, Sched_Claimed_Cancellation, Sched_Selected]"]
  by (simp add: notification_was_selected_def)



end
