(* ===== verification/Intrusive_List.thy ===== *)
theory Intrusive_List
  imports Prelude
begin

text \<open>
  The intrusive doubly-linked list (src/include/elio/detail/intrusive_list.hpp)
  that holds the waiters of every synchronization primitive. Nodes live in a heap
  from addresses to nodes, as in the source, and each operation writes the
  prev/next/in\_list fields it writes there. The list contract is stated once as
  the locale \<open>waiter_queue\<close>; the pointer operations are proved to satisfy it, and
  so is the plain list that the models of the primitives carry.
\<close>

section \<open>Nodes and the list header\<close>

type_synonym addr = nat

record il_node =
  prev_p :: "addr option"
  next_p :: "addr option"
  in_list :: bool

type_synonym il_heap = "addr \<Rightarrow> il_node"

record ilist =
  il_head :: "addr option"
  il_tail :: "addr option"
  il_size :: nat

definition unlinked_node :: il_node where
  "unlinked_node = \<lparr>prev_p = None, next_p = None, in_list = False\<rparr>"

definition il_empty_list :: ilist where
  "il_empty_list = \<lparr>il_head = None, il_tail = None, il_size = 0\<rparr>"

type_synonym il_state = "il_heap \<times> ilist"

definition is_linked :: "addr \<Rightarrow> il_state \<Rightarrow> bool" where
  "is_linked n q = in_list (fst q n)"

section \<open>Operations\<close>

text \<open>push\_back and push\_front assert that the node is not linked: \<open>None\<close> is the failed assertion.\<close>

definition il_push_back :: "addr \<Rightarrow> il_state \<Rightarrow> il_state option" where
  "il_push_back n q = (let (h, l) = q in
     if in_list (h n) then None
     else
       let h1 = h(n := (h n)\<lparr>prev_p := il_tail l, next_p := None\<rparr>);
           (h2, head') = (case il_tail l of
               Some t \<Rightarrow> (h1(t := (h1 t)\<lparr>next_p := Some n\<rparr>), il_head l)
             | None \<Rightarrow> (h1, Some n))
       in Some (h2(n := (h2 n)\<lparr>in_list := True\<rparr>),
                l\<lparr>il_head := head', il_tail := Some n, il_size := il_size l + 1\<rparr>))"

definition il_push_front :: "addr \<Rightarrow> il_state \<Rightarrow> il_state option" where
  "il_push_front n q = (let (h, l) = q in
     if in_list (h n) then None
     else
       let h1 = h(n := (h n)\<lparr>prev_p := None, next_p := il_head l\<rparr>);
           (h2, tail') = (case il_head l of
               Some t \<Rightarrow> (h1(t := (h1 t)\<lparr>prev_p := Some n\<rparr>), il_tail l)
             | None \<Rightarrow> (h1, Some n))
       in Some (h2(n := (h2 n)\<lparr>in_list := True\<rparr>),
                l\<lparr>il_head := Some n, il_tail := tail', il_size := il_size l + 1\<rparr>))"

definition il_remove :: "addr \<Rightarrow> il_state \<Rightarrow> il_state" where
  "il_remove n q = (let (h, l) = q in
     if \<not> in_list (h n) then (h, l)
     else
       let (h1, head') = (case prev_p (h n) of
               Some p \<Rightarrow> (h(p := (h p)\<lparr>next_p := next_p (h n)\<rparr>), il_head l)
             | None \<Rightarrow> (h, next_p (h n)));
           (h2, tail') = (case next_p (h1 n) of
               Some s \<Rightarrow> (h1(s := (h1 s)\<lparr>prev_p := prev_p (h1 n)\<rparr>), il_tail l)
             | None \<Rightarrow> (h1, prev_p (h1 n)))
       in (h2(n := (h2 n)\<lparr>prev_p := None, next_p := None, in_list := False\<rparr>),
           l\<lparr>il_head := head', il_tail := tail', il_size := il_size l - 1\<rparr>))"

definition il_pop_front :: "il_state \<Rightarrow> addr option \<times> il_state" where
  "il_pop_front q =
     (case il_head (snd q) of None \<Rightarrow> (None, q) | Some n \<Rightarrow> (Some n, il_remove n q))"

definition il_pop_back :: "il_state \<Rightarrow> addr option \<times> il_state" where
  "il_pop_back q =
     (case il_tail (snd q) of None \<Rightarrow> (None, q) | Some n \<Rightarrow> (Some n, il_remove n q))"

definition il_front :: "il_state \<Rightarrow> addr option" where
  "il_front q = il_head (snd q)"

definition il_back :: "il_state \<Rightarrow> addr option" where
  "il_back q = il_tail (snd q)"

definition il_empty :: "il_state \<Rightarrow> bool" where
  "il_empty q \<longleftrightarrow> il_head (snd q) = None"

text \<open>The walk of contains and the loop of clear follow pointers; \<open>None\<close> would be not returning.\<close>

partial_function (option) il_walk :: "il_heap \<Rightarrow> addr option \<Rightarrow> addr \<Rightarrow> bool option" where
  "il_walk h current n =
     (case current of
        None \<Rightarrow> Some False
      | Some c \<Rightarrow> if c = n then Some True else il_walk h (next_p (h c)) n)"

definition il_contains :: "addr \<Rightarrow> il_state \<Rightarrow> bool option" where
  "il_contains n q =
     (if \<not> in_list (fst q n) then Some False else il_walk (fst q) (il_head (snd q)) n)"

partial_function (option) il_clear :: "il_state \<Rightarrow> il_state option" where
  "il_clear q = (if il_head (snd q) = None then Some q else il_clear (snd (il_pop_front q)))"

text \<open>
  Move construction leaves the source empty; move assignment additionally asserts
  that the target is empty (the nodes do not refer to the header).
\<close>

definition il_move :: "ilist \<Rightarrow> ilist \<times> ilist" where
  "il_move other = (other, other\<lparr>il_head := None, il_tail := None, il_size := 0\<rparr>)"

definition il_move_assign :: "ilist \<Rightarrow> ilist \<Rightarrow> (ilist \<times> ilist) option" where
  "il_move_assign self other =
     (if il_head self \<noteq> None then None
      else Some (self\<lparr>il_head := il_head other, il_tail := il_tail other, il_size := il_size other\<rparr>,
                 other\<lparr>il_head := None, il_tail := None, il_size := 0\<rparr>))"

section \<open>What a heap represents\<close>

text \<open>
  \<open>lseg h p xs s\<close>: the nodes \<open>xs\<close> are linked in this order, the first one pointing
  back to \<open>p\<close> and the last one on to \<open>s\<close>.
\<close>

fun lseg :: "il_heap \<Rightarrow> addr option \<Rightarrow> addr list \<Rightarrow> addr option \<Rightarrow> bool" where
  "lseg h p [] s \<longleftrightarrow> True"
| "lseg h p (x # xs) s \<longleftrightarrow>
     prev_p (h x) = p \<and> next_p (h x) = (if xs = [] then s else hd_opt xs) \<and> lseg h (Some x) xs s"

definition il_repr :: "il_state \<Rightarrow> addr list \<Rightarrow> bool" where
  "il_repr q xs \<longleftrightarrow> distinct xs \<and> lseg (fst q) None xs None \<and>
     il_head (snd q) = hd_opt xs \<and> il_tail (snd q) = last_opt xs \<and>
     il_size (snd q) = length xs \<and> (\<forall>n. in_list (fst q n) \<longleftrightarrow> n \<in> set xs)"

lemma lseg_append:
  "lseg h p (xs @ ys) s \<longleftrightarrow>
     lseg h p xs (if ys = [] then s else hd_opt ys) \<and>
     lseg h (if xs = [] then p else last_opt xs) ys s"
  by (induction xs arbitrary: p) (auto simp: hd_opt_append last_opt_Cons)

lemma lseg_cong:
  "(\<And>x. x \<in> set xs \<Longrightarrow> prev_p (h x) = prev_p (g x) \<and> next_p (h x) = next_p (g x)) \<Longrightarrow>
   lseg h p xs s = lseg g p xs s"
  by (induction xs arbitrary: p) auto

lemma lseg_upd_other: "n \<notin> set xs \<Longrightarrow> lseg (h(n := v)) p xs s = lseg h p xs s"
  by (rule lseg_cong) auto

lemma lseg_in_list: "lseg (h(n := (h n)\<lparr>in_list := b\<rparr>)) p xs s = lseg h p xs s"
  by (rule lseg_cong) auto

lemma lseg_set_next_last:
  "distinct (xs @ [t]) \<Longrightarrow> lseg h p (xs @ [t]) s \<Longrightarrow>
   lseg (h(t := (h t)\<lparr>next_p := s'\<rparr>)) p (xs @ [t]) s'"
  by (auto simp: lseg_append lseg_upd_other)

lemma lseg_set_prev_first:
  "distinct (t # xs) \<Longrightarrow> lseg h p (t # xs) s \<Longrightarrow>
   lseg (h(t := (h t)\<lparr>prev_p := p'\<rparr>)) p' (t # xs) s"
  by (auto simp: lseg_upd_other)

lemma filter_neq_id: "n \<notin> set xs \<Longrightarrow> filter (\<lambda>x. x \<noteq> n) xs = xs"
  by (auto simp: filter_id_conv)

lemma last_opt_snocE:
  assumes "last_opt xs = Some t" obtains ys where "xs = ys @ [t]"
  using assms by (cases xs rule: rev_cases) auto

lemma hd_opt_ConsE:
  assumes "hd_opt xs = Some t" obtains ys where "xs = t # ys"
  using assms by (cases xs) auto

section \<open>The operations on the represented list\<close>

lemma il_push_back_repr:
  assumes "il_repr q xs" "n \<notin> set xs"
  shows "\<exists>q'. il_push_back n q = Some q' \<and> il_repr q' (xs @ [n])"
proof -
  obtain h l where q: "q = (h, l)" by (cases q)
  have r: "distinct xs" "lseg h None xs None" "il_head l = hd_opt xs" "il_tail l = last_opt xs"
    "il_size l = length xs" "\<And>m. in_list (h m) \<longleftrightarrow> m \<in> set xs"
    using assms(1) by (simp_all add: il_repr_def q)
  show ?thesis
  proof (cases xs rule: rev_cases)
    case Nil
    with r assms(2) show ?thesis
      by (simp add: q il_push_back_def il_repr_def last_opt_Cons)
  next
    case (snoc ys t)
    from snoc assms(2) r(1) have t: "t \<noteq> n" "n \<noteq> t" "n \<notin> set ys" "t \<notin> set ys" "distinct ys"
      by auto
    have seg: "lseg h None ys (Some t)" "prev_p (h t) = (if ys = [] then None else last_opt ys)"
      using r(2) by (simp_all add: snoc lseg_append)
    show ?thesis
      using seg t r(3-6)
      by (simp add: q il_push_back_def il_repr_def snoc lseg_append lseg_upd_other
          hd_opt_append last_opt_append last_opt_Cons)
  qed
qed

lemma il_push_front_repr:
  assumes "il_repr q xs" "n \<notin> set xs"
  shows "\<exists>q'. il_push_front n q = Some q' \<and> il_repr q' (n # xs)"
proof -
  obtain h l where q: "q = (h, l)" by (cases q)
  have r: "distinct xs" "lseg h None xs None" "il_head l = hd_opt xs" "il_tail l = last_opt xs"
    "il_size l = length xs" "\<And>m. in_list (h m) \<longleftrightarrow> m \<in> set xs"
    using assms(1) by (simp_all add: il_repr_def q)
  show ?thesis
  proof (cases xs)
    case Nil
    with r assms(2) show ?thesis
      by (simp add: q il_push_front_def il_repr_def last_opt_Cons)
  next
    case (Cons t ys)
    from Cons assms(2) r(1) have t: "t \<noteq> n" "n \<noteq> t" "n \<notin> set ys" "t \<notin> set ys" "distinct ys"
      by auto
    have seg: "lseg h (Some t) ys None" "next_p (h t) = (if ys = [] then None else hd_opt ys)"
      using r(2) by (simp_all add: Cons)
    show ?thesis
      using seg t r(3-6)
      by (auto simp: q il_push_front_def il_repr_def Cons lseg_upd_other last_opt_Cons)
  qed
qed

lemma il_push_linked: "il_repr q xs \<Longrightarrow> n \<in> set xs \<Longrightarrow>
    il_push_back n q = None \<and> il_push_front n q = None"
  by (auto simp: il_push_back_def il_push_front_def il_repr_def case_prod_beta)

lemma il_remove_other: "il_repr q xs \<Longrightarrow> n \<notin> set xs \<Longrightarrow> il_remove n q = q"
  by (auto simp: il_remove_def il_repr_def case_prod_beta)

lemma il_remove_split:
  assumes "il_repr q (as @ n # bs)"
  shows "il_repr (il_remove n q) (as @ bs)"
proof -
  obtain h l where q: "q = (h, l)" by (cases q)
  have r: "distinct (as @ n # bs)" "lseg h None (as @ n # bs) None"
    "il_head l = hd_opt (as @ n # bs)" "il_tail l = last_opt (as @ n # bs)"
    "il_size l = length (as @ n # bs)" "\<And>m. in_list (h m) \<longleftrightarrow> m \<in> set (as @ n # bs)"
    using assms by (simp_all only: il_repr_def q fst_conv snd_conv)
  have seg: "lseg h None as (Some n)" "lseg h (Some n) bs None"
    "prev_p (h n) = (if as = [] then None else last_opt as)"
    "next_p (h n) = (if bs = [] then None else hd_opt bs)"
    using r(2) by (simp_all add: lseg_append)
  show ?thesis
  proof (cases as rule: rev_cases)
    case Nil
    with r seg show ?thesis
      by (cases bs) (auto simp: q il_remove_def il_repr_def lseg_upd_other last_opt_Cons)
  next
    case as: (snoc as' a)
    show ?thesis
    proof (cases bs)
      case Nil
      with as r seg show ?thesis
        by (auto simp: q il_remove_def il_repr_def lseg_append lseg_upd_other hd_opt_append
            last_opt_append)
    next
      case (Cons b bs')
      with as r seg show ?thesis
        by (auto simp: q il_remove_def il_repr_def lseg_append lseg_upd_other hd_opt_append
            last_opt_append last_opt_Cons)
    qed
  qed
qed

lemma il_remove_repr:
  assumes "il_repr q xs"
  shows "il_repr (il_remove n q) (filter (\<lambda>x. x \<noteq> n) xs)"
proof (cases "n \<in> set xs")
  case True
  then obtain as bs where xs: "xs = as @ n # bs" by (auto dest: split_list)
  with assms have "n \<notin> set as" "n \<notin> set bs" by (auto simp: il_repr_def)
  then have "filter (\<lambda>x. x \<noteq> n) xs = as @ bs"
    by (simp add: xs filter_neq_id)
  with il_remove_split assms xs show ?thesis by simp
next
  case False
  then have "filter (\<lambda>x. x \<noteq> n) xs = xs" by (rule filter_neq_id)
  with False assms show ?thesis by (simp add: il_remove_other)
qed

lemma il_pop_front_repr:
  assumes "il_repr q xs"
  shows "fst (il_pop_front q) = hd_opt xs \<and> il_repr (snd (il_pop_front q)) (tl xs)"
proof (cases xs)
  case Nil
  with assms show ?thesis by (auto simp: il_pop_front_def il_repr_def)
next
  case (Cons x ys)
  with assms have "il_head (snd q) = Some x" by (auto simp: il_repr_def)
  moreover from il_remove_split [of q "[]" x ys] assms Cons have "il_repr (il_remove x q) ys" by simp
  ultimately show ?thesis using Cons by (simp add: il_pop_front_def)
qed

lemma il_pop_back_repr:
  assumes "il_repr q xs"
  shows "fst (il_pop_back q) = last_opt xs \<and> il_repr (snd (il_pop_back q)) (butlast xs)"
proof (cases xs rule: rev_cases)
  case Nil
  with assms show ?thesis by (auto simp: il_pop_back_def il_repr_def)
next
  case (snoc ys x)
  with assms have "il_tail (snd q) = Some x" by (auto simp: il_repr_def)
  moreover from il_remove_split [of q ys x "[]"] assms snoc have "il_repr (il_remove x q) ys" by simp
  ultimately show ?thesis using snoc by (simp add: il_pop_back_def)
qed

lemma il_walk_lseg:
  "lseg h p xs None \<Longrightarrow> il_walk h (hd_opt xs) n = Some (n \<in> set xs)"
proof (induction xs arbitrary: p)
  case Nil
  then show ?case by (simp add: il_walk.simps)
next
  case (Cons x xs)
  then have "next_p (h x) = hd_opt xs" by (simp split: if_splits)
  with Cons show ?case by (subst il_walk.simps) auto
qed

lemma il_contains_repr: "il_repr q xs \<Longrightarrow> il_contains n q = Some (n \<in> set xs)"
  by (auto simp: il_contains_def il_repr_def il_walk_lseg)

lemma il_clear_repr:
  assumes "il_repr q xs"
  shows "\<exists>q'. il_clear q = Some q' \<and> il_repr q' []"
  using assms
proof (induction xs arbitrary: q)
  case Nil
  then show ?case by (auto simp: il_clear.simps il_repr_def)
next
  case (Cons x xs)
  from il_pop_front_repr [OF Cons.prems] have "il_repr (snd (il_pop_front q)) xs" by simp
  from Cons.IH [OF this] show ?case
    using Cons.prems by (subst il_clear.simps) (simp add: il_repr_def)
qed

section \<open>The contract of a waiter queue\<close>

text \<open>
  What the synchronization primitives rely on: an object with contents (a list of
  distinct nodes, oldest first) on which push\_back appends, pop\_front takes the
  oldest, remove unlinks one node, and is\_linked says whether a node is in it.
\<close>

locale waiter_queue =
  fixes push :: "'n \<Rightarrow> 'q \<Rightarrow> 'q option"
    and pop :: "'q \<Rightarrow> 'n option \<times> 'q"
    and rem :: "'n \<Rightarrow> 'q \<Rightarrow> 'q"
    and linked :: "'n \<Rightarrow> 'q \<Rightarrow> bool"
    and repr :: "'q \<Rightarrow> 'n list \<Rightarrow> bool"
  assumes repr_distinct: "repr q xs \<Longrightarrow> distinct xs"
    and push_repr: "repr q xs \<Longrightarrow> n \<notin> set xs \<Longrightarrow> \<exists>q'. push n q = Some q' \<and> repr q' (xs @ [n])"
    and push_refused: "repr q xs \<Longrightarrow> n \<in> set xs \<Longrightarrow> push n q = None"
    and pop_repr: "repr q xs \<Longrightarrow> fst (pop q) = hd_opt xs \<and> repr (snd (pop q)) (tl xs)"
    and rem_repr: "repr q xs \<Longrightarrow> repr (rem n q) (filter (\<lambda>x. x \<noteq> n) xs)"
    and linked_repr: "repr q xs \<Longrightarrow> linked n q \<longleftrightarrow> n \<in> set xs"
begin

text \<open>After \<open>i\<close> pops the contents lost their first \<open>i\<close> nodes, so pops return in arrival order.\<close>

lemma repr_after_pops: "repr q xs \<Longrightarrow> repr (((snd \<circ> pop) ^^ i) q) (drop i xs)"
proof (induction i)
  case 0
  then show ?case by simp
next
  case (Suc i)
  then show ?case using pop_repr [of "((snd \<circ> pop) ^^ i) q" "drop i xs"]
    by (simp add: drop_Suc tl_drop o_def)
qed

lemma pop_nth:
  assumes "repr q xs"
  shows "fst (pop (((snd \<circ> pop) ^^ i) q)) = (if i < length xs then Some (xs ! i) else None)"
  using pop_repr [OF repr_after_pops [OF assms, of i]]
  by (auto simp: Cons_nth_drop_Suc [symmetric])

lemma unlinked_after_rem: "repr q xs \<Longrightarrow> \<not> linked n (rem n q)"
  using linked_repr [OF rem_repr] by fastforce

end

interpretation il: waiter_queue il_push_back il_pop_front il_remove is_linked il_repr
proof unfold_locales
  fix q :: il_state and xs n
  show "il_repr q xs \<Longrightarrow> distinct xs" by (simp add: il_repr_def)
  show "il_repr q xs \<Longrightarrow> n \<notin> set xs \<Longrightarrow> \<exists>q'. il_push_back n q = Some q' \<and> il_repr q' (xs @ [n])"
    by (rule il_push_back_repr)
  show "il_repr q xs \<Longrightarrow> n \<in> set xs \<Longrightarrow> il_push_back n q = None"
    using il_push_linked by blast
  show "il_repr q xs \<Longrightarrow> fst (il_pop_front q) = hd_opt xs \<and> il_repr (snd (il_pop_front q)) (tl xs)"
    by (rule il_pop_front_repr)
  show "il_repr q xs \<Longrightarrow> il_repr (il_remove n q) (filter (\<lambda>x. x \<noteq> n) xs)"
    by (rule il_remove_repr)
  show "il_repr q xs \<Longrightarrow> is_linked n q \<longleftrightarrow> n \<in> set xs"
    by (simp add: il_repr_def is_linked_def)
qed

text \<open>
  The waiter list as the models of the primitives hold it: the contents alone. It
  satisfies the same contract, so an argument about a primitive over it is an
  argument about the primitive over the pointer list.
\<close>

definition wl_push_back :: "'n \<Rightarrow> 'n list \<Rightarrow> 'n list option" where
  "wl_push_back n xs = (if n \<in> set xs then None else Some (xs @ [n]))"

definition wl_pop_front :: "'n list \<Rightarrow> 'n option \<times> 'n list" where
  "wl_pop_front xs = (case xs of [] \<Rightarrow> (None, []) | x # ys \<Rightarrow> (Some x, ys))"

definition wl_remove :: "'n \<Rightarrow> 'n list \<Rightarrow> 'n list" where
  "wl_remove n xs = filter (\<lambda>x. x \<noteq> n) xs"

interpretation wl: waiter_queue wl_push_back wl_pop_front wl_remove
  "\<lambda>n xs. n \<in> set xs" "\<lambda>xs ys. ys = xs \<and> distinct xs"
  by unfold_locales (auto simp: wl_push_back_def wl_pop_front_def wl_remove_def distinct_tl
      split: list.splits)

section \<open>Properties\<close>

text \<open>
  C4: the pointer list is a first-in first-out queue of distinct nodes. From a
  heap that represents \<open>xs\<close>, push\_back appends, push\_front prepends, both refuse
  a node that is linked already, remove unlinks exactly one node wherever it
  stands, and pop\_front and pop\_back return the two ends.
\<close>

theorem intrusive_list_refines_list:
  assumes "il_repr q xs"
  shows "(n \<notin> set xs \<longrightarrow> (\<exists>q'. il_push_back n q = Some q' \<and> il_repr q' (xs @ [n]))) \<and>
    (n \<notin> set xs \<longrightarrow> (\<exists>q'. il_push_front n q = Some q' \<and> il_repr q' (n # xs))) \<and>
    (n \<in> set xs \<longrightarrow> il_push_back n q = None \<and> il_push_front n q = None) \<and>
    il_repr (il_remove n q) (filter (\<lambda>x. x \<noteq> n) xs) \<and>
    fst (il_pop_front q) = hd_opt xs \<and> il_repr (snd (il_pop_front q)) (tl xs) \<and>
    fst (il_pop_back q) = last_opt xs \<and> il_repr (snd (il_pop_back q)) (butlast xs)"
  using il_push_back_repr [OF assms] il_push_front_repr [OF assms] il_push_linked [OF assms]
    il_remove_repr [OF assms] il_pop_front_repr [OF assms] il_pop_back_repr [OF assms]
  by blast

definition il_example :: il_state where
  "il_example = the (il_push_back 2 (the (il_push_back 1 ((\<lambda>_. unlinked_node), il_empty_list))))"

lemma il_repr_empty: "il_repr ((\<lambda>_. unlinked_node), il_empty_list) []"
  by (simp add: il_repr_def unlinked_node_def il_empty_list_def)

lemma il_repr_example: "il_repr il_example [1, 2]"
proof -
  obtain q1 where q1: "il_push_back 1 ((\<lambda>_. unlinked_node), il_empty_list) = Some q1" "il_repr q1 [1]"
    using il_push_back_repr [OF il_repr_empty, of 1] by auto
  obtain q2 where "il_push_back 2 q1 = Some q2" "il_repr q2 [1, 2]"
    using il_push_back_repr [OF q1(2), of 2] by auto
  with q1 show ?thesis by (simp add: il_example_def)
qed

theorem intrusive_list_refines_list_witness:
  "il_repr il_example [1, 2] \<and> il_repr (il_remove 1 il_example) [2] \<and>
   fst (il_pop_front il_example) = Some 1"
  using intrusive_list_refines_list [OF il_repr_example, of 1] il_repr_example by simp

text \<open>
  C5: the pointer walks end. On every heap that represents a list, contains returns
  whether the node is in it, clear returns with every node unlinked, and popping
  repeatedly yields the nodes in the order they were pushed.
\<close>

theorem intrusive_list_walks_terminate:
  assumes "il_repr q xs"
  shows "il_contains n q = Some (n \<in> set xs) \<and>
    (\<exists>q'. il_clear q = Some q' \<and> il_empty q' \<and> (\<forall>m. \<not> is_linked m q')) \<and>
    fst (il_pop_front (((snd \<circ> il_pop_front) ^^ i) q)) = (if i < length xs then Some (xs ! i) else None)"
proof (intro conjI)
  show "il_contains n q = Some (n \<in> set xs)" by (rule il_contains_repr [OF assms])
  obtain q' where "il_clear q = Some q'" "il_repr q' []" using il_clear_repr [OF assms] by auto
  then show "\<exists>q'. il_clear q = Some q' \<and> il_empty q' \<and> (\<forall>m. \<not> is_linked m q')"
    by (auto simp: il_repr_def il_empty_def is_linked_def)
  show "fst (il_pop_front (((snd \<circ> il_pop_front) ^^ i) q)) =
      (if i < length xs then Some (xs ! i) else None)"
    by (rule il.pop_nth [OF assms])
qed

theorem intrusive_list_walks_terminate_witness:
  "il_repr il_example [1, 2] \<and> il_contains 2 il_example = Some True"
  using intrusive_list_walks_terminate [OF il_repr_example, of 2] il_repr_example by simp

end
