(* ===== verification/Waiters.thy ===== *)
theory Waiters
  imports Wake_State Intrusive_List
begin

text \<open>
  What the coroutine-aware primitives (semaphore, mutex, event) share: the waiter
  object embedded in an awaiting coroutine frame, the loop that hands a resource
  to the oldest waiter that cancellation has not already taken, and the life cycle
  the compiler imposes on an awaiter.

  A waiter is identified by its address. The code of a primitive between taking
  and releasing its internal std::mutex is one atomic step of the model, with one
  exception: a cancellation request does not take that mutex and can hit the wake
  word of a waiter in the middle of a critical section. Where a critical section
  reads one wake word more than once, the model has a flag for each window,
  saying whether a request arrives in it (\<open>cancel_if\<close>); where it reads a wake word
  once, a request before or after that read is a separate step.
\<close>

section \<open>The waiter object\<close>

text \<open>
  class waiter\_state: the lazily constructed shared wake state (engaged means
  \<open>w_wake \<noteq> None\<close>) and its flags.
\<close>

record waiter =
  w_wake :: "wake_state option"
  w_cancellable :: bool
  w_suspended :: bool
  w_resumed :: bool
  w_grant_pending :: bool

type_synonym waiter_map = "addr \<Rightarrow> waiter"

definition new_waiter :: "bool \<Rightarrow> waiter" where
  "new_waiter cancellable =
     \<lparr>w_wake = (if cancellable then Some make_wake_state else None), w_cancellable = cancellable,
      w_suspended = False, w_resumed = False, w_grant_pending = False\<rparr>"

text \<open>emplace asserts that the slot is not engaged yet.\<close>

definition w_emplace :: "waiter \<Rightarrow> waiter option" where
  "w_emplace x = (if w_wake x \<noteq> None then None else Some (x\<lparr>w_wake := Some make_wake_state\<rparr>))"

definition w_was_cancelled :: "waiter \<Rightarrow> bool" where
  "w_was_cancelled x = (case w_wake x of None \<Rightarrow> False | Some k \<Rightarrow> was_cancelled k)"

definition w_claim :: "waiter \<Rightarrow> wake_action \<times> waiter" where
  "w_claim x = (let (a, p) = claim_wake_state (w_wake x) in (a, x\<lparr>w_wake := p\<rparr>))"

definition w_abandon :: "waiter \<Rightarrow> waiter" where
  "w_abandon x = x\<lparr>w_wake := cancel_wake_state (w_wake x)\<rparr>"

definition w_schedule :: "waiter \<Rightarrow> bool \<times> waiter" where
  "w_schedule x = (let (b, p, _) = schedule_wake_state (w_wake x) in (b, x\<lparr>w_wake := p\<rparr>))"

text \<open>The two calls of the publication window of a cancellable waiter.\<close>

definition w_set_handle_blocked :: "coro_handle \<Rightarrow> waiter \<Rightarrow> bool \<times> waiter" where
  "w_set_handle_blocked h x =
     (case w_wake x of
        None \<Rightarrow> (False, x)
      | Some k \<Rightarrow> let (ok, k') = set_handle_blocked h k in (ok, x\<lparr>w_wake := Some k'\<rparr>))"

definition w_unblock_after_publish :: "waiter \<Rightarrow> bool \<times> waiter" where
  "w_unblock_after_publish x =
     (case w_wake x of
        None \<Rightarrow> (False, x)
      | Some k \<Rightarrow> let (ok, k') = unblock_after_publish k in (ok, x\<lparr>w_wake := Some k'\<rparr>))"

text \<open>The stores at the end of a completed await\_resume.\<close>

definition w_mark_resumed :: "waiter \<Rightarrow> waiter" where
  "w_mark_resumed x = x\<lparr>w_resumed := True, w_grant_pending := False, w_suspended := False\<rparr>"

datatype cancel_result = Completed | Cancelled

text \<open>The callback a cancellable awaiter registers with its token.\<close>

definition w_request_cancel :: "waiter \<Rightarrow> waiter" where
  "w_request_cancel x = x\<lparr>w_wake := map_option (\<lambda>k. fst (snd (request_cancel k))) (w_wake x)\<rparr>"

definition cancel_if :: "bool \<Rightarrow> waiter \<Rightarrow> waiter" where
  "cancel_if c x = (if c then w_request_cancel x else x)"

section \<open>Handing a resource to a waiter\<close>

text \<open>
  The loop of semaphore::claim\_waiter\_locked and mutex::recover\_cancelled\_handoff\_locked:
  pop waiters until one is found whose notification is not rejected, and mark its grant.
\<close>

fun claim_waiter_locked :: "waiter_map \<Rightarrow> addr list \<Rightarrow> addr option \<times> waiter_map \<times> addr list" where
  "claim_waiter_locked m [] = (None, m, [])"
| "claim_waiter_locked m (w # q) =
     (if w_cancellable (m w) then
        let (a, x) = w_claim (m w) in
        if a = Rejected then claim_waiter_locked (m(w := x)) q
        else (Some w, m(w := x\<lparr>w_grant_pending := True\<rparr>), q)
      else (Some w, m(w := (m w)\<lparr>w_grant_pending := True\<rparr>), q))"

definition rejects :: "waiter \<Rightarrow> bool" where
  "rejects x \<longleftrightarrow> w_cancellable x \<and> fst (w_claim x) = Rejected"

definition granted :: "waiter \<Rightarrow> waiter" where
  "granted x = (if w_cancellable x then snd (w_claim x) else x)\<lparr>w_grant_pending := True\<rparr>"

lemma w_claim_rejected: "fst (w_claim x) = Rejected \<Longrightarrow> snd (w_claim x) = x"
proof (cases "w_wake x")
  case None
  then show ?thesis by (simp add: w_claim_def claim_wake_state_def)
next
  case (Some k)
  assume "fst (w_claim x) = Rejected"
  with Some show ?thesis
    by (cases "ws_state k") (simp_all add: w_claim_def claim_wake_state_def wake_op_defs)
qed

text \<open>The loop grants to the first waiter in queue order that does not reject, and to no other.\<close>

lemma claim_waiter_locked_eq:
  "claim_waiter_locked m q =
     (case dropWhile (\<lambda>w. rejects (m w)) q of
        [] \<Rightarrow> (None, m, [])
      | w # q' \<Rightarrow> (Some w, m(w := granted (m w)), q'))"
proof (induction q)
  case Nil
  then show ?case by simp
next
  case (Cons w q)
  show ?case
  proof (cases "rejects (m w)")
    case True
    then have "m(w := snd (w_claim (m w))) = m"
      by (simp add: rejects_def w_claim_rejected)
    with True Cons show ?thesis by (simp add: rejects_def case_prod_beta Let_def)
  next
    case False
    then show ?thesis by (auto simp: rejects_def granted_def case_prod_beta Let_def)
  qed
qed

section \<open>The life cycle of an awaiter\<close>

text \<open>
  What a co\_await expression does with an awaiter: construct it, call await\_ready,
  on \<open>False\<close> call await\_suspend, resume (at once or when scheduled), destroy. A frame
  may also be destroyed while suspended. \<open>Locking\<close> and \<open>Emplaced\<close> are points inside the
  await\_ready and await\_suspend of a mutex, whose atomic accesses are not all in one
  critical section. The phase is ghost state.
\<close>

datatype phase =
    Unborn | Constructed | Not_Ready | Locking | Emplaced | Suspended | Completing | Finished | Destroyed

definition w_scheduling :: "waiter \<Rightarrow> bool" where
  "w_scheduling x = (case w_wake x of None \<Rightarrow> False | Some k \<Rightarrow> ws_state k \<in> scheduling_states)"

definition can_resume :: "(addr \<Rightarrow> phase) \<Rightarrow> waiter_map \<Rightarrow> addr \<Rightarrow> bool" where
  "can_resume ph m w \<longleftrightarrow> ph w = Completing \<or> (ph w = Suspended \<and> w_scheduling (m w))"

definition can_destroy :: "(addr \<Rightarrow> phase) \<Rightarrow> addr \<Rightarrow> bool" where
  "can_destroy ph w \<longleftrightarrow> ph w \<in> {Constructed, Not_Ready, Suspended, Finished}"

text \<open>A waiter before its await\_suspend, in the queue, and after a grant.\<close>

definition fresh_ok :: "waiter \<Rightarrow> bool" where
  "fresh_ok x \<longleftrightarrow> \<not> w_suspended x \<and> \<not> w_resumed x \<and> \<not> w_grant_pending x \<and>
     (if w_cancellable x then \<exists>k. w_wake x = Some k \<and> ws_state k \<in> {Idle, Cancelled_Inline}
      else w_wake x = None)"

definition emplaced_ok :: "waiter \<Rightarrow> bool" where
  "emplaced_ok x \<longleftrightarrow> \<not> w_suspended x \<and> \<not> w_resumed x \<and> \<not> w_grant_pending x \<and>
     \<not> w_cancellable x \<and> (\<exists>k. w_wake x = Some k \<and> ws_state k = Idle)"

definition queued_ok :: "waiter \<Rightarrow> bool" where
  "queued_ok x \<longleftrightarrow> w_suspended x \<and> \<not> w_resumed x \<and> \<not> w_grant_pending x \<and>
     (\<exists>k. w_wake x = Some k \<and>
        (ws_state k = Waiting \<or> (w_cancellable x \<and> ws_state k = Cancellation_Scheduling)))"

definition granted_ok :: "waiter \<Rightarrow> bool" where
  "granted_ok x \<longleftrightarrow> w_suspended x \<and> \<not> w_resumed x \<and> w_grant_pending x \<and>
     (\<exists>k. w_wake x = Some k \<and>
        (ws_state k = Notification_Scheduling \<or>
         ws_state k = (if w_cancellable x then Notification_Claimed else Waiting)))"

definition cancelled_ok :: "waiter \<Rightarrow> bool" where
  "cancelled_ok x \<longleftrightarrow> w_suspended x \<and> \<not> w_resumed x \<and> \<not> w_grant_pending x \<and> w_cancellable x \<and>
     (\<exists>k. w_wake x = Some k \<and> ws_state k = Cancellation_Scheduling)"

definition completing_ok :: "waiter \<Rightarrow> bool" where
  "completing_ok x \<longleftrightarrow> \<not> w_suspended x \<and> \<not> w_grant_pending x \<and>
     (if w_cancellable x
      then \<exists>k. w_wake x = Some k \<and> ws_state k \<in> {Notified_Inline, Cancelled_Inline}
      else \<not> w_was_cancelled x)"

text \<open>
  The invariant of the waiters of one primitive, one waiter at a time: whether it is
  in the queue, whether it was handed to the scheduling step that follows the
  critical section and not scheduled yet, its phase, and its fields.
\<close>

fun waiter_ok :: "bool \<Rightarrow> bool \<Rightarrow> phase \<Rightarrow> waiter \<Rightarrow> bool" where
  "waiter_ok inq sched Unborn x \<longleftrightarrow> \<not> inq \<and> \<not> sched \<and> \<not> w_grant_pending x"
| "waiter_ok inq sched Constructed x \<longleftrightarrow> \<not> inq \<and> \<not> sched \<and> fresh_ok x"
| "waiter_ok inq sched Not_Ready x \<longleftrightarrow> \<not> inq \<and> \<not> sched \<and> fresh_ok x"
| "waiter_ok inq sched Locking x \<longleftrightarrow> \<not> inq \<and> \<not> sched \<and> fresh_ok x \<and> w_cancellable x"
| "waiter_ok inq sched Emplaced x \<longleftrightarrow> \<not> inq \<and> \<not> sched \<and> emplaced_ok x"
| "waiter_ok inq sched Suspended x \<longleftrightarrow>
     (if inq then \<not> sched \<and> queued_ok x
      else if w_grant_pending x then granted_ok x \<and> (sched \<longleftrightarrow> \<not> w_scheduling x)
      else \<not> sched \<and> cancelled_ok x)"
| "waiter_ok inq sched Completing x \<longleftrightarrow> \<not> inq \<and> \<not> sched \<and> completing_ok x"
| "waiter_ok inq sched Finished x \<longleftrightarrow>
     \<not> inq \<and> \<not> sched \<and> \<not> w_grant_pending x \<and> \<not> w_suspended x"
| "waiter_ok inq sched Destroyed x \<longleftrightarrow> \<not> inq \<and> \<not> w_grant_pending x"

text \<open>A waiter that acquired without suspending and whose await\_resume is still to come.\<close>

fun holds_inline :: "phase \<Rightarrow> waiter \<Rightarrow> bool" where
  "holds_inline Locking x \<longleftrightarrow> True"
| "holds_inline Completing x \<longleftrightarrow> \<not> w_was_cancelled x"
| "holds_inline _ x \<longleftrightarrow> False"

definition inline_done :: "(addr \<Rightarrow> phase) \<Rightarrow> waiter_map \<Rightarrow> addr \<Rightarrow> bool" where
  "inline_done ph m w \<longleftrightarrow> holds_inline (ph w) (m w)"

definition wait_inv :: "addr list \<Rightarrow> waiter_map \<Rightarrow> (addr \<Rightarrow> phase) \<Rightarrow> addr set \<Rightarrow> bool" where
  "wait_inv q m ph ps \<longleftrightarrow> distinct q \<and> finite {w. w_grant_pending (m w)} \<and> finite {w. inline_done ph m w} \<and>
     (\<forall>w. waiter_ok (w \<in> set q) (w \<in> ps) (ph w) (m w))"

text \<open>Grants that were handed over and not taken yet, and inline completions not returned yet.\<close>

definition pending :: "waiter_map \<Rightarrow> int" where
  "pending m = cnt (\<lambda>w. w_grant_pending (m w))"

definition inflight :: "(addr \<Rightarrow> phase) \<Rightarrow> waiter_map \<Rightarrow> int" where
  "inflight ph m = cnt (inline_done ph m)"

lemmas waiter_defs = w_was_cancelled_def w_claim_def w_abandon_def w_schedule_def
  w_request_cancel_def w_scheduling_def claim_wake_state_def cancel_wake_state_def
  schedule_wake_state_def fresh_ok_def emplaced_ok_def queued_ok_def granted_ok_def cancelled_ok_def
  completing_ok_def new_waiter_def w_emplace_def w_set_handle_blocked_def
  w_unblock_after_publish_def w_mark_resumed_def cancel_if_def scheduling_states_def make_wake_state_def

lemma wait_inv_finite: "wait_inv q m ph ps \<Longrightarrow> finite {w. w_grant_pending (m w)}"
  by (simp add: wait_inv_def)

lemma wait_inv_at: "wait_inv q m ph ps \<Longrightarrow> waiter_ok (w \<in> set q) (w \<in> ps) (ph w) (m w)"
  by (simp add: wait_inv_def)

lemma waiter_ok_queued: "waiter_ok True sched p x \<Longrightarrow> p = Suspended \<and> \<not> sched \<and> queued_ok x"
  by (cases p) simp_all

lemma waiter_ok_pending:
  "waiter_ok inq sched p x \<Longrightarrow> w_grant_pending x \<Longrightarrow>
   p = Suspended \<and> \<not> inq \<and> granted_ok x \<and> (sched \<longleftrightarrow> \<not> w_scheduling x)"
  by (cases p) (simp_all add: fresh_ok_def emplaced_ok_def queued_ok_def completing_ok_def split: if_splits)

lemma pending_nonneg [simp]: "0 \<le> pending m" "0 \<le> inflight ph m"
  by (simp_all add: pending_def inflight_def)

lemma inflight_pos: "wait_inv q m ph ps \<Longrightarrow> holds_inline (ph w) (m w) \<Longrightarrow> 1 \<le> inflight ph m"
  unfolding inflight_def by (rule cnt_pos [where a = w]) (simp_all add: wait_inv_def inline_done_def)

lemma pending_pos: "wait_inv q m ph ps \<Longrightarrow> w_grant_pending (m w) \<Longrightarrow> 1 \<le> pending m"
  unfolding pending_def by (rule cnt_pos [OF wait_inv_finite])

text \<open>One waiter changes, the others keep their place.\<close>

lemma wait_inv_upd:
  assumes inv: "wait_inv q m ph ps" and "distinct q'"
    and same: "\<And>v. v \<noteq> w \<Longrightarrow> (v \<in> set q' \<longleftrightarrow> v \<in> set q) \<and> (v \<in> ps' \<longleftrightarrow> v \<in> ps)"
    and "waiter_ok (w \<in> set q') (w \<in> ps') p x"
  shows "wait_inv q' (m(w := x)) (ph(w := p)) ps'"
    and "pending (m(w := x)) =
      pending m + of_bool (w_grant_pending x) - of_bool (w_grant_pending (m w))"
    and "inflight (ph(w := p)) (m(w := x)) =
      inflight ph m + of_bool (holds_inline p x) - of_bool (inline_done ph m w)"
proof -
  have f: "finite {w. w_grant_pending (m w)}" "finite {w. inline_done ph m w}"
    using inv by (simp_all add: wait_inv_def)
  note g = cnt_upd [of "\<lambda>w. w_grant_pending (m w)" w "\<lambda>v. w_grant_pending ((m(w := x)) v)"]
  note i = cnt_upd [of "inline_done ph m" w "inline_done (ph(w := p)) (m(w := x))"]
  have "finite {v. w_grant_pending ((m(w := x)) v)}" by (rule g) (use f in simp_all)
  moreover have "finite {v. inline_done (ph(w := p)) (m(w := x)) v}"
    by (rule i) (use f in \<open>simp_all add: inline_done_def\<close>)
  ultimately show "wait_inv q' (m(w := x)) (ph(w := p)) ps'"
    using assms by (simp add: wait_inv_def)
  show "pending (m(w := x)) =
      pending m + of_bool (w_grant_pending x) - of_bool (w_grant_pending (m w))"
    unfolding pending_def by (subst g) (use f in simp_all)
  show "inflight (ph(w := p)) (m(w := x)) =
      inflight ph m + of_bool (holds_inline p x) - of_bool (inline_done ph m w)"
    unfolding inflight_def by (subst i, rule f(2)) (simp_all add: inline_done_def)
qed

lemma rejects_queued: "queued_ok x \<Longrightarrow> rejects x \<Longrightarrow> cancelled_ok x"
  by (auto simp: queued_ok_def rejects_def cancelled_ok_def w_claim_def claim_wake_state_def wake_op_defs)

lemma granted_queued:
  "queued_ok x \<Longrightarrow> \<not> rejects x \<Longrightarrow> granted_ok (granted x) \<and> \<not> w_scheduling (granted x)"
  by (auto simp: queued_ok_def rejects_def granted_def granted_ok_def w_claim_def
      claim_wake_state_def wake_op_defs w_scheduling_def scheduling_states_def)

text \<open>Dropping a cancelled prefix of the queue keeps the invariant.\<close>

lemma wait_inv_drop:
  assumes "wait_inv (us @ q) m ph ps" "\<And>u. u \<in> set us \<Longrightarrow> rejects (m u)"
  shows "wait_inv q m ph ps"
  unfolding wait_inv_def
proof (intro conjI allI)
  show "distinct q" "finite {w. w_grant_pending (m w)}" "finite {w. inline_done ph m w}"
    using assms(1) by (simp_all add: wait_inv_def)
  fix w
  have ok: "waiter_ok (w \<in> set (us @ q)) (w \<in> ps) (ph w) (m w)" by (rule wait_inv_at [OF assms(1)])
  show "waiter_ok (w \<in> set q) (w \<in> ps) (ph w) (m w)"
  proof (cases "w \<in> set us")
    case True
    then have "w \<notin> set q" using assms(1) by (auto simp: wait_inv_def)
    moreover from True ok have "ph w = Suspended \<and> w \<notin> ps \<and> queued_ok (m w)"
      using waiter_ok_queued by force
    ultimately show ?thesis
      using rejects_queued [of "m w"] assms(2) [OF True] by (simp add: queued_ok_def)
  next
    case False
    with ok show ?thesis by simp
  qed
qed

text \<open>
  The loop keeps the invariant, adds one pending grant exactly when it returns a
  waiter, and empties the queue when it does not.
\<close>

lemma claim_waiter_locked_inv:
  assumes inv: "wait_inv q m ph ps"
  shows "case claim_waiter_locked m q of (r, m', q') \<Rightarrow>
    (case r of
       None \<Rightarrow> wait_inv [] m ph ps \<and> m' = m \<and> q' = []
     | Some w \<Rightarrow> wait_inv q' m' ph (insert w ps) \<and> pending m' = pending m + 1 \<and>
         inflight ph m' = inflight ph m)"
proof -
  define us where "us = takeWhile (\<lambda>w. rejects (m w)) q"
  define vs where "vs = dropWhile (\<lambda>w. rejects (m w)) q"
  have us: "\<And>u. u \<in> set us \<Longrightarrow> rejects (m u)" by (auto simp: us_def dest: set_takeWhileD)
  have q: "q = us @ vs" by (simp add: us_def vs_def)
  have invs: "wait_inv vs m ph ps" by (rule wait_inv_drop [OF inv [unfolded q] us])
  have eq: "claim_waiter_locked m q = (case vs of [] \<Rightarrow> (None, m, [])
      | w # q' \<Rightarrow> (Some w, m(w := granted (m w)), q'))"
    by (simp add: claim_waiter_locked_eq vs_def)
  show ?thesis
  proof (cases vs)
    case Nil
    with invs show ?thesis by (simp add: eq)
  next
    case (Cons w q')
    have nr: "\<not> rejects (m w)" using Cons unfolding vs_def
      by (metis list.distinct(1) list.sel(1) hd_dropWhile)
    have ok: "ph w = Suspended \<and> w \<notin> ps \<and> queued_ok (m w)"
      using wait_inv_at [OF invs, of w] waiter_ok_queued Cons by force
    have d: "distinct q' \<and> w \<notin> set q'" using invs Cons by (simp add: wait_inv_def)
    have g: "granted_ok (granted (m w)) \<and> \<not> w_scheduling (granted (m w))"
      using granted_queued ok nr by blast
    have same: "ph(w := Suspended) = ph" using ok by auto
    have d': "distinct q'" using d by simp
    have ok': "waiter_ok (w \<in> set q') (w \<in> insert w ps) Suspended (granted (m w))"
      using d g by (auto simp: granted_ok_def)
    have oth: "\<And>v. v \<noteq> w \<Longrightarrow> (v \<in> set q' \<longleftrightarrow> v \<in> set vs) \<and> (v \<in> insert w ps \<longleftrightarrow> v \<in> ps)"
      using Cons by simp
    note upd = wait_inv_upd [OF invs d' oth ok', unfolded same]
    have "inline_done ph m w = False" using ok by (simp add: inline_done_def)
    then show ?thesis
      using Cons upd ok g by (simp add: eq queued_ok_def granted_ok_def)
  qed
qed

text \<open>A cancellation request and a scheduling step on a waiter, by its state word.\<close>

fun cancel_requested :: "wstate \<Rightarrow> wstate" where
  "cancel_requested Idle = Cancelled_Inline"
| "cancel_requested Blocked = Cancelled_Inline"
| "cancel_requested Waiting = Cancellation_Scheduling"
| "cancel_requested st = st"

lemma w_request_cancel_eq:
  "w_wake x = Some k \<Longrightarrow>
   w_request_cancel x = x\<lparr>w_wake := Some (k\<lparr>ws_state := cancel_requested (ws_state k)\<rparr>)\<rparr>"
  by (cases "ws_state k") (simp_all add: w_request_cancel_def wake_op_defs)

lemma w_request_cancel_None: "w_wake x = None \<Longrightarrow> w_request_cancel x = x"
  by (simp add: w_request_cancel_def)

lemma w_request_cancel_flags [simp]:
  "w_cancellable (w_request_cancel x) = w_cancellable x"
  "w_suspended (w_request_cancel x) = w_suspended x"
  "w_resumed (w_request_cancel x) = w_resumed x"
  "w_grant_pending (w_request_cancel x) = w_grant_pending x"
  by (simp_all add: w_request_cancel_def)

lemma completing_request_cancel:
  "completing_ok x \<Longrightarrow> w_cancellable x \<Longrightarrow>
   completing_ok (w_request_cancel x) \<and> w_was_cancelled (w_request_cancel x) = w_was_cancelled x"
  by (auto simp: completing_ok_def w_request_cancel_eq w_was_cancelled_def was_cancelled_def)

lemma waiter_ok_request_cancel:
  "waiter_ok inq sched p x \<Longrightarrow> w_cancellable x \<Longrightarrow> waiter_ok inq sched p (w_request_cancel x)"
proof (cases p)
  case Suspended
  assume "waiter_ok inq sched p x" "w_cancellable x"
  with Suspended show ?thesis
    by (cases inq; cases "w_grant_pending x")
       (auto simp: queued_ok_def granted_ok_def cancelled_ok_def w_request_cancel_eq w_scheduling_def)
qed (auto simp: fresh_ok_def emplaced_ok_def w_request_cancel_eq completing_request_cancel)

lemma waiter_ok_schedule:
  assumes "waiter_ok inq True p x"
  shows "waiter_ok inq False p (snd (w_schedule x))"
proof -
  have g: "w_grant_pending (snd (w_schedule x)) = w_grant_pending x"
    by (simp add: w_schedule_def case_prod_beta Let_def)
  show ?thesis
  proof (cases p)
    case Suspended
    with assms have x: "\<not> inq" "granted_ok x" "\<not> w_scheduling x" by (auto split: if_splits)
    then have "granted_ok (snd (w_schedule x)) \<and> w_scheduling (snd (w_schedule x))"
      by (auto simp: granted_ok_def w_scheduling_def w_schedule_def schedule_wake_state_def
          scheduling_states_def wake_op_defs split: if_splits)
    with Suspended x g show ?thesis by (simp add: granted_ok_def)
  qed (use assms g in simp_all)
qed

text \<open>The waiter's own steps in await\_suspend\_cancellable, by the requests that arrive.\<close>

lemma fresh_cancellable_race:
  assumes "fresh_ok x" "w_cancellable x" "\<not> w_was_cancelled x"
  shows "fst (w_claim (cancel_if c x)) = (if c then Rejected else Completed_Inline)"
    and "completing_ok (snd (w_claim (cancel_if c x)))"
    and "w_was_cancelled (snd (w_claim (cancel_if c x))) = c"
    and "fst (w_set_handle_blocked h (cancel_if c x)) = (\<not> c)"
    and "c \<Longrightarrow> completing_ok (snd (w_set_handle_blocked h (cancel_if c x))) \<and>
               w_was_cancelled (snd (w_set_handle_blocked h (cancel_if c x)))"
    and "\<not> c \<Longrightarrow> z = w_unblock_after_publish
             (cancel_if d ((snd (w_set_handle_blocked h (cancel_if c x)))\<lparr>w_suspended := True\<rparr>)) \<Longrightarrow>
           fst z = (\<not> d) \<and> (d \<longrightarrow> completing_ok ((snd z)\<lparr>w_suspended := False\<rparr>) \<and>
             w_was_cancelled ((snd z)\<lparr>w_suspended := False\<rparr>)) \<and> (\<not> d \<longrightarrow> queued_ok (snd z)) \<and>
             \<not> w_grant_pending (snd z)"
  using assms by (auto simp: waiter_defs wake_op_defs)

lemma completing_not_pending: "completing_ok x \<Longrightarrow> \<not> w_grant_pending x \<and> \<not> w_suspended x"
  by (simp add: completing_ok_def)

lemma unsuspended_same: "\<not> w_suspended x \<Longrightarrow> x\<lparr>w_suspended := False\<rparr> = x"
  by (cases x) simp

lemma set_wl_remove: "set (wl_remove w q) = set q - {w}"
  by (auto simp: wl_remove_def)

lemma distinct_wl_remove: "distinct q \<Longrightarrow> distinct (wl_remove w q)"
  by (simp add: wl_remove_def)

lemma wl_remove_absent: "w \<notin> set q \<Longrightarrow> wl_remove w q = q"
  by (auto simp: wl_remove_def filter_id_conv)

text \<open>The waiter that is served, in terms of the queue order.\<close>

lemma claim_waiter_locked_head:
  "claim_waiter_locked m q =
     (case filter (\<lambda>w. \<not> rejects (m w)) q of
        [] \<Rightarrow> (None, m, [])
      | w # _ \<Rightarrow> (Some w, m(w := granted (m w)), tl (dropWhile (\<lambda>w. rejects (m w)) q)))"
proof -
  have "filter (\<lambda>w. \<not> rejects (m w)) q =
    (case dropWhile (\<lambda>w. rejects (m w)) q of [] \<Rightarrow> [] | w # r \<Rightarrow> w # filter (\<lambda>w. \<not> rejects (m w)) r)"
    by (induction q) simp_all
  then show ?thesis
    by (cases "dropWhile (\<lambda>w. rejects (m w)) q") (simp_all add: claim_waiter_locked_eq del: dropWhile_eq_Nil_conv)
qed

lemma queued_rejects: "queued_ok x \<Longrightarrow> rejects x \<longleftrightarrow> w_was_cancelled x"
  by (auto simp: queued_ok_def rejects_def w_claim_def claim_wake_state_def w_was_cancelled_def wake_op_defs)

end
