(* ===== verification/Semaphore.thy ===== *)
theory Semaphore
  imports Waiters
begin

text \<open>
  The counting semaphore (src/include/elio/sync/semaphore.hpp): its permit count,
  its FIFO of waiters, every operation of acquire\_waiter and of semaphore, and the
  transition system of all interleavings of these operations with cancellation
  requests. An operation that fails one of the source's assertions is \<open>None\<close>.
\<close>

definition INT_MAX :: int where
  "INT_MAX = 2147483647"

record semaphore =
  sem_count :: int
  sem_waiters :: "addr list"
  sem_ws :: waiter_map

section \<open>Operations\<close>

definition sem_set :: "addr \<Rightarrow> waiter \<Rightarrow> semaphore \<Rightarrow> semaphore" where
  "sem_set w x s = s\<lparr>sem_ws := (sem_ws s)(w := x)\<rparr>"

definition semaphore_ctor :: "int \<Rightarrow> semaphore option" where
  "semaphore_ctor initial_count =
     (if initial_count \<ge> 0 then
        Some \<lparr>sem_count = initial_count, sem_waiters = [], sem_ws = (\<lambda>_. new_waiter False)\<rparr>
      else None)"

definition sem_new_waiter :: "addr \<Rightarrow> bool \<Rightarrow> semaphore \<Rightarrow> semaphore" where
  "sem_new_waiter w cancellable s = sem_set w (new_waiter cancellable) s"

definition try_acquire :: "semaphore \<Rightarrow> bool \<times> semaphore" where
  "try_acquire s =
     (if sem_count s > 0 then (True, s\<lparr>sem_count := sem_count s - 1\<rparr>) else (False, s))"

definition sem_claim_waiter_locked :: "semaphore \<Rightarrow> addr option \<times> semaphore" where
  "sem_claim_waiter_locked s =
     (let (r, m, q) = claim_waiter_locked (sem_ws s) (sem_waiters s) in
      (r, s\<lparr>sem_waiters := q, sem_ws := m\<rparr>))"

definition sem_recover_cancelled_handoff_locked :: "semaphore \<Rightarrow> (addr option \<times> semaphore) option" where
  "sem_recover_cancelled_handoff_locked s =
     (case sem_claim_waiter_locked s of
        (Some w, s') \<Rightarrow> Some (Some w, s')
      | (None, s') \<Rightarrow>
          if sem_count s' < INT_MAX then Some (None, s'\<lparr>sem_count := sem_count s' + 1\<rparr>) else None)"

text \<open>The loop of release: at most \<open>n\<close> waiters are claimed; the rest is returned.\<close>

fun sem_release_loop :: "nat \<Rightarrow> semaphore \<Rightarrow> addr list \<times> nat \<times> semaphore" where
  "sem_release_loop 0 s = ([], 0, s)"
| "sem_release_loop (Suc n) s =
     (case sem_claim_waiter_locked s of
        (None, s') \<Rightarrow> ([], Suc n, s')
      | (Some w, s') \<Rightarrow> let (ws, remaining, s'') = sem_release_loop n s' in (w # ws, remaining, s''))"

definition sem_release :: "int \<Rightarrow> semaphore \<Rightarrow> (addr list \<times> semaphore) option" where
  "sem_release n s =
     (if n > 0 then
        let (ws, remaining, s') = sem_release_loop (nat n) s in
        if sem_count s' \<le> INT_MAX - int remaining
        then Some (ws, s'\<lparr>sem_count := sem_count s' + int remaining\<rparr>)
        else None
      else None)"

text \<open>await\_ready; \<open>c\<close>: a request arrives after the test of was\_cancelled.\<close>

definition sem_await_ready :: "bool \<Rightarrow> addr \<Rightarrow> semaphore \<Rightarrow> (bool \<times> semaphore) option" where
  "sem_await_ready c w s =
     (let x = sem_ws s w in
      if \<not> w_cancellable x then Some (try_acquire s)
      else if w_was_cancelled x then Some (True, s)
      else
        let x1 = cancel_if c x in
        if sem_count s = 0 then Some (False, sem_set w x1 s)
        else
          let (action, x2) = w_claim x1 in
          if action = Rejected then Some (True, sem_set w x2 s)
          else if action = Completed_Inline then
            Some (True, (sem_set w x2 s)\<lparr>sem_count := sem_count s - 1\<rparr>)
          else None)"

text \<open>
  await\_suspend returns whether the coroutine suspends and the waiter to schedule
  after the critical section.
\<close>

definition sem_await_suspend_non_cancellable ::
    "coro_handle \<Rightarrow> addr \<Rightarrow> semaphore \<Rightarrow> (bool \<times> addr option \<times> semaphore) option" where
  "sem_await_suspend_non_cancellable h w s =
     (case w_emplace (sem_ws s w) of
        None \<Rightarrow> None
      | Some x \<Rightarrow>
          if sem_count s > 0
          then Some (False, None, (sem_set w x s)\<lparr>sem_count := sem_count s - 1\<rparr>)
          else
            (case wl_push_back w (sem_waiters s) of
               None \<Rightarrow> None
             | Some q \<Rightarrow>
                 Some (True, None,
                   (sem_set w (x\<lparr>w_wake := map_option (set_handle h) (w_wake x), w_suspended := True\<rparr>) s)
                     \<lparr>sem_waiters := q\<rparr>)))"

text \<open>
  \<open>c1\<close>: a request arrives after the test of was\_cancelled; \<open>c2\<close>: one arrives
  between set\_handle\_blocked and unblock\_after\_publish.
\<close>

definition sem_await_suspend_cancellable ::
    "bool \<Rightarrow> bool \<Rightarrow> coro_handle \<Rightarrow> addr \<Rightarrow> semaphore \<Rightarrow>
     (bool \<times> addr option \<times> semaphore) option" where
  "sem_await_suspend_cancellable c1 c2 h w s =
     (let x = sem_ws s w in
      if w_was_cancelled x then Some (False, None, s)
      else
        let x1 = cancel_if c1 x in
        if sem_count s > 0 then
          let (action, x2) = w_claim x1;
              s' = (sem_set w x2 s)\<lparr>sem_count := sem_count s - 1\<rparr>
          in if action \<noteq> Rejected then Some (False, None, s')
             else map_option (\<lambda>(r, s''). (False, r, s'')) (sem_recover_cancelled_handoff_locked s')
        else
          let (ok, x2) = w_set_handle_blocked h x1 in
          if \<not> ok then Some (False, None, sem_set w x2 s)
          else
            (case wl_push_back w (sem_waiters s) of
               None \<Rightarrow> None
             | Some q \<Rightarrow>
                 let (ok', x3) = w_unblock_after_publish (cancel_if c2 (x2\<lparr>w_suspended := True\<rparr>)) in
                 if ok' then Some (True, None, (sem_set w x3 s)\<lparr>sem_waiters := q\<rparr>)
                 else Some (False, None,
                        (sem_set w (x3\<lparr>w_suspended := False\<rparr>) s)\<lparr>sem_waiters := wl_remove w q\<rparr>)))"

definition sem_await_suspend ::
    "bool \<Rightarrow> bool \<Rightarrow> coro_handle \<Rightarrow> addr \<Rightarrow> semaphore \<Rightarrow>
     (bool \<times> addr option \<times> semaphore) option" where
  "sem_await_suspend c1 c2 h w s =
     (if w_cancellable (sem_ws s w) then sem_await_suspend_cancellable c1 c2 h w s
      else sem_await_suspend_non_cancellable h w s)"

definition sem_await_resume :: "addr \<Rightarrow> semaphore \<Rightarrow> cancel_result \<times> semaphore" where
  "sem_await_resume w s =
     (let x = sem_ws s w in
      if \<not> w_cancellable x then (Completed, sem_set w (w_mark_resumed x) s)
      else if w_was_cancelled x then
        (Cancelled,
         if w_suspended x then
           (sem_set w (x\<lparr>w_suspended := False\<rparr>) s)\<lparr>sem_waiters := wl_remove w (sem_waiters s)\<rparr>
         else s)
      else (Completed, sem_set w (w_mark_resumed x) s))"

text \<open>The destructor of acquire\_waiter, with the waiter to schedule after it.\<close>

definition sem_waiter_dtor :: "addr \<Rightarrow> semaphore \<Rightarrow> (addr option \<times> semaphore) option" where
  "sem_waiter_dtor w s =
     (let x = sem_ws s w in
      if \<not> w_suspended x then Some (None, s)
      else if w \<in> set (sem_waiters s) then
        Some (None, (sem_set w (w_abandon x) s)\<lparr>sem_waiters := wl_remove w (sem_waiters s)\<rparr>)
      else if w_grant_pending x \<and> \<not> w_resumed x then
        sem_recover_cancelled_handoff_locked (sem_set w ((w_abandon x)\<lparr>w_grant_pending := False\<rparr>) s)
      else Some (None, sem_set w (w_abandon x) s))"

definition sem_request_cancel :: "addr \<Rightarrow> semaphore \<Rightarrow> semaphore" where
  "sem_request_cancel w s = sem_set w (w_request_cancel (sem_ws s w)) s"

definition sem_schedule :: "addr \<Rightarrow> semaphore \<Rightarrow> semaphore" where
  "sem_schedule w s = sem_set w (snd (w_schedule (sem_ws s w))) s"

definition semaphore_dtor_ok :: "semaphore \<Rightarrow> bool" where
  "semaphore_dtor_ok s \<longleftrightarrow> sem_waiters s = []"

section \<open>All interleavings\<close>

text \<open>
  The semaphore with its waiters' phases, the waiters whose scheduling step is
  outstanding, and two counters: permits issued (initial and released) and permits
  taken (by try\_acquire, or by an await\_resume that returned completed).
\<close>

record sem_sys =
  ss :: semaphore
  s_ph :: "addr \<Rightarrow> phase"
  s_ps :: "addr set"
  s_taken :: int
  s_issued :: int

datatype sem_label =
    SL_New addr bool
  | SL_Try
  | SL_Ready bool addr
  | SL_Suspend bool bool coro_handle addr
  | SL_Resume addr
  | SL_Destroy addr
  | SL_Cancel addr
  | SL_Release int
  | SL_Schedule addr

text \<open>
  What the language and the documented preconditions of the callers allow: the awaiter
  protocol, cancellation of cancellable waiters only, and the bound on released permits.
\<close>

fun sem_enabled :: "sem_sys \<Rightarrow> sem_label \<Rightarrow> bool" where
  "sem_enabled s (SL_New w c) \<longleftrightarrow> s_ph s w = Unborn"
| "sem_enabled s SL_Try \<longleftrightarrow> True"
| "sem_enabled s (SL_Ready c w) \<longleftrightarrow> s_ph s w = Constructed"
| "sem_enabled s (SL_Suspend c1 c2 h w) \<longleftrightarrow> s_ph s w = Not_Ready"
| "sem_enabled s (SL_Resume w) \<longleftrightarrow> can_resume (s_ph s) (sem_ws (ss s)) w"
| "sem_enabled s (SL_Destroy w) \<longleftrightarrow> can_destroy (s_ph s) w"
| "sem_enabled s (SL_Cancel w) \<longleftrightarrow> w_cancellable (sem_ws (ss s) w)"
| "sem_enabled s (SL_Release n) \<longleftrightarrow> n > 0 \<and> sem_count (ss s) + pending (sem_ws (ss s)) + n \<le> INT_MAX"
| "sem_enabled s (SL_Schedule w) \<longleftrightarrow> w \<in> s_ps s"

fun sem_exec :: "sem_sys \<Rightarrow> sem_label \<Rightarrow> sem_sys option" where
  "sem_exec s (SL_New w c) =
     Some (s\<lparr>ss := sem_new_waiter w c (ss s), s_ph := (s_ph s)(w := Constructed)\<rparr>)"
| "sem_exec s SL_Try =
     (let (ok, t) = try_acquire (ss s) in Some (s\<lparr>ss := t, s_taken := s_taken s + of_bool ok\<rparr>))"
| "sem_exec s (SL_Ready c w) =
     map_option (\<lambda>(ready, t). s\<lparr>ss := t, s_ph := (s_ph s)(w := if ready then Completing else Not_Ready)\<rparr>)
       (sem_await_ready c w (ss s))"
| "sem_exec s (SL_Suspend c1 c2 h w) =
     map_option (\<lambda>(susp, r, t). s\<lparr>ss := t, s_ph := (s_ph s)(w := if susp then Suspended else Completing),
                                 s_ps := s_ps s \<union> set_option r\<rparr>)
       (sem_await_suspend c1 c2 h w (ss s))"
| "sem_exec s (SL_Resume w) =
     (let (r, t) = sem_await_resume w (ss s) in
      Some (s\<lparr>ss := t, s_ph := (s_ph s)(w := Finished), s_taken := s_taken s + of_bool (r = Completed)\<rparr>))"
| "sem_exec s (SL_Destroy w) =
     map_option (\<lambda>(r, t). s\<lparr>ss := t, s_ph := (s_ph s)(w := Destroyed), s_ps := s_ps s \<union> set_option r\<rparr>)
       (sem_waiter_dtor w (ss s))"
| "sem_exec s (SL_Cancel w) = Some (s\<lparr>ss := sem_request_cancel w (ss s)\<rparr>)"
| "sem_exec s (SL_Release n) =
     map_option (\<lambda>(ws, t). s\<lparr>ss := t, s_ps := s_ps s \<union> set ws, s_issued := s_issued s + n\<rparr>)
       (sem_release n (ss s))"
| "sem_exec s (SL_Schedule w) = Some (s\<lparr>ss := sem_schedule w (ss s), s_ps := s_ps s - {w}\<rparr>)"

definition sem_step :: "sem_sys \<Rightarrow> sem_label \<Rightarrow> sem_sys \<Rightarrow> bool" where
  "sem_step = exec_step sem_enabled sem_exec"

definition sem_init :: "sem_sys \<Rightarrow> bool" where
  "sem_init s \<longleftrightarrow> (\<exists>n. n \<le> INT_MAX \<and> Some (ss s) = semaphore_ctor n \<and> s_issued s = n) \<and>
     s_ph s = (\<lambda>_. Unborn) \<and> s_ps s = {} \<and> s_taken s = 0"

section \<open>Invariant\<close>

text \<open>
  The state part: the count is not negative, a positive count means that nobody
  waits, and the documented bound holds. \<open>sem_bal\<close> is the number of permits
  the state accounts for.
\<close>

definition sem_ok :: "semaphore \<Rightarrow> (addr \<Rightarrow> phase) \<Rightarrow> addr set \<Rightarrow> bool" where
  "sem_ok s ph ps \<longleftrightarrow> wait_inv (sem_waiters s) (sem_ws s) ph ps \<and> 0 \<le> sem_count s \<and>
     (sem_count s > 0 \<longrightarrow> sem_waiters s = []) \<and> sem_count s + pending (sem_ws s) \<le> INT_MAX"

definition sem_bal :: "semaphore \<Rightarrow> (addr \<Rightarrow> phase) \<Rightarrow> int" where
  "sem_bal s ph = sem_count s + pending (sem_ws s) + inflight ph (sem_ws s)"

definition sem_inv :: "sem_sys \<Rightarrow> bool" where
  "sem_inv s \<longleftrightarrow> sem_ok (ss s) (s_ph s) (s_ps s) \<and>
     sem_bal (ss s) (s_ph s) + s_taken s = s_issued s"

text \<open>
  One waiter of the semaphore changes and the count moves by \<open>d\<close>.
\<close>

lemma sem_upd:
  assumes ok: "sem_ok s ph ps" and q: "distinct q'"
    and same: "\<And>v. v \<noteq> w \<Longrightarrow> (v \<in> set q' \<longleftrightarrow> v \<in> set (sem_waiters s)) \<and> (v \<in> ps' \<longleftrightarrow> v \<in> ps)"
    and w: "waiter_ok (w \<in> set q') (w \<in> ps') p x"
    and c: "0 \<le> c" "c > 0 \<longrightarrow> q' = []"
      "c + of_bool (w_grant_pending x) \<le> sem_count s + of_bool (w_grant_pending (sem_ws s w))"
  shows "sem_ok \<lparr>sem_count = c, sem_waiters = q', sem_ws = (sem_ws s)(w := x)\<rparr> (ph(w := p)) ps'"
    and "sem_bal \<lparr>sem_count = c, sem_waiters = q', sem_ws = (sem_ws s)(w := x)\<rparr> (ph(w := p)) =
      sem_bal s ph + c - sem_count s + of_bool (w_grant_pending x)
        - of_bool (w_grant_pending (sem_ws s w))
        + of_bool (holds_inline p x) - of_bool (inline_done ph (sem_ws s) w)"
proof -
  have inv: "wait_inv (sem_waiters s) (sem_ws s) ph ps" using ok by (simp add: sem_ok_def)
  note upd = wait_inv_upd [OF inv q same w]
  show "sem_ok \<lparr>sem_count = c, sem_waiters = q', sem_ws = (sem_ws s)(w := x)\<rparr> (ph(w := p)) ps'"
    using upd(1) ok c by (simp add: sem_ok_def upd(2))
  show "sem_bal \<lparr>sem_count = c, sem_waiters = q', sem_ws = (sem_ws s)(w := x)\<rparr> (ph(w := p)) =
      sem_bal s ph + c - sem_count s + of_bool (w_grant_pending x)
        - of_bool (w_grant_pending (sem_ws s w))
        + of_bool (holds_inline p x) - of_bool (inline_done ph (sem_ws s) w)"
    by (simp add: sem_bal_def upd(2,3))
qed

text \<open>Claiming a waiter turns a permit in hand into a pending grant.\<close>

lemma sem_claim_ok:
  assumes "sem_ok s ph ps" and "sem_count s + pending (sem_ws s) < INT_MAX"
  shows "case sem_claim_waiter_locked s of (r, s') \<Rightarrow>
    sem_count s' = sem_count s \<and>
    (case r of
       None \<Rightarrow> sem_ok s' ph ps \<and> sem_waiters s' = [] \<and> sem_bal s' ph = sem_bal s ph \<and>
               pending (sem_ws s') = pending (sem_ws s)
     | Some w \<Rightarrow> sem_ok s' ph (insert w ps) \<and> sem_bal s' ph = sem_bal s ph + 1 \<and>
               pending (sem_ws s') = pending (sem_ws s) + 1)"
  using assms claim_waiter_locked_inv [of "sem_waiters s" "sem_ws s" ph ps]
  by (auto simp: sem_ok_def sem_claim_waiter_locked_def sem_bal_def split: prod.splits option.splits)

lemma sem_recover_ok:
  assumes "sem_ok s ph ps" and "sem_count s + pending (sem_ws s) < INT_MAX"
  shows "\<exists>r s'. sem_recover_cancelled_handoff_locked s = Some (r, s') \<and>
    sem_ok s' ph (ps \<union> set_option r) \<and> sem_bal s' ph = sem_bal s ph + 1"
proof (cases "sem_claim_waiter_locked s")
  case (Pair r s')
  note claim = sem_claim_ok [OF assms, unfolded Pair prod.case]
  show ?thesis
  proof (cases r)
    case None
    from claim have "sem_count s' = sem_count s" by simp
    then have "sem_count s' < INT_MAX"
      using pending_nonneg(1) [of "sem_ws s"] assms(2) by linarith
    with None claim assms(2) show ?thesis
      by (auto simp: sem_recover_cancelled_handoff_locked_def Pair sem_ok_def sem_bal_def)
  next
    case (Some w)
    with claim show ?thesis
      by (simp add: sem_recover_cancelled_handoff_locked_def Pair)
  qed
qed

lemma sem_release_loop_ok:
  assumes "sem_ok s ph ps" and "sem_count s + pending (sem_ws s) + int n \<le> INT_MAX"
  shows "case sem_release_loop n s of (ws, remaining, s') \<Rightarrow>
    sem_ok s' ph (ps \<union> set ws) \<and> sem_bal s' ph = sem_bal s ph + int (length ws) \<and>
    length ws + remaining = n \<and> (remaining > 0 \<longrightarrow> sem_waiters s' = []) \<and>
    sem_count s' + pending (sem_ws s') = sem_count s + pending (sem_ws s) + int (length ws)"
  using assms
proof (induction n arbitrary: s ps)
  case 0
  then show ?case by simp
next
  case (Suc n)
  obtain r s1 where c: "sem_claim_waiter_locked s = (r, s1)" by fastforce
  have claim: "case (r, s1) of (r, s') \<Rightarrow>
    sem_count s' = sem_count s \<and>
    (case r of
       None \<Rightarrow> sem_ok s' ph ps \<and> sem_waiters s' = [] \<and> sem_bal s' ph = sem_bal s ph \<and>
               pending (sem_ws s') = pending (sem_ws s)
     | Some w \<Rightarrow> sem_ok s' ph (insert w ps) \<and> sem_bal s' ph = sem_bal s ph + 1 \<and>
               pending (sem_ws s') = pending (sem_ws s) + 1)"
    using sem_claim_ok [OF Suc.prems(1)] Suc.prems(2) unfolding c by simp
  show ?case
  proof (cases r)
    case None
    with claim show ?thesis by (simp add: c)
  next
    case (Some w)
    with claim Suc.prems have "case sem_release_loop n s1 of (ws, remaining, s') \<Rightarrow>
      sem_ok s' ph (insert w ps \<union> set ws) \<and> sem_bal s' ph = sem_bal s1 ph + int (length ws) \<and>
      length ws + remaining = n \<and> (remaining > 0 \<longrightarrow> sem_waiters s' = []) \<and>
      sem_count s' + pending (sem_ws s') = sem_count s1 + pending (sem_ws s1) + int (length ws)"
      by (intro Suc.IH) simp_all
    with Some claim show ?thesis by (auto simp: c split: prod.splits)
  qed
qed

lemma sem_release_ok:
  assumes ok: "sem_ok s ph ps" and n: "n > 0" "sem_count s + pending (sem_ws s) + n \<le> INT_MAX"
  shows "\<exists>ws s'. sem_release n s = Some (ws, s') \<and> sem_ok s' ph (ps \<union> set ws) \<and>
    sem_bal s' ph = sem_bal s ph + n"
proof -
  obtain ws remaining s1 where l: "sem_release_loop (nat n) s = (ws, remaining, s1)"
    by (metis prod_cases3)
  have loop: "sem_ok s1 ph (ps \<union> set ws) \<and> sem_bal s1 ph = sem_bal s ph + int (length ws) \<and>
    length ws + remaining = nat n \<and> (remaining > 0 \<longrightarrow> sem_waiters s1 = []) \<and>
    sem_count s1 + pending (sem_ws s1) = sem_count s + pending (sem_ws s) + int (length ws)"
    using sem_release_loop_ok [OF ok, of "nat n"] n by (simp add: l)
  then have "int (length ws) + int remaining = n" using n by linarith
  moreover have "sem_count s1 \<le> INT_MAX - int remaining"
    using loop n pending_nonneg(1) [of "sem_ws s1"] calculation by linarith
  ultimately show ?thesis
    using loop n by (auto simp: sem_release_def l sem_ok_def sem_bal_def)
qed

text \<open>The same update as a record equation, for the operations that follow.\<close>

lemma sem_set_make:
  "sem_set w x s =
     \<lparr>sem_count = sem_count s, sem_waiters = sem_waiters s, sem_ws = (sem_ws s)(w := x)\<rparr>"
  by (simp add: sem_set_def)

lemma sem_same:
  "s = \<lparr>sem_count = sem_count s, sem_waiters = sem_waiters s, sem_ws = (sem_ws s)(w := sem_ws s w)\<rparr>"
  by simp

lemma sem_upd_bal:
  assumes ok: "sem_ok s ph ps" and t: "t = \<lparr>sem_count = c, sem_waiters = q', sem_ws = (sem_ws s)(w := x)\<rparr>"
    and q: "distinct q'"
    and same: "\<And>v. v \<noteq> w \<Longrightarrow> (v \<in> set q' \<longleftrightarrow> v \<in> set (sem_waiters s)) \<and> (v \<in> ps' \<longleftrightarrow> v \<in> ps)"
    and w: "waiter_ok (w \<in> set q') (w \<in> ps') p x"
    and c: "0 \<le> c" "c > 0 \<longrightarrow> q' = []"
      "c + of_bool (w_grant_pending x) \<le> sem_count s + of_bool (w_grant_pending (sem_ws s w))"
    and b: "b = sem_bal s ph + c - sem_count s + of_bool (w_grant_pending x)
        - of_bool (w_grant_pending (sem_ws s w))
        + of_bool (holds_inline p x) - of_bool (inline_done ph (sem_ws s) w)"
  shows "sem_ok t (ph(w := p)) ps' \<and> sem_bal t (ph(w := p)) = b"
  using sem_upd [OF ok q same w c] by (simp add: t b)

lemma sem_ok_at: "sem_ok s ph ps \<Longrightarrow> waiter_ok (w \<in> set (sem_waiters s)) (w \<in> ps) (ph w) (sem_ws s w)"
  by (simp add: sem_ok_def wait_inv_at)

lemma sem_ok_queue:
  "sem_ok s ph ps \<Longrightarrow> distinct (sem_waiters s) \<and> 0 \<le> sem_count s \<and>
     (sem_count s > 0 \<longrightarrow> sem_waiters s = [])"
  by (simp add: sem_ok_def wait_inv_def)

section \<open>Every operation keeps the invariant\<close>

lemma sem_await_ready_ok:
  assumes ok: "sem_ok s ph ps" and p: "ph w = Constructed"
  shows "\<exists>ready t. sem_await_ready c w s = Some (ready, t) \<and>
    sem_ok t (ph(w := if ready then Completing else Not_Ready)) ps \<and>
    sem_bal t (ph(w := if ready then Completing else Not_Ready)) = sem_bal s ph"
proof -
  let ?x = "sem_ws s w"
  have x: "w \<notin> set (sem_waiters s)" "w \<notin> ps" "fresh_ok ?x" "\<not> inline_done ph (sem_ws s) w"
    using sem_ok_at [OF ok, of w] p by (simp_all add: inline_done_def)
  note q = sem_ok_queue [OF ok]
  have keep: "sem_ok t (ph(w := r)) ps \<and> sem_bal t (ph(w := r)) = sem_bal s ph"
    if "t = \<lparr>sem_count = sem_count s - d, sem_waiters = sem_waiters s, sem_ws = (sem_ws s)(w := y)\<rparr>"
      "waiter_ok False False r y" "\<not> w_grant_pending y" "0 \<le> d" "d \<le> sem_count s"
      "d = of_bool (holds_inline r y)" for t r y d
    by (rule sem_upd_bal [OF ok that(1)]) (use that x q in \<open>auto simp: fresh_ok_def\<close>)
  show ?thesis
  proof (cases "w_cancellable ?x")
    case False
    with x have y: "waiter_ok False False Completing ?x" "waiter_ok False False Not_Ready ?x"
        "\<not> w_grant_pending ?x" "\<not> w_was_cancelled ?x"
      by (auto simp: waiter_defs)
    show ?thesis
      using keep [of "s\<lparr>sem_count := sem_count s - 1\<rparr>" 1 ?x Completing] keep [of s 0 ?x Not_Ready] y q False
      by (auto simp: sem_await_ready_def try_acquire_def)
  next
    case True
    with x obtain k where k: "w_wake ?x = Some k" "ws_state k = Idle \<or> ws_state k = Cancelled_Inline"
      by (auto simp: fresh_ok_def)
    show ?thesis
    proof (cases "w_was_cancelled ?x")
      case wc: True
      with True k x have "waiter_ok False False Completing ?x" by (auto simp: waiter_defs wake_op_defs)
      with keep [of s 0 ?x Completing] wc True x q show ?thesis
        by (auto simp: sem_await_ready_def fresh_ok_def)
    next
      case wc: False
      let ?x1 = "cancel_if c ?x"
      have c0: "sem_count s = 0 \<or> 1 \<le> sem_count s" using q by linarith
      have x1: "waiter_ok False False Not_Ready ?x1" "\<not> w_grant_pending ?x1"
        using True k x by (auto simp: waiter_defs wake_op_defs)
      have x2: "waiter_ok False False Completing (snd (w_claim ?x1))" "\<not> w_grant_pending (snd (w_claim ?x1))"
          "fst (w_claim ?x1) = (if c then Rejected else Completed_Inline)"
          "w_was_cancelled (snd (w_claim ?x1)) = c"
        using True k x wc by (auto simp: waiter_defs wake_op_defs)
      show ?thesis
        using keep [of _ 0 ?x1 Not_Ready] keep [of _ 1 "snd (w_claim ?x1)" Completing]
          keep [of _ 0 "snd (w_claim ?x1)" Completing] x1 x2 True wc c0
        by (cases "sem_count s = 0"; cases c)
           (auto simp: sem_await_ready_def Let_def case_prod_beta sem_set_make)
    qed
  qed
qed

lemma sem_suspend_nc_ok:
  assumes ok: "sem_ok s ph ps" and p: "ph w = Not_Ready" and nc: "\<not> w_cancellable (sem_ws s w)"
  shows "\<exists>susp r t. sem_await_suspend_non_cancellable h w s = Some (susp, r, t) \<and>
    sem_ok t (ph(w := if susp then Suspended else Completing)) (ps \<union> set_option r) \<and>
    sem_bal t (ph(w := if susp then Suspended else Completing)) = sem_bal s ph"
proof -
  let ?x = "sem_ws s w"
  have x: "w \<notin> set (sem_waiters s)" "w \<notin> ps" "fresh_ok ?x" "\<not> inline_done ph (sem_ws s) w"
    using sem_ok_at [OF ok, of w] p by (simp_all add: inline_done_def)
  note q = sem_ok_queue [OF ok]
  have wk: "w_wake ?x = None" using x nc by (simp add: fresh_ok_def)
  let ?y = "?x\<lparr>w_wake := Some make_wake_state\<rparr>"
  let ?z = "?x\<lparr>w_wake := Some (set_handle h make_wake_state), w_suspended := True\<rparr>"
  show ?thesis
  proof (cases "sem_count s > 0")
    case True
    have "sem_ok t (ph(w := Completing)) ps \<and> sem_bal t (ph(w := Completing)) = sem_bal s ph"
      if "t = \<lparr>sem_count = sem_count s - 1, sem_waiters = sem_waiters s, sem_ws = (sem_ws s)(w := ?y)\<rparr>" for t
      by (rule sem_upd_bal [OF ok that]) (use True x q nc in \<open>auto simp: waiter_defs wake_op_defs\<close>)
    with True wk show ?thesis
      by (auto simp: sem_await_suspend_non_cancellable_def w_emplace_def sem_set_make)
  next
    case False
    have "sem_ok t (ph(w := Suspended)) ps \<and> sem_bal t (ph(w := Suspended)) = sem_bal s ph"
      if "t = \<lparr>sem_count = sem_count s, sem_waiters = sem_waiters s @ [w], sem_ws = (sem_ws s)(w := ?z)\<rparr>" for t
      by (rule sem_upd_bal [OF ok that]) (use False x q nc in \<open>auto simp: waiter_defs wake_op_defs\<close>)
    with False wk x show ?thesis
      by (auto simp: sem_await_suspend_non_cancellable_def w_emplace_def sem_set_make wl_push_back_def)
  qed
qed

lemma sem_suspend_c_ok:
  assumes ok: "sem_ok s ph ps" and p: "ph w = Not_Ready" and ca: "w_cancellable (sem_ws s w)"
  shows "\<exists>susp r t. sem_await_suspend_cancellable c1 c2 h w s = Some (susp, r, t) \<and>
    sem_ok t (ph(w := if susp then Suspended else Completing)) (ps \<union> set_option r) \<and>
    sem_bal t (ph(w := if susp then Suspended else Completing)) = sem_bal s ph"
proof -
  let ?x = "sem_ws s w"
  have x: "w \<notin> set (sem_waiters s)" "w \<notin> ps" "fresh_ok ?x" "\<not> inline_done ph (sem_ws s) w" "\<not> w_grant_pending ?x"
    using sem_ok_at [OF ok, of w] p by (auto simp: inline_done_def fresh_ok_def)
  note q = sem_ok_queue [OF ok]
  show ?thesis
  proof (cases "w_was_cancelled ?x")
    case True
    have "completing_ok ?x" using True ca x by (auto simp: waiter_defs wake_op_defs)
    then have "sem_ok s (ph(w := Completing)) ps \<and> sem_bal s (ph(w := Completing)) = sem_bal s ph"
      by (intro sem_upd_bal [OF ok sem_same [of s w]]) (use True x q in auto)
    with True show ?thesis by (auto simp: sem_await_suspend_cancellable_def)
  next
    case nwc: False
    note race = fresh_cancellable_race [OF x(3) ca nwc]
    show ?thesis
    proof (cases "sem_count s > 0")
      case True
      let ?y = "snd (w_claim (cancel_if c1 ?x))"
      define t where "t = \<lparr>sem_count = sem_count s - 1, sem_waiters = sem_waiters s, sem_ws = (sem_ws s)(w := ?y)\<rparr>"
      have t: "sem_ok t (ph(w := Completing)) ps \<and>
          sem_bal t (ph(w := Completing)) = sem_bal s ph - of_bool c1"
        by (rule sem_upd_bal [OF ok t_def])
           (use True x q race(2,3) [of c1] completing_not_pending in auto)
      have pnd: "sem_count t + pending (sem_ws t) < INT_MAX" if c1
      proof -
        have "pending (sem_ws t) = pending (sem_ws s)"
          using x race(2) [of c1] completing_not_pending
          by (simp add: t_def wait_inv_upd(2) [where ph = ph and ps = ps and q = "sem_waiters s" and q' = "sem_waiters s"
                and ps' = ps and p = Completing] ok [unfolded sem_ok_def] q)
        with ok show ?thesis by (simp add: t_def sem_ok_def)
      qed
      show ?thesis
      proof (cases c1)
        case False
        with True nwc race(1) [of c1] t show ?thesis
          by (auto simp: sem_await_suspend_cancellable_def Let_def case_prod_beta sem_set_make t_def)
      next
        case c1: True
        obtain r s' where "sem_recover_cancelled_handoff_locked t = Some (r, s')"
            "sem_ok s' (ph(w := Completing)) (ps \<union> set_option r)"
            "sem_bal s' (ph(w := Completing)) = sem_bal t (ph(w := Completing)) + 1"
          using sem_recover_ok [OF conjunct1 [OF t] pnd [OF c1]] by blast
        with True nwc c1 race(1) [of c1] t show ?thesis
          by (auto simp: sem_await_suspend_cancellable_def Let_def case_prod_beta sem_set_make t_def)
      qed
    next
      case False
      let ?y = "snd (w_set_handle_blocked h (cancel_if c1 ?x))"
      let ?z = "w_unblock_after_publish (cancel_if c2 (?y\<lparr>w_suspended := True\<rparr>))"
      have a: "sem_ok t (ph(w := Completing)) ps \<and> sem_bal t (ph(w := Completing)) = sem_bal s ph"
        if "t = \<lparr>sem_count = sem_count s, sem_waiters = sem_waiters s, sem_ws = (sem_ws s)(w := y)\<rparr>"
          "completing_ok y" "w_was_cancelled y" for t y
        by (rule sem_upd_bal [OF ok that(1)]) (use that False x q completing_not_pending in auto)
      have b: "sem_ok t (ph(w := Suspended)) ps \<and> sem_bal t (ph(w := Suspended)) = sem_bal s ph"
        if "t = \<lparr>sem_count = sem_count s, sem_waiters = sem_waiters s @ [w], sem_ws = (sem_ws s)(w := y)\<rparr>"
          "queued_ok y" for t y
        by (rule sem_upd_bal [OF ok that(1)]) (use that False x q in \<open>auto simp: queued_ok_def\<close>)
      have rm: "wl_remove w (sem_waiters s @ [w]) = sem_waiters s"
        using x(1) by (auto simp: wl_remove_def filter_id_conv)
      show ?thesis
        using a [of _ ?y] a [of _ "(snd ?z)\<lparr>w_suspended := False\<rparr>"] b [of _ "snd ?z"]
          race(4) [where c = c1 and h = h] race(5) [where c = c1 and h = h] race(6) [where c = c1 and h = h and d = c2 and z = ?z] False nwc x(1)
        by (cases c1; cases c2)
           (auto simp: sem_await_suspend_cancellable_def Let_def case_prod_beta sem_set_make
             wl_push_back_def rm)
    qed
  qed
qed

lemma sem_await_suspend_ok:
  assumes "sem_ok s ph ps" and "ph w = Not_Ready"
  shows "\<exists>susp r t. sem_await_suspend c1 c2 h w s = Some (susp, r, t) \<and>
    sem_ok t (ph(w := if susp then Suspended else Completing)) (ps \<union> set_option r) \<and>
    sem_bal t (ph(w := if susp then Suspended else Completing)) = sem_bal s ph"
  using sem_suspend_c_ok [OF assms] sem_suspend_nc_ok [OF assms]
  by (cases "w_cancellable (sem_ws s w)") (simp_all add: sem_await_suspend_def)

text \<open>
  await\_resume: a waiter that may be resumed and whose result is completed gives up
  the permit that was reserved for it; a cancelled one had none.
\<close>

lemma sem_await_resume_ok:
  assumes ok: "sem_ok s ph ps" and p: "can_resume ph (sem_ws s) w"
    and r: "sem_await_resume w s = (r, t)"
  shows "sem_ok t (ph(w := Finished)) ps \<and>
    sem_bal t (ph(w := Finished)) = sem_bal s ph - of_bool (r = Completed)"
proof -
  let ?x = "sem_ws s w"
  note at = sem_ok_at [OF ok, of w]
  note q = sem_ok_queue [OF ok]
  show ?thesis
  proof (cases "w_cancellable ?x \<and> w_was_cancelled ?x")
    case True
    have a: "w \<notin> ps" "\<not> w_grant_pending ?x" "\<not> inline_done ph (sem_ws s) w"
      using p at True
      by (auto simp: can_resume_def waiter_defs wake_op_defs inline_done_def split: if_splits)
    have x: "\<not> w_suspended ?x \<Longrightarrow> w \<notin> set (sem_waiters s)"
      using waiter_ok_queued at by (auto simp: queued_ok_def)
    have "t = \<lparr>sem_count = sem_count s, sem_waiters = wl_remove w (sem_waiters s),
               sem_ws = (sem_ws s)(w := ?x\<lparr>w_suspended := False\<rparr>)\<rparr>"
      using r True x
      by (cases "w_suspended ?x")
         (auto simp: sem_await_resume_def sem_set_make wl_remove_absent unsuspended_same Let_def)
    then have "sem_ok t (ph(w := Finished)) ps \<and> sem_bal t (ph(w := Finished)) = sem_bal s ph"
      by (rule sem_upd_bal [OF ok])
         (use a q in \<open>auto simp: set_wl_remove distinct_wl_remove wl_remove_def\<close>)
    moreover have "r = Cancelled" using r True by (simp add: sem_await_resume_def Let_def)
    ultimately show ?thesis by simp
  next
    case False
    have a: "w \<notin> set (sem_waiters s) \<and> w \<notin> ps \<and> (w_grant_pending ?x \<noteq> inline_done ph (sem_ws s) w)"
      using p at False
      by (auto simp: can_resume_def waiter_defs wake_op_defs inline_done_def split: if_splits)
    have "t = \<lparr>sem_count = sem_count s, sem_waiters = sem_waiters s,
               sem_ws = (sem_ws s)(w := w_mark_resumed ?x)\<rparr>"
      using r False by (auto simp: sem_await_resume_def sem_set_make Let_def split: if_splits)
    then have "sem_ok t (ph(w := Finished)) ps \<and> sem_bal t (ph(w := Finished)) = sem_bal s ph - 1"
      by (rule sem_upd_bal [OF ok]) (use a q in \<open>auto simp: w_mark_resumed_def\<close>)
    moreover have "r = Completed" using r False by (auto simp: sem_await_resume_def Let_def split: if_splits)
    ultimately show ?thesis by simp
  qed
qed

lemma sem_waiter_dtor_ok:
  assumes ok: "sem_ok s ph ps" and p: "can_destroy ph w"
  shows "\<exists>r t. sem_waiter_dtor w s = Some (r, t) \<and>
    sem_ok t (ph(w := Destroyed)) (ps \<union> set_option r) \<and>
    sem_bal t (ph(w := Destroyed)) = sem_bal s ph"
proof -
  let ?x = "sem_ws s w"
  note at = sem_ok_at [OF ok, of w]
  note q = sem_ok_queue [OF ok]
  have i: "\<not> inline_done ph (sem_ws s) w" using p by (auto simp: can_destroy_def inline_done_def)
  show ?thesis
  proof (cases "w_grant_pending ?x")
    case False
    define y where "y = (if w_suspended ?x then w_abandon ?x else ?x)"
    have y: "\<not> w_grant_pending y" using False by (simp add: y_def w_abandon_def)
    have s: "w \<in> set (sem_waiters s) \<Longrightarrow> w_suspended ?x"
      using waiter_ok_queued at by (auto simp: queued_ok_def)
    define t where "t = \<lparr>sem_count = sem_count s, sem_waiters = wl_remove w (sem_waiters s),
               sem_ws = (sem_ws s)(w := y)\<rparr>"
    have "sem_waiter_dtor w s = Some (None, t)"
      using False s
      by (auto simp: sem_waiter_dtor_def sem_set_make t_def y_def wl_remove_absent Let_def)
    moreover have "sem_ok t (ph(w := Destroyed)) ps \<and> sem_bal t (ph(w := Destroyed)) = sem_bal s ph"
      by (rule sem_upd_bal [OF ok t_def])
         (use False y q i in \<open>auto simp: set_wl_remove distinct_wl_remove wl_remove_def\<close>)
    ultimately show ?thesis by simp
  next
    case True
    have x: "w \<notin> set (sem_waiters s)" "w_suspended ?x" "\<not> w_resumed ?x"
      using waiter_ok_pending [OF at True] by (auto simp: granted_ok_def)
    define y where "y = (w_abandon ?x)\<lparr>w_grant_pending := False\<rparr>"
    define t where "t = \<lparr>sem_count = sem_count s, sem_waiters = sem_waiters s, sem_ws = (sem_ws s)(w := y)\<rparr>"
    have d: "sem_waiter_dtor w s = sem_recover_cancelled_handoff_locked t"
      using x True by (simp add: sem_waiter_dtor_def sem_set_make t_def y_def)
    have t: "sem_ok t (ph(w := Destroyed)) ps \<and> sem_bal t (ph(w := Destroyed)) = sem_bal s ph - 1"
      by (rule sem_upd_bal [OF ok t_def]) (use True x q i in \<open>auto simp: y_def\<close>)
    have "sem_count t + pending (sem_ws t) + inflight (ph(w := Destroyed)) (sem_ws t) =
        sem_count s + pending (sem_ws s) + inflight ph (sem_ws s) - 1"
      using t by (simp add: sem_bal_def)
    moreover have "inflight (ph(w := Destroyed)) (sem_ws t) = inflight ph (sem_ws s)"
      using wait_inv_upd(3) [where ph = ph and ps = ps and q = "sem_waiters s" and q' = "sem_waiters s"
          and ps' = ps and p = Destroyed and w = w and m = "sem_ws s" and x = y] x q i ok
      by (simp add: t_def sem_ok_def y_def)
    ultimately have "sem_count t + pending (sem_ws t) < INT_MAX"
      using ok by (simp add: sem_ok_def)
    from sem_recover_ok [OF conjunct1 [OF t] this] t show ?thesis by (auto simp: d)
  qed
qed

lemma sem_request_cancel_ok:
  assumes ok: "sem_ok s ph ps" and c: "w_cancellable (sem_ws s w)"
  shows "sem_ok (sem_request_cancel w s) ph ps \<and> sem_bal (sem_request_cancel w s) ph = sem_bal s ph"
proof -
  let ?x = "sem_ws s w"
  note at = sem_ok_at [OF ok, of w]
  note q = sem_ok_queue [OF ok]
  have at': "waiter_ok (w \<in> set (sem_waiters s)) (w \<in> ps) (ph w) (w_request_cancel ?x)"
    by (rule waiter_ok_request_cancel [OF at c])
  have i: "inline_done ph (sem_ws s) w = holds_inline (ph w) (w_request_cancel ?x)"
    using at c completing_request_cancel [of ?x] by (cases "ph w") (auto simp: inline_done_def)
  have "sem_ok (sem_request_cancel w s) (ph(w := ph w)) ps \<and>
        sem_bal (sem_request_cancel w s) (ph(w := ph w)) = sem_bal s ph"
    by (rule sem_upd_bal [OF ok sem_request_cancel_def [unfolded sem_set_make]])
       (use at' q i in \<open>auto simp: w_request_cancel_def\<close>)
  then show ?thesis by simp
qed

lemma sem_schedule_ok:
  assumes ok: "sem_ok s ph ps" and w: "w \<in> ps"
  shows "sem_ok (sem_schedule w s) ph (ps - {w}) \<and> sem_bal (sem_schedule w s) ph = sem_bal s ph"
proof -
  let ?x = "sem_ws s w"
  note at = sem_ok_at [OF ok, of w]
  note q = sem_ok_queue [OF ok]
  have at': "waiter_ok (w \<in> set (sem_waiters s)) False (ph w) (snd (w_schedule ?x))"
    using waiter_ok_schedule at w by simp
  have i: "\<not> inline_done ph (sem_ws s) w" "\<not> holds_inline (ph w) (snd (w_schedule ?x))"
    using at w by (cases "ph w"; simp add: inline_done_def)+
  have g: "w_grant_pending (snd (w_schedule ?x)) = w_grant_pending ?x"
    by (simp add: w_schedule_def case_prod_beta Let_def)
  have "sem_ok (sem_schedule w s) (ph(w := ph w)) (ps - {w}) \<and>
        sem_bal (sem_schedule w s) (ph(w := ph w)) = sem_bal s ph"
    by (rule sem_upd_bal [OF ok sem_schedule_def [unfolded sem_set_make]]) (use at' q i g in auto)
  then show ?thesis by simp
qed

lemma sem_new_waiter_ok:
  assumes ok: "sem_ok s ph ps" and p: "ph w = Unborn"
  shows "sem_ok (sem_new_waiter w c s) (ph(w := Constructed)) ps \<and>
    sem_bal (sem_new_waiter w c s) (ph(w := Constructed)) = sem_bal s ph"
  by (rule sem_upd_bal [OF ok sem_new_waiter_def [unfolded sem_set_make]])
     (use sem_ok_at [OF ok, of w] sem_ok_queue [OF ok] p in
       \<open>auto simp: inline_done_def fresh_ok_def new_waiter_def make_wake_state_def\<close>)

lemma sem_try_acquire_ok:
  assumes "sem_ok s ph ps" and "try_acquire s = (r, t)"
  shows "sem_ok t ph ps \<and> sem_bal t ph = sem_bal s ph - of_bool r"
  using assms by (auto simp: try_acquire_def sem_ok_def sem_bal_def split: if_splits)

text \<open>No enabled step fails an assertion, and every one keeps the invariant.\<close>

lemma sem_exec_inv:
  assumes inv: "sem_inv s" and en: "sem_enabled s l"
  shows "\<exists>t. sem_exec s l = Some t \<and> sem_inv t"
proof -
  from inv have ok: "sem_ok (ss s) (s_ph s) (s_ps s)"
    and b: "sem_bal (ss s) (s_ph s) + s_taken s = s_issued s" by (simp_all add: sem_inv_def)
  show ?thesis
  proof (cases l)
    case (SL_New w c)
    with en b sem_new_waiter_ok [OF ok, of w c] show ?thesis by (simp add: sem_inv_def)
  next
    case SL_Try
    with b sem_try_acquire_ok [OF ok] show ?thesis by (auto simp: sem_inv_def split: prod.splits)
  next
    case (SL_Ready c w)
    then obtain ready t where "sem_await_ready c w (ss s) = Some (ready, t)"
        "sem_ok t ((s_ph s)(w := if ready then Completing else Not_Ready)) (s_ps s)"
        "sem_bal t ((s_ph s)(w := if ready then Completing else Not_Ready)) = sem_bal (ss s) (s_ph s)"
      using en sem_await_ready_ok [OF ok, of w c] by auto
    with SL_Ready b show ?thesis by (simp add: sem_inv_def)
  next
    case (SL_Suspend c1 c2 h w)
    then obtain susp r t where "sem_await_suspend c1 c2 h w (ss s) = Some (susp, r, t)"
        "sem_ok t ((s_ph s)(w := if susp then Suspended else Completing)) (s_ps s \<union> set_option r)"
        "sem_bal t ((s_ph s)(w := if susp then Suspended else Completing)) = sem_bal (ss s) (s_ph s)"
      using en sem_await_suspend_ok [OF ok, of w c1 c2 h] by auto
    with SL_Suspend b show ?thesis by (simp add: sem_inv_def)
  next
    case (SL_Resume w)
    with en b sem_await_resume_ok [OF ok, of w] show ?thesis
      by (auto simp: sem_inv_def split: prod.splits)
  next
    case (SL_Destroy w)
    with en b sem_waiter_dtor_ok [OF ok, of w] show ?thesis by (auto simp: sem_inv_def)
  next
    case (SL_Cancel w)
    with en b sem_request_cancel_ok [OF ok, of w] show ?thesis by (simp add: sem_inv_def)
  next
    case (SL_Release n)
    with en b sem_release_ok [OF ok, of n] show ?thesis by (auto simp: sem_inv_def)
  next
    case (SL_Schedule w)
    with en b sem_schedule_ok [OF ok, of w] show ?thesis by (simp add: sem_inv_def)
  qed
qed

lemma sem_init_inv: "sem_init s \<Longrightarrow> sem_inv s"
  by (auto simp: sem_init_def sem_inv_def sem_ok_def sem_bal_def semaphore_ctor_def wait_inv_def
      pending_def inflight_def cnt_def inline_done_def new_waiter_def split: if_splits)

interpretation sem: invariant_system sem_init sem_step sem_inv
proof unfold_locales
  fix s show "sem_init s \<Longrightarrow> sem_inv s" by (rule sem_init_inv)
next
  fix s l t assume "sem_inv s" "sem_step s l t"
  then show "sem_inv t" using sem_exec_inv [of s l] by (auto simp: sem_step_def exec_step_def)
qed

section \<open>Order of grants\<close>

text \<open>
  release serves the waiters that cancellation has not taken, in arrival order.
\<close>

lemma filter_after_claim:
  assumes "distinct q" "filter (\<lambda>w. \<not> rejects (m w)) q = w # ws"
  shows "filter (\<lambda>v. \<not> rejects ((m(w := x)) v)) (tl (dropWhile (\<lambda>w. rejects (m w)) q)) = ws"
    and "distinct (tl (dropWhile (\<lambda>w. rejects (m w)) q))"
  using assms
proof (induction q)
  case (Cons v q)
  {
    case 1
    then show ?case using Cons.IH(1)
      by (cases "rejects (m v)") (auto cong: filter_cong intro!: filter_cong)
  next
    case 2
    then show ?case using Cons.IH(2) by (cases "rejects (m v)") auto
  }
qed simp_all

lemma sem_release_loop_order:
  assumes "distinct (sem_waiters s)"
  shows "fst (sem_release_loop n s) = take n (filter (\<lambda>w. \<not> rejects (sem_ws s w)) (sem_waiters s))"
  using assms
proof (induction n arbitrary: s)
  case 0
  then show ?case by simp
next
  case (Suc n)
  show ?case
  proof (cases "filter (\<lambda>w. \<not> rejects (sem_ws s w)) (sem_waiters s)")
    case Nil
    then show ?thesis by (simp add: sem_claim_waiter_locked_def claim_waiter_locked_head)
  next
    case (Cons w ws)
    note after = filter_after_claim(1) [OF Suc.prems Cons, where x = "granted (sem_ws s w)"]
      filter_after_claim(2) [OF Suc.prems Cons]
    show ?thesis
      using Cons after Suc.IH [of "s\<lparr>sem_waiters := tl (dropWhile (\<lambda>w. rejects (sem_ws s w)) (sem_waiters s)),
          sem_ws := (sem_ws s)(w := granted (sem_ws s w))\<rparr>"]
      by (simp add: sem_claim_waiter_locked_def claim_waiter_locked_head case_prod_beta Let_def)
  qed
qed

lemma sem_inv_queued:
  "sem_inv s \<Longrightarrow> w \<in> set (sem_waiters (ss s)) \<Longrightarrow> queued_ok (sem_ws (ss s) w)"
  using sem_ok_at [of "ss s" "s_ph s" "s_ps s" w] waiter_ok_queued by (auto simp: sem_inv_def)

text \<open>A concrete semaphore with no permit, for the witnesses, and a script that leaves two waiters queued.\<close>

definition sem_start :: "int \<Rightarrow> sem_sys" where
  "sem_start n =
     \<lparr>ss = \<lparr>sem_count = n, sem_waiters = [], sem_ws = (\<lambda>_. new_waiter False)\<rparr>,
      s_ph = (\<lambda>_. Unborn), s_ps = {}, s_taken = 0, s_issued = n\<rparr>"

definition sem_script :: "sem_label list" where
  "sem_script =
     [SL_Try, SL_New 20 True, SL_Ready False 20, SL_Suspend False False 7 20,
      SL_New 30 False, SL_Ready False 30, SL_Suspend False False 8 30, SL_Cancel 20]"

lemma sem_start_reach: "0 \<le> n \<Longrightarrow> n \<le> INT_MAX \<Longrightarrow> reach sem_init sem_step (sem_start n)"
  by (rule reach_init) (simp add: sem_init_def sem_start_def semaphore_ctor_def)

lemmas sem_op_defs = sem_set_def sem_new_waiter_def try_acquire_def sem_await_ready_def
  sem_await_suspend_def sem_await_suspend_cancellable_def sem_await_suspend_non_cancellable_def
  sem_await_resume_def sem_waiter_dtor_def sem_request_cancel_def sem_schedule_def
  wl_push_back_def wl_remove_def

lemma sem_script_run:
  "\<exists>t. run_labels sem_enabled sem_exec (sem_start 1) sem_script = Some t \<and>
     sem_waiters (ss t) = [20, 30] \<and> w_was_cancelled (sem_ws (ss t) 20) \<and>
     \<not> w_was_cancelled (sem_ws (ss t) 30) \<and> s_ph t 30 = Suspended \<and> sem_count (ss t) = 0"
  by (simp add: sem_script_def sem_start_def sem_op_defs waiter_defs wake_op_defs Let_def)

section \<open>Properties\<close>

text \<open>
  C6: permits are neither created nor lost. In every reachable state the permits
  available, the permits reserved for waiters that were handed one, the permits of
  acquires that completed without suspending and are about to return, and the permits
  already taken add up to the permits issued; the count is never negative and
  the documented bound INT\_MAX holds. Cancellation, destruction of a
  suspended frame and every race between them are included.
\<close>

theorem sem_permits_conserved:
  assumes "reach sem_init sem_step s"
  shows "sem_count (ss s) + pending (sem_ws (ss s)) + inflight (s_ph s) (sem_ws (ss s))
      + s_taken s = s_issued s \<and>
    0 \<le> sem_count (ss s) \<and> sem_count (ss s) + pending (sem_ws (ss s)) \<le> INT_MAX"
  using sem.reach_inv [OF assms] by (simp add: sem_inv_def sem_ok_def sem_bal_def)

theorem sem_permits_conserved_witness:
  "\<exists>t. run_labels sem_enabled sem_exec (sem_start 1) sem_script = Some t \<and> s_taken t = 1 \<and>
     sem_count (ss t) + pending (sem_ws (ss t)) + inflight (s_ph t) (sem_ws (ss t)) + s_taken t = s_issued t"
proof -
  obtain t where t: "run_labels sem_enabled sem_exec (sem_start 1) sem_script = Some t"
    using sem_script_run by blast
  have "reach sem_init sem_step (sem_start 1)" by (rule sem_start_reach) (simp_all add: INT_MAX_def)
  then have r: "reach sem_init sem_step t"
    using t unfolding sem_step_def by (rule reach_run_labels)
  have "s_taken t = 1"
    using t by (auto simp: sem_script_def sem_start_def sem_op_defs waiter_defs wake_op_defs Let_def)
  with t sem_permits_conserved [OF r] show ?thesis by blast
qed

text \<open>
  C7: no wake-up is lost. In every reachable state a suspended waiter is in exactly
  the situation its progress needs: it is queued and no permit is available, or it
  owns a reserved permit and has been scheduled or is about to be by the thread that
  claimed it, or it was cancelled and has been scheduled. In particular a permit never
  sits idle while a live waiter is queued.
\<close>

theorem sem_no_lost_wakeup:
  assumes "reach sem_init sem_step s" and "s_ph s w = Suspended"
  shows "let x = sem_ws (ss s) w in
    (w \<in> set (sem_waiters (ss s)) \<and> \<not> w_grant_pending x \<and> sem_count (ss s) = 0) \<or>
    (w \<notin> set (sem_waiters (ss s)) \<and> w_grant_pending x \<and> (w_scheduling x \<or> w \<in> s_ps s)) \<or>
    (w \<notin> set (sem_waiters (ss s)) \<and> \<not> w_grant_pending x \<and> w_was_cancelled x \<and> w_scheduling x)"
proof -
  have ok: "sem_ok (ss s) (s_ph s) (s_ps s)" using sem.reach_inv [OF assms(1)] by (simp add: sem_inv_def)
  have "w \<in> set (sem_waiters (ss s)) \<Longrightarrow> sem_count (ss s) = 0"
    using sem_ok_queue [OF ok] by fastforce
  with sem_ok_at [OF ok, of w] assms(2) show ?thesis
    by (auto simp: Let_def queued_ok_def cancelled_ok_def w_was_cancelled_def was_cancelled_def
        w_scheduling_def scheduling_states_def split: if_splits)
qed

theorem sem_no_lost_wakeup_witness:
  "\<exists>t. run_labels sem_enabled sem_exec (sem_start 1) sem_script = Some t \<and> s_ph t 30 = Suspended \<and>
     (let x = sem_ws (ss t) 30 in
      (30 \<in> set (sem_waiters (ss t)) \<and> \<not> w_grant_pending x \<and> sem_count (ss t) = 0) \<or>
      (30 \<notin> set (sem_waiters (ss t)) \<and> w_grant_pending x \<and> (w_scheduling x \<or> 30 \<in> s_ps t)) \<or>
      (30 \<notin> set (sem_waiters (ss t)) \<and> \<not> w_grant_pending x \<and> w_was_cancelled x \<and> w_scheduling x))"
proof -
  obtain t where t: "run_labels sem_enabled sem_exec (sem_start 1) sem_script = Some t" "s_ph t 30 = Suspended"
    using sem_script_run by blast
  have "reach sem_init sem_step (sem_start 1)" by (rule sem_start_reach) (simp_all add: INT_MAX_def)
  then have r: "reach sem_init sem_step t"
    using t(1) unfolding sem_step_def by (rule reach_run_labels)
  from t sem_no_lost_wakeup [OF r t(2)] show ?thesis by blast
qed





end
