(* ===== verification/Elio_Mutex.thy ===== *)
theory Elio_Mutex
  imports Waiters
begin

text \<open>
  The coroutine-aware mutex (src/include/elio/sync/mutex.hpp). The lock word state\_
  is accessed by try\_lock and by the first test of await\_suspend outside the
  internal critical section, so await\_ready of a cancellable waiter and await\_suspend of a
  plain one are two steps each: other threads may run in between.
\<close>

text \<open>The lock word is a pointer: null when free, 1 or the owner's frame address when locked.\<close>

record emutex =
  m_state :: "nat option"
  m_waiters :: "addr list"
  m_ws :: waiter_map

section \<open>Operations\<close>

definition mtx_set :: "addr \<Rightarrow> waiter \<Rightarrow> emutex \<Rightarrow> emutex" where
  "mtx_set w x s = s\<lparr>m_ws := (m_ws s)(w := x)\<rparr>"

definition mutex_ctor :: emutex where
  "mutex_ctor = \<lparr>m_state = None, m_waiters = [], m_ws = (\<lambda>_. new_waiter False)\<rparr>"

definition mtx_new_waiter :: "addr \<Rightarrow> bool \<Rightarrow> emutex \<Rightarrow> emutex" where
  "mtx_new_waiter w cancellable s = mtx_set w (new_waiter cancellable) s"

text \<open>compare\_exchange\_strong on the lock word, from null to \<open>v\<close>.\<close>

definition mtx_cas :: "nat \<Rightarrow> emutex \<Rightarrow> bool \<times> emutex" where
  "mtx_cas v s = (if m_state s = None then (True, s\<lparr>m_state := Some v\<rparr>) else (False, s))"

definition try_lock :: "emutex \<Rightarrow> bool \<times> emutex" where
  "try_lock s = mtx_cas 1 s"

definition is_locked :: "emutex \<Rightarrow> bool" where
  "is_locked s \<longleftrightarrow> m_state s \<noteq> None"

definition mtx_recover_cancelled_handoff_locked :: "emutex \<Rightarrow> addr option \<times> emutex" where
  "mtx_recover_cancelled_handoff_locked s =
     (let (r, m, q) = claim_waiter_locked (m_ws s) (m_waiters s) in
      (r, \<lparr>m_state = (if r = None then None else Some 1), m_waiters = q, m_ws = m\<rparr>))"

definition mtx_unlock :: "emutex \<Rightarrow> addr option \<times> emutex" where
  "mtx_unlock s = mtx_recover_cancelled_handoff_locked s"

text \<open>
  await\_ready up to try\_lock: \<open>Some b\<close> returns \<open>b\<close>; \<open>None\<close> goes on to claim the
  wake state with the lock held. \<open>c\<close>: a request arrives after the test of was\_cancelled.
\<close>

definition lw_await_ready_lock :: "bool \<Rightarrow> addr \<Rightarrow> emutex \<Rightarrow> bool option \<times> emutex" where
  "lw_await_ready_lock c w s =
     (let x = m_ws s w in
      if \<not> w_cancellable x then let (ok, s') = try_lock s in (Some ok, s')
      else if w_was_cancelled x then (Some True, s)
      else
        let (ok, s') = try_lock (mtx_set w (cancel_if c x) s) in
        if \<not> ok then (Some False, s') else (None, s'))"

text \<open>The rest of await\_ready, which always returns true.\<close>

definition lw_await_ready_claim :: "addr \<Rightarrow> emutex \<Rightarrow> addr option \<times> emutex" where
  "lw_await_ready_claim w s =
     (let (action, x) = w_claim (m_ws s w) in
      if action \<noteq> Rejected then (None, mtx_set w x s) else mtx_unlock (mtx_set w x s))"

text \<open>await\_suspend of a plain waiter up to emplace: \<open>True\<close> when the lock was taken.\<close>

definition lw_await_suspend_precheck :: "coro_handle \<Rightarrow> addr \<Rightarrow> emutex \<Rightarrow> (bool \<times> emutex) option" where
  "lw_await_suspend_precheck h w s =
     (let (ok, s') = mtx_cas h s in
      if ok then Some (True, s')
      else map_option (\<lambda>x. (False, mtx_set w x s')) (w_emplace (m_ws s' w)))"

text \<open>Its critical section: whether the coroutine suspends.\<close>

definition lw_await_suspend_non_cancellable :: "coro_handle \<Rightarrow> addr \<Rightarrow> emutex \<Rightarrow> (bool \<times> emutex) option" where
  "lw_await_suspend_non_cancellable h w s =
     (let (ok, s') = mtx_cas h s in
      if ok then Some (False, s')
      else
        let x = m_ws s' w in
        case wl_push_back w (m_waiters s') of
          None \<Rightarrow> None
        | Some q \<Rightarrow>
            Some (True,
              (mtx_set w (x\<lparr>w_wake := map_option (set_handle h) (w_wake x), w_suspended := True\<rparr>) s')
                \<lparr>m_waiters := q\<rparr>))"

definition lw_await_suspend_cancellable ::
    "bool \<Rightarrow> bool \<Rightarrow> coro_handle \<Rightarrow> addr \<Rightarrow> emutex \<Rightarrow> (bool \<times> addr option \<times> emutex) option" where
  "lw_await_suspend_cancellable c1 c2 h w s =
     (let x = m_ws s w in
      if w_was_cancelled x then Some (False, None, s)
      else
        let x1 = cancel_if c1 x; (locked, s') = mtx_cas h s in
        if locked then
          let (action, x2) = w_claim x1 in
          if action \<noteq> Rejected then Some (False, None, mtx_set w x2 s')
          else let (r, s'') = mtx_recover_cancelled_handoff_locked (mtx_set w x2 s') in Some (False, r, s'')
        else
          let (ok, x2) = w_set_handle_blocked h x1 in
          if \<not> ok then Some (False, None, mtx_set w x2 s')
          else
            (case wl_push_back w (m_waiters s') of
               None \<Rightarrow> None
             | Some q \<Rightarrow>
                 let (ok', x3) = w_unblock_after_publish (cancel_if c2 (x2\<lparr>w_suspended := True\<rparr>)) in
                 if ok' then Some (True, None, (mtx_set w x3 s')\<lparr>m_waiters := q\<rparr>)
                 else Some (False, None,
                        (mtx_set w (x3\<lparr>w_suspended := False\<rparr>) s')\<lparr>m_waiters := wl_remove w q\<rparr>)))"

definition lw_await_resume :: "addr \<Rightarrow> emutex \<Rightarrow> cancel_result \<times> emutex" where
  "lw_await_resume w s =
     (let x = m_ws s w in
      if \<not> w_cancellable x then (Completed, mtx_set w (w_mark_resumed x) s)
      else if w_was_cancelled x then
        (Cancelled,
         if w_suspended x then
           (mtx_set w (x\<lparr>w_suspended := False\<rparr>) s)\<lparr>m_waiters := wl_remove w (m_waiters s)\<rparr>
         else s)
      else (Completed, mtx_set w (w_mark_resumed x) s))"

definition lw_dtor :: "addr \<Rightarrow> emutex \<Rightarrow> addr option \<times> emutex" where
  "lw_dtor w s =
     (let x = m_ws s w in
      if \<not> w_suspended x then (None, s)
      else if w \<in> set (m_waiters s) then
        (None, (mtx_set w (w_abandon x) s)\<lparr>m_waiters := wl_remove w (m_waiters s)\<rparr>)
      else if w_grant_pending x \<and> \<not> w_resumed x then
        mtx_recover_cancelled_handoff_locked (mtx_set w ((w_abandon x)\<lparr>w_grant_pending := False\<rparr>) s)
      else (None, mtx_set w (w_abandon x) s))"

definition mtx_request_cancel :: "addr \<Rightarrow> emutex \<Rightarrow> emutex" where
  "mtx_request_cancel w s = mtx_set w (w_request_cancel (m_ws s w)) s"

definition mtx_schedule :: "addr \<Rightarrow> emutex \<Rightarrow> emutex" where
  "mtx_schedule w s = mtx_set w (snd (w_schedule (m_ws s w))) s"

text \<open>class lock\_guard: it unlocks once, in unlock or in its destructor or when it is overwritten.\<close>

record lock_guard =
  owns_lock :: bool

definition lock_guard_ctor :: lock_guard where
  "lock_guard_ctor = \<lparr>owns_lock = True\<rparr>"

text \<open>The second component says whether mutex::unlock is called.\<close>

definition lock_guard_unlock :: "lock_guard \<Rightarrow> lock_guard \<times> bool" where
  "lock_guard_unlock g = (if owns_lock g then (g\<lparr>owns_lock := False\<rparr>, True) else (g, False))"

definition lock_guard_dtor :: "lock_guard \<Rightarrow> bool" where
  "lock_guard_dtor g = owns_lock g"

definition lock_guard_move :: "lock_guard \<Rightarrow> lock_guard \<times> lock_guard" where
  "lock_guard_move other = (\<lparr>owns_lock = owns_lock other\<rparr>, other\<lparr>owns_lock := False\<rparr>)"

text \<open>Move assignment from another guard: the new target, the source, and whether unlock is called.\<close>

definition lock_guard_assign :: "lock_guard \<Rightarrow> lock_guard \<Rightarrow> lock_guard \<times> lock_guard \<times> bool" where
  "lock_guard_assign g other =
     (g\<lparr>owns_lock := owns_lock other\<rparr>, other\<lparr>owns_lock := False\<rparr>, owns_lock g)"

section \<open>All interleavings\<close>

text \<open>\<open>x_held\<close> counts the clients that own the lock and have not called unlock.\<close>

record mtx_sys =
  mm :: emutex
  x_ph :: "addr \<Rightarrow> phase"
  x_ps :: "addr set"
  x_held :: int

datatype mtx_label =
    ML_New addr bool
  | ML_Try
  | ML_Ready bool addr
  | ML_Claim addr
  | ML_Precheck coro_handle addr
  | ML_Suspend coro_handle addr
  | ML_Suspend_C bool bool coro_handle addr
  | ML_Resume addr
  | ML_Destroy addr
  | ML_Cancel addr
  | ML_Unlock
  | ML_Schedule addr

fun mtx_enabled :: "mtx_sys \<Rightarrow> mtx_label \<Rightarrow> bool" where
  "mtx_enabled s (ML_New w c) \<longleftrightarrow> x_ph s w = Unborn"
| "mtx_enabled s ML_Try \<longleftrightarrow> True"
| "mtx_enabled s (ML_Ready c w) \<longleftrightarrow> x_ph s w = Constructed"
| "mtx_enabled s (ML_Claim w) \<longleftrightarrow> x_ph s w = Locking"
| "mtx_enabled s (ML_Precheck h w) \<longleftrightarrow> x_ph s w = Not_Ready \<and> \<not> w_cancellable (m_ws (mm s) w)"
| "mtx_enabled s (ML_Suspend h w) \<longleftrightarrow> x_ph s w = Emplaced"
| "mtx_enabled s (ML_Suspend_C c1 c2 h w) \<longleftrightarrow> x_ph s w = Not_Ready \<and> w_cancellable (m_ws (mm s) w)"
| "mtx_enabled s (ML_Resume w) \<longleftrightarrow> can_resume (x_ph s) (m_ws (mm s)) w"
| "mtx_enabled s (ML_Destroy w) \<longleftrightarrow> can_destroy (x_ph s) w"
| "mtx_enabled s (ML_Cancel w) \<longleftrightarrow> w_cancellable (m_ws (mm s) w)"
| "mtx_enabled s ML_Unlock \<longleftrightarrow> x_held s > 0"
| "mtx_enabled s (ML_Schedule w) \<longleftrightarrow> w \<in> x_ps s"

fun mtx_exec :: "mtx_sys \<Rightarrow> mtx_label \<Rightarrow> mtx_sys option" where
  "mtx_exec s (ML_New w c) =
     Some (s\<lparr>mm := mtx_new_waiter w c (mm s), x_ph := (x_ph s)(w := Constructed)\<rparr>)"
| "mtx_exec s ML_Try =
     (let (ok, t) = try_lock (mm s) in Some (s\<lparr>mm := t, x_held := x_held s + of_bool ok\<rparr>))"
| "mtx_exec s (ML_Ready c w) =
     (let (r, t) = lw_await_ready_lock c w (mm s) in
      Some (s\<lparr>mm := t, x_ph := (x_ph s)(w :=
        (case r of None \<Rightarrow> Locking | Some ready \<Rightarrow> if ready then Completing else Not_Ready))\<rparr>))"
| "mtx_exec s (ML_Claim w) =
     (let (r, t) = lw_await_ready_claim w (mm s) in
      Some (s\<lparr>mm := t, x_ph := (x_ph s)(w := Completing), x_ps := x_ps s \<union> set_option r\<rparr>))"
| "mtx_exec s (ML_Precheck h w) =
     map_option (\<lambda>(ok, t). s\<lparr>mm := t, x_ph := (x_ph s)(w := if ok then Completing else Emplaced)\<rparr>)
       (lw_await_suspend_precheck h w (mm s))"
| "mtx_exec s (ML_Suspend h w) =
     map_option (\<lambda>(susp, t). s\<lparr>mm := t, x_ph := (x_ph s)(w := if susp then Suspended else Completing)\<rparr>)
       (lw_await_suspend_non_cancellable h w (mm s))"
| "mtx_exec s (ML_Suspend_C c1 c2 h w) =
     map_option (\<lambda>(susp, r, t). s\<lparr>mm := t, x_ph := (x_ph s)(w := if susp then Suspended else Completing),
                                 x_ps := x_ps s \<union> set_option r\<rparr>)
       (lw_await_suspend_cancellable c1 c2 h w (mm s))"
| "mtx_exec s (ML_Resume w) =
     (let (r, t) = lw_await_resume w (mm s) in
      Some (s\<lparr>mm := t, x_ph := (x_ph s)(w := Finished), x_held := x_held s + of_bool (r = Completed)\<rparr>))"
| "mtx_exec s (ML_Destroy w) =
     (let (r, t) = lw_dtor w (mm s) in
      Some (s\<lparr>mm := t, x_ph := (x_ph s)(w := Destroyed), x_ps := x_ps s \<union> set_option r\<rparr>))"
| "mtx_exec s (ML_Cancel w) = Some (s\<lparr>mm := mtx_request_cancel w (mm s)\<rparr>)"
| "mtx_exec s ML_Unlock =
     (let (r, t) = mtx_unlock (mm s) in
      Some (s\<lparr>mm := t, x_ps := x_ps s \<union> set_option r, x_held := x_held s - 1\<rparr>))"
| "mtx_exec s (ML_Schedule w) = Some (s\<lparr>mm := mtx_schedule w (mm s), x_ps := x_ps s - {w}\<rparr>)"

definition mtx_step :: "mtx_sys \<Rightarrow> mtx_label \<Rightarrow> mtx_sys \<Rightarrow> bool" where
  "mtx_step = exec_step mtx_enabled mtx_exec"

definition mtx_start :: mtx_sys where
  "mtx_start = \<lparr>mm = mutex_ctor, x_ph = (\<lambda>_. Unborn), x_ps = {}, x_held = 0\<rparr>"

definition mtx_init :: "mtx_sys \<Rightarrow> bool" where
  "mtx_init s \<longleftrightarrow> s = mtx_start"

section \<open>Invariant\<close>

definition mtx_ok :: "emutex \<Rightarrow> (addr \<Rightarrow> phase) \<Rightarrow> addr set \<Rightarrow> bool" where
  "mtx_ok s ph ps \<longleftrightarrow> wait_inv (m_waiters s) (m_ws s) ph ps \<and> (m_state s = None \<longrightarrow> m_waiters s = [])"

text \<open>The one token of the lock: in the lock word, reserved for a waiter, or with an inline acquire.\<close>

definition mtx_bal :: "emutex \<Rightarrow> (addr \<Rightarrow> phase) \<Rightarrow> int" where
  "mtx_bal s ph = of_bool (m_state s = None) + pending (m_ws s) + inflight ph (m_ws s)"

definition mtx_inv :: "mtx_sys \<Rightarrow> bool" where
  "mtx_inv s \<longleftrightarrow> mtx_ok (mm s) (x_ph s) (x_ps s) \<and> 0 \<le> x_held s \<and>
     mtx_bal (mm s) (x_ph s) + x_held s = 1"

lemma mtx_upd_bal:
  assumes ok: "mtx_ok s ph ps" and t: "t = \<lparr>m_state = st, m_waiters = q', m_ws = (m_ws s)(w := x)\<rparr>"
    and q: "distinct q'"
    and same: "\<And>v. v \<noteq> w \<Longrightarrow> (v \<in> set q' \<longleftrightarrow> v \<in> set (m_waiters s)) \<and> (v \<in> ps' \<longleftrightarrow> v \<in> ps)"
    and w: "waiter_ok (w \<in> set q') (w \<in> ps') p x"
    and c: "st = None \<longrightarrow> q' = []"
    and b: "b = mtx_bal s ph + of_bool (st = None) - of_bool (m_state s = None)
        + of_bool (w_grant_pending x) - of_bool (w_grant_pending (m_ws s w))
        + of_bool (holds_inline p x) - of_bool (inline_done ph (m_ws s) w)"
  shows "mtx_ok t (ph(w := p)) ps' \<and> mtx_bal t (ph(w := p)) = b"
proof -
  have inv: "wait_inv (m_waiters s) (m_ws s) ph ps" using ok by (simp add: mtx_ok_def)
  note upd = wait_inv_upd [OF inv q same w]
  show ?thesis using upd(1) c by (simp add: t b mtx_ok_def mtx_bal_def upd(2,3))
qed

lemma mtx_ok_at: "mtx_ok s ph ps \<Longrightarrow> waiter_ok (w \<in> set (m_waiters s)) (w \<in> ps) (ph w) (m_ws s w)"
  by (simp add: mtx_ok_def wait_inv_at)

lemma mtx_ok_queued: "mtx_ok s ph ps \<Longrightarrow> w \<in> set (m_waiters s) \<Longrightarrow> queued_ok (m_ws s w)"
  using mtx_ok_at [of s ph ps w] waiter_ok_queued by auto

lemma mtx_ok_queue: "mtx_ok s ph ps \<Longrightarrow> distinct (m_waiters s) \<and> (m_state s = None \<longrightarrow> m_waiters s = [])"
  by (simp add: mtx_ok_def wait_inv_def)

lemma mtx_set_make:
  "mtx_set w x s = \<lparr>m_state = m_state s, m_waiters = m_waiters s, m_ws = (m_ws s)(w := x)\<rparr>"
  by (simp add: mtx_set_def)

lemma mtx_same:
  "s = \<lparr>m_state = m_state s, m_waiters = m_waiters s, m_ws = (m_ws s)(w := m_ws s w)\<rparr>"
  by simp

lemma mtx_recover_ok:
  assumes "mtx_ok s ph ps" and "m_state s \<noteq> None"
    and "mtx_recover_cancelled_handoff_locked s = (r, t)"
  shows "mtx_ok t ph (ps \<union> set_option r) \<and> mtx_bal t ph = mtx_bal s ph + 1"
  using assms claim_waiter_locked_inv [of "m_waiters s" "m_ws s" ph ps]
  by (auto simp: mtx_ok_def mtx_recover_cancelled_handoff_locked_def mtx_bal_def
      split: prod.splits option.splits)

section \<open>Every operation keeps the invariant\<close>

lemma lw_await_ready_lock_ok:
  assumes ok: "mtx_ok s ph ps" and p: "ph w = Constructed" and r: "lw_await_ready_lock c w s = (r, t)"
    and ph': "ph' = ph(w := (case r of None \<Rightarrow> Locking | Some ready \<Rightarrow> if ready then Completing else Not_Ready))"
  shows "mtx_ok t ph' ps \<and> mtx_bal t ph' = mtx_bal s ph"
proof -
  let ?x = "m_ws s w"
  have x: "w \<notin> set (m_waiters s)" "w \<notin> ps" "fresh_ok ?x" "\<not> inline_done ph (m_ws s) w" "\<not> w_grant_pending ?x"
    using mtx_ok_at [OF ok, of w] p by (auto simp: inline_done_def fresh_ok_def)
  note q = mtx_ok_queue [OF ok]
  have keep: "mtx_ok u (ph(w := p)) ps \<and> mtx_bal u (ph(w := p)) = mtx_bal s ph"
    if "u = \<lparr>m_state = st, m_waiters = m_waiters s, m_ws = (m_ws s)(w := y)\<rparr>"
      "waiter_ok False False p y" "\<not> w_grant_pending y"
      "st = None \<longrightarrow> m_state s = None"
      "of_bool (holds_inline p y) = (of_bool (m_state s = None) - of_bool (st = None) :: int)" for u p y st
    by (rule mtx_upd_bal [OF ok that(1)]) (use that x q in auto)
  show ?thesis
  proof (cases "w_cancellable ?x")
    case False
    with x have y: "waiter_ok False False Completing ?x" "waiter_ok False False Not_Ready ?x"
        "\<not> w_was_cancelled ?x"
      by (auto simp: waiter_defs)
    show ?thesis
      using keep [of "s\<lparr>m_state := Some 1\<rparr>" "Some 1" ?x Completing]
        keep [of s "m_state s" ?x Not_Ready] y x False r
      by (auto simp: ph' lw_await_ready_lock_def try_lock_def mtx_cas_def split: if_splits)
  next
    case True
    show ?thesis
    proof (cases "w_was_cancelled ?x")
      case wc: True
      with True x have "waiter_ok False False Completing ?x" by (auto simp: waiter_defs wake_op_defs)
      with keep [of s "m_state s" ?x Completing] wc True x r show ?thesis
        by (auto simp: ph' lw_await_ready_lock_def)
    next
      case wc: False
      have y: "waiter_ok False False Locking (cancel_if c ?x)" "waiter_ok False False Not_Ready (cancel_if c ?x)"
          "\<not> w_grant_pending (cancel_if c ?x)"
        using True x by (auto simp: waiter_defs wake_op_defs)
      show ?thesis
        using keep [of _ "Some 1" "cancel_if c ?x" Locking]
          keep [of _ "m_state s" "cancel_if c ?x" Not_Ready] y x True wc r
        by (auto simp: ph' lw_await_ready_lock_def try_lock_def mtx_cas_def mtx_set_make Let_def split: if_splits)
    qed
  qed
qed

lemma lw_await_ready_claim_ok:
  assumes ok: "mtx_ok s ph ps" and p: "ph w = Locking" and st: "m_state s \<noteq> None"
    and r: "lw_await_ready_claim w s = (r, t)"
  shows "mtx_ok t (ph(w := Completing)) (ps \<union> set_option r) \<and>
    mtx_bal t (ph(w := Completing)) = mtx_bal s ph"
proof -
  let ?x = "m_ws s w" and ?y = "snd (w_claim (m_ws s w))"
  have x: "w \<notin> set (m_waiters s)" "w \<notin> ps" "fresh_ok ?x" "w_cancellable ?x" "inline_done ph (m_ws s) w"
      "\<not> w_grant_pending ?x"
    using mtx_ok_at [OF ok, of w] p by (auto simp: inline_done_def fresh_ok_def)
  note q = mtx_ok_queue [OF ok]
  have y: "completing_ok ?y" "w_was_cancelled ?y \<longleftrightarrow> fst (w_claim ?x) = Rejected"
    using x(3,4) by (auto simp: waiter_defs wake_op_defs)
  have u: "mtx_ok (mtx_set w ?y s) (ph(w := Completing)) ps \<and>
      mtx_bal (mtx_set w ?y s) (ph(w := Completing)) = mtx_bal s ph - of_bool (fst (w_claim ?x) = Rejected)"
    by (rule mtx_upd_bal [OF ok mtx_set_make]) (use x y q completing_not_pending in auto)
  show ?thesis
  proof (cases "fst (w_claim ?x) = Rejected")
    case True
    then have "mtx_recover_cancelled_handoff_locked (mtx_set w ?y s) = (r, t)"
      using r by (simp add: lw_await_ready_claim_def mtx_unlock_def case_prod_beta Let_def)
    from mtx_recover_ok [OF conjunct1 [OF u] _ this] st u True show ?thesis by (simp add: mtx_set_def)
  next
    case False
    with u r show ?thesis by (auto simp: lw_await_ready_claim_def case_prod_beta Let_def)
  qed
qed

lemma lw_precheck_ok:
  assumes ok: "mtx_ok s ph ps" and p: "ph w = Not_Ready" and nc: "\<not> w_cancellable (m_ws s w)"
  shows "\<exists>l t. lw_await_suspend_precheck h w s = Some (l, t) \<and>
    mtx_ok t (ph(w := if l then Completing else Emplaced)) ps \<and>
    mtx_bal t (ph(w := if l then Completing else Emplaced)) = mtx_bal s ph"
proof -
  let ?x = "m_ws s w"
  have x: "w \<notin> set (m_waiters s)" "w \<notin> ps" "fresh_ok ?x" "\<not> inline_done ph (m_ws s) w" "\<not> w_grant_pending ?x"
    using mtx_ok_at [OF ok, of w] p by (auto simp: inline_done_def fresh_ok_def)
  note q = mtx_ok_queue [OF ok]
  have wk: "w_wake ?x = None" using x nc by (simp add: fresh_ok_def)
  show ?thesis
  proof (cases "m_state s = None")
    case True
    have "mtx_ok t (ph(w := Completing)) ps \<and> mtx_bal t (ph(w := Completing)) = mtx_bal s ph"
      if "t = \<lparr>m_state = Some h, m_waiters = m_waiters s, m_ws = (m_ws s)(w := ?x)\<rparr>" for t
      by (rule mtx_upd_bal [OF ok that]) (use True x q nc in \<open>auto simp: waiter_defs\<close>)
    from this [of "s\<lparr>m_state := Some h\<rparr>"] True show ?thesis
      by (simp add: ex_bool_eq lw_await_suspend_precheck_def mtx_cas_def)
  next
    case False
    have "mtx_ok t (ph(w := Emplaced)) ps \<and> mtx_bal t (ph(w := Emplaced)) = mtx_bal s ph"
      if "t = mtx_set w (?x\<lparr>w_wake := Some make_wake_state\<rparr>) s" for t
      by (rule mtx_upd_bal [OF ok that [unfolded mtx_set_make]])
         (use False x q nc in \<open>auto simp: waiter_defs\<close>)
    note kept = this [OF refl]
    have "mtx_cas h s = (False, s)" using False by (simp add: mtx_cas_def)
    with kept wk show ?thesis by (auto simp: lw_await_suspend_precheck_def w_emplace_def)
  qed
qed

lemma lw_suspend_nc_ok:
  assumes ok: "mtx_ok s ph ps" and p: "ph w = Emplaced"
  shows "\<exists>susp t. lw_await_suspend_non_cancellable h w s = Some (susp, t) \<and>
    mtx_ok t (ph(w := if susp then Suspended else Completing)) ps \<and>
    mtx_bal t (ph(w := if susp then Suspended else Completing)) = mtx_bal s ph"
proof -
  let ?x = "m_ws s w"
  have x: "w \<notin> set (m_waiters s)" "w \<notin> ps" "emplaced_ok ?x" "\<not> inline_done ph (m_ws s) w" "\<not> w_grant_pending ?x"
    using mtx_ok_at [OF ok, of w] p by (auto simp: inline_done_def emplaced_ok_def)
  note q = mtx_ok_queue [OF ok]
  show ?thesis
  proof (cases "m_state s = None")
    case True
    have "mtx_ok t (ph(w := Completing)) ps \<and> mtx_bal t (ph(w := Completing)) = mtx_bal s ph"
      if "t = \<lparr>m_state = Some h, m_waiters = m_waiters s, m_ws = (m_ws s)(w := ?x)\<rparr>" for t
      by (rule mtx_upd_bal [OF ok that]) (use True x q in \<open>auto simp: waiter_defs wake_op_defs\<close>)
    from this [of "s\<lparr>m_state := Some h\<rparr>"] True show ?thesis
      by (simp add: ex_bool_eq lw_await_suspend_non_cancellable_def mtx_cas_def)
  next
    case False
    let ?z = "?x\<lparr>w_wake := map_option (set_handle h) (w_wake ?x), w_suspended := True\<rparr>"
    have "mtx_ok t (ph(w := Suspended)) ps \<and> mtx_bal t (ph(w := Suspended)) = mtx_bal s ph"
      if "t = \<lparr>m_state = m_state s, m_waiters = m_waiters s @ [w], m_ws = (m_ws s)(w := ?z)\<rparr>" for t
      by (rule mtx_upd_bal [OF ok that]) (use False x q in \<open>auto simp: waiter_defs wake_op_defs\<close>)
    note kept = this [OF refl]
    have "mtx_cas h s = (False, s)" using False by (simp add: mtx_cas_def)
    with kept x(1) show ?thesis
      by (auto simp: lw_await_suspend_non_cancellable_def mtx_set_make wl_push_back_def Let_def)
  qed
qed

lemma lw_suspend_c_ok:
  assumes ok: "mtx_ok s ph ps" and p: "ph w = Not_Ready" and ca: "w_cancellable (m_ws s w)"
  shows "\<exists>susp r t. lw_await_suspend_cancellable c1 c2 h w s = Some (susp, r, t) \<and>
    mtx_ok t (ph(w := if susp then Suspended else Completing)) (ps \<union> set_option r) \<and>
    mtx_bal t (ph(w := if susp then Suspended else Completing)) = mtx_bal s ph"
proof -
  let ?x = "m_ws s w"
  have x: "w \<notin> set (m_waiters s)" "w \<notin> ps" "fresh_ok ?x" "\<not> inline_done ph (m_ws s) w" "\<not> w_grant_pending ?x"
    using mtx_ok_at [OF ok, of w] p by (auto simp: inline_done_def fresh_ok_def)
  note q = mtx_ok_queue [OF ok]
  show ?thesis
  proof (cases "w_was_cancelled ?x")
    case True
    have "completing_ok ?x" using True ca x by (auto simp: waiter_defs wake_op_defs)
    then have "mtx_ok s (ph(w := Completing)) ps \<and> mtx_bal s (ph(w := Completing)) = mtx_bal s ph"
      by (intro mtx_upd_bal [OF ok mtx_same [of s w]]) (use True x q in auto)
    with True show ?thesis by (auto simp: lw_await_suspend_cancellable_def)
  next
    case nwc: False
    note race = fresh_cancellable_race [OF x(3) ca nwc]
    show ?thesis
    proof (cases "m_state s = None")
      case True
      let ?y = "snd (w_claim (cancel_if c1 ?x))"
      define t where "t = \<lparr>m_state = Some h, m_waiters = m_waiters s, m_ws = (m_ws s)(w := ?y)\<rparr>"
      have t: "mtx_ok t (ph(w := Completing)) ps \<and>
          mtx_bal t (ph(w := Completing)) = mtx_bal s ph - of_bool c1"
        by (rule mtx_upd_bal [OF ok t_def])
           (use True x q race(2,3) [of c1] completing_not_pending in auto)
      have e: "lw_await_suspend_cancellable c1 c2 h w s =
          (if c1 then (let (r, s'') = mtx_recover_cancelled_handoff_locked t in Some (False, r, s''))
           else Some (False, None, t))"
        using True nwc race(1) [of c1]
        by (simp add: lw_await_suspend_cancellable_def mtx_cas_def Let_def case_prod_beta mtx_set_make t_def)
      show ?thesis
      proof (cases c1)
        case False
        with e t show ?thesis by auto
      next
        case c1: True
        obtain r s' where rc: "mtx_recover_cancelled_handoff_locked t = (r, s')" by fastforce
        have "mtx_ok s' (ph(w := Completing)) (ps \<union> set_option r) \<and>
            mtx_bal s' (ph(w := Completing)) = mtx_bal t (ph(w := Completing)) + 1"
          by (rule mtx_recover_ok [OF conjunct1 [OF t] _ rc]) (simp add: t_def)
        with e t rc c1 show ?thesis by auto
      qed
    next
      case False
      let ?y = "snd (w_set_handle_blocked h (cancel_if c1 ?x))"
      let ?z = "w_unblock_after_publish (cancel_if c2 (?y\<lparr>w_suspended := True\<rparr>))"
      have a: "mtx_ok t (ph(w := Completing)) ps \<and> mtx_bal t (ph(w := Completing)) = mtx_bal s ph"
        if "t = \<lparr>m_state = m_state s, m_waiters = m_waiters s, m_ws = (m_ws s)(w := y)\<rparr>"
          "completing_ok y" "w_was_cancelled y" for t y
        by (rule mtx_upd_bal [OF ok that(1)]) (use that False x q completing_not_pending in auto)
      have b: "mtx_ok t (ph(w := Suspended)) ps \<and> mtx_bal t (ph(w := Suspended)) = mtx_bal s ph"
        if "t = \<lparr>m_state = m_state s, m_waiters = m_waiters s @ [w], m_ws = (m_ws s)(w := y)\<rparr>"
          "queued_ok y" for t y
        by (rule mtx_upd_bal [OF ok that(1)]) (use that False x q in \<open>auto simp: queued_ok_def\<close>)
      have cas: "mtx_cas h s = (False, s)" using False by (simp add: mtx_cas_def)
      have rm: "wl_remove w (m_waiters s @ [w]) = m_waiters s"
        using x(1) by (auto simp: wl_remove_def filter_id_conv)
      show ?thesis
        using a [of _ ?y] a [of _ "(snd ?z)\<lparr>w_suspended := False\<rparr>"] b [of _ "snd ?z"]
          race(4) [where c = c1 and h = h] race(5) [where c = c1 and h = h]
          race(6) [where c = c1 and h = h and d = c2 and z = ?z] cas nwc x(1)
        by (cases c1; cases c2)
           (auto simp: lw_await_suspend_cancellable_def Let_def case_prod_beta mtx_set_make
             wl_push_back_def rm)
    qed
  qed
qed

lemma lw_await_resume_ok:
  assumes ok: "mtx_ok s ph ps" and p: "can_resume ph (m_ws s) w" and r: "lw_await_resume w s = (r, t)"
  shows "mtx_ok t (ph(w := Finished)) ps \<and>
    mtx_bal t (ph(w := Finished)) = mtx_bal s ph - of_bool (r = Completed)"
proof -
  let ?x = "m_ws s w"
  note at = mtx_ok_at [OF ok, of w]
  note q = mtx_ok_queue [OF ok]
  show ?thesis
  proof (cases "w_cancellable ?x \<and> w_was_cancelled ?x")
    case True
    have a: "w \<notin> ps" "\<not> w_grant_pending ?x" "\<not> inline_done ph (m_ws s) w"
      using p at True
      by (auto simp: can_resume_def waiter_defs wake_op_defs inline_done_def split: if_splits)
    have x: "\<not> w_suspended ?x \<Longrightarrow> w \<notin> set (m_waiters s)"
      using waiter_ok_queued at by (auto simp: queued_ok_def)
    have "t = \<lparr>m_state = m_state s, m_waiters = wl_remove w (m_waiters s),
               m_ws = (m_ws s)(w := ?x\<lparr>w_suspended := False\<rparr>)\<rparr>"
      using r True x
      by (cases "w_suspended ?x")
         (auto simp: lw_await_resume_def mtx_set_make wl_remove_absent unsuspended_same Let_def)
    then have "mtx_ok t (ph(w := Finished)) ps \<and> mtx_bal t (ph(w := Finished)) = mtx_bal s ph"
      by (rule mtx_upd_bal [OF ok])
         (use a q in \<open>auto simp: set_wl_remove distinct_wl_remove wl_remove_def\<close>)
    moreover have "r = Cancelled" using r True by (simp add: lw_await_resume_def Let_def)
    ultimately show ?thesis by simp
  next
    case False
    have a: "w \<notin> set (m_waiters s) \<and> w \<notin> ps \<and> (w_grant_pending ?x \<noteq> inline_done ph (m_ws s) w)"
      using p at False
      by (auto simp: can_resume_def waiter_defs wake_op_defs inline_done_def split: if_splits)
    have "t = mtx_set w (w_mark_resumed ?x) s"
      using r False by (auto simp: lw_await_resume_def Let_def split: if_splits)
    then have "mtx_ok t (ph(w := Finished)) ps \<and> mtx_bal t (ph(w := Finished)) = mtx_bal s ph - 1"
      unfolding mtx_set_make by (rule mtx_upd_bal [OF ok]) (use a q in \<open>auto simp: w_mark_resumed_def\<close>)
    moreover have "r = Completed" using r False by (auto simp: lw_await_resume_def Let_def split: if_splits)
    ultimately show ?thesis by simp
  qed
qed

lemma lw_dtor_ok:
  assumes ok: "mtx_ok s ph ps" and p: "can_destroy ph w"
    and st: "w_grant_pending (m_ws s w) \<Longrightarrow> m_state s \<noteq> None" and r: "lw_dtor w s = (r, t)"
  shows "mtx_ok t (ph(w := Destroyed)) (ps \<union> set_option r) \<and> mtx_bal t (ph(w := Destroyed)) = mtx_bal s ph"
proof -
  let ?x = "m_ws s w"
  note at = mtx_ok_at [OF ok, of w]
  note q = mtx_ok_queue [OF ok]
  have i: "\<not> inline_done ph (m_ws s) w" using p by (auto simp: can_destroy_def inline_done_def)
  show ?thesis
  proof (cases "w_grant_pending ?x")
    case False
    define y where "y = (if w_suspended ?x then w_abandon ?x else ?x)"
    have y: "\<not> w_grant_pending y" using False by (simp add: y_def w_abandon_def)
    have s: "w \<in> set (m_waiters s) \<Longrightarrow> w_suspended ?x"
      using waiter_ok_queued at by (auto simp: queued_ok_def)
    define u where "u = \<lparr>m_state = m_state s, m_waiters = wl_remove w (m_waiters s), m_ws = (m_ws s)(w := y)\<rparr>"
    have "lw_dtor w s = (None, u)"
      using False s by (auto simp: lw_dtor_def mtx_set_make u_def y_def wl_remove_absent Let_def)
    moreover have "mtx_ok u (ph(w := Destroyed)) ps \<and> mtx_bal u (ph(w := Destroyed)) = mtx_bal s ph"
      by (rule mtx_upd_bal [OF ok u_def])
         (use False y q i in \<open>auto simp: set_wl_remove distinct_wl_remove wl_remove_def\<close>)
    ultimately show ?thesis using r by simp
  next
    case True
    have x: "w \<notin> set (m_waiters s)" "w_suspended ?x" "\<not> w_resumed ?x"
      using waiter_ok_pending [OF at True] by (auto simp: granted_ok_def)
    define y where "y = (w_abandon ?x)\<lparr>w_grant_pending := False\<rparr>"
    have d: "mtx_recover_cancelled_handoff_locked (mtx_set w y s) = (r, t)"
      using x True r by (simp add: lw_dtor_def y_def)
    have u: "mtx_ok (mtx_set w y s) (ph(w := Destroyed)) ps \<and>
        mtx_bal (mtx_set w y s) (ph(w := Destroyed)) = mtx_bal s ph - 1"
      by (rule mtx_upd_bal [OF ok mtx_set_make]) (use True x q i in \<open>auto simp: y_def\<close>)
    from mtx_recover_ok [OF conjunct1 [OF u] _ d] u st [OF True] show ?thesis by (simp add: mtx_set_def)
  qed
qed

lemma mtx_request_cancel_ok:
  assumes ok: "mtx_ok s ph ps" and c: "w_cancellable (m_ws s w)"
  shows "mtx_ok (mtx_request_cancel w s) ph ps \<and> mtx_bal (mtx_request_cancel w s) ph = mtx_bal s ph"
proof -
  let ?x = "m_ws s w"
  note at = mtx_ok_at [OF ok, of w]
  note q = mtx_ok_queue [OF ok]
  have at': "waiter_ok (w \<in> set (m_waiters s)) (w \<in> ps) (ph w) (w_request_cancel ?x)"
    by (rule waiter_ok_request_cancel [OF at c])
  have i: "inline_done ph (m_ws s) w = holds_inline (ph w) (w_request_cancel ?x)"
    using at c completing_request_cancel [of ?x] by (cases "ph w") (auto simp: inline_done_def)
  have "mtx_ok (mtx_request_cancel w s) (ph(w := ph w)) ps \<and>
        mtx_bal (mtx_request_cancel w s) (ph(w := ph w)) = mtx_bal s ph"
    by (rule mtx_upd_bal [OF ok mtx_request_cancel_def [unfolded mtx_set_make]]) (use at' q i in auto)
  then show ?thesis by simp
qed

lemma mtx_schedule_ok:
  assumes ok: "mtx_ok s ph ps" and w: "w \<in> ps"
  shows "mtx_ok (mtx_schedule w s) ph (ps - {w}) \<and> mtx_bal (mtx_schedule w s) ph = mtx_bal s ph"
proof -
  let ?x = "m_ws s w"
  note at = mtx_ok_at [OF ok, of w]
  note q = mtx_ok_queue [OF ok]
  have at': "waiter_ok (w \<in> set (m_waiters s)) False (ph w) (snd (w_schedule ?x))"
    using waiter_ok_schedule at w by simp
  have i: "\<not> inline_done ph (m_ws s) w" "\<not> holds_inline (ph w) (snd (w_schedule ?x))"
    using at w by (cases "ph w"; simp add: inline_done_def)+
  have g: "w_grant_pending (snd (w_schedule ?x)) = w_grant_pending ?x"
    by (simp add: w_schedule_def case_prod_beta Let_def)
  have "mtx_ok (mtx_schedule w s) (ph(w := ph w)) (ps - {w}) \<and>
        mtx_bal (mtx_schedule w s) (ph(w := ph w)) = mtx_bal s ph"
    by (rule mtx_upd_bal [OF ok mtx_schedule_def [unfolded mtx_set_make]]) (use at' q i g in auto)
  then show ?thesis by simp
qed

lemma mtx_new_waiter_ok:
  assumes ok: "mtx_ok s ph ps" and p: "ph w = Unborn"
  shows "mtx_ok (mtx_new_waiter w c s) (ph(w := Constructed)) ps \<and>
    mtx_bal (mtx_new_waiter w c s) (ph(w := Constructed)) = mtx_bal s ph"
  by (rule mtx_upd_bal [OF ok mtx_new_waiter_def [unfolded mtx_set_make]])
     (use mtx_ok_at [OF ok, of w] mtx_ok_queue [OF ok] p in
       \<open>auto simp: inline_done_def fresh_ok_def new_waiter_def make_wake_state_def\<close>)

lemma mtx_try_lock_ok:
  assumes "mtx_ok s ph ps" and "try_lock s = (r, t)"
  shows "mtx_ok t ph ps \<and> mtx_bal t ph = mtx_bal s ph - of_bool r"
  using assms by (auto simp: try_lock_def mtx_cas_def mtx_ok_def mtx_bal_def split: if_splits)

text \<open>Whoever owns the token in some other form, the lock word is not free.\<close>

lemma mtx_inv_locked:
  assumes "mtx_inv s" and "x_held s > 0 \<or> w_grant_pending (m_ws (mm s) w) \<or> x_ph s w = Locking"
  shows "m_state (mm s) \<noteq> None"
proof
  assume n: "m_state (mm s) = None"
  have inv: "wait_inv (m_waiters (mm s)) (m_ws (mm s)) (x_ph s) (x_ps s)"
    using assms(1) by (simp add: mtx_inv_def mtx_ok_def)
  have "pending (m_ws (mm s)) + inflight (x_ph s) (m_ws (mm s)) + x_held s = 0" "x_held s \<ge> 0"
    using assms(1) n by (simp_all add: mtx_inv_def mtx_bal_def)
  moreover have "x_held s > 0 \<or> 1 \<le> pending (m_ws (mm s)) \<or> 1 \<le> inflight (x_ph s) (m_ws (mm s))"
    using assms(2) pending_pos [OF inv] inflight_pos [OF inv, of w] by auto
  ultimately show False
    using pending_nonneg(1) [of "m_ws (mm s)"] pending_nonneg(2) [of "x_ph s" "m_ws (mm s)"] by linarith
qed

lemma mtx_exec_inv:
  assumes inv: "mtx_inv s" and en: "mtx_enabled s l"
  shows "\<exists>t. mtx_exec s l = Some t \<and> mtx_inv t"
proof -
  from inv have ok: "mtx_ok (mm s) (x_ph s) (x_ps s)" and h: "0 \<le> x_held s"
    and b: "mtx_bal (mm s) (x_ph s) + x_held s = 1" by (simp_all add: mtx_inv_def)
  note locked = mtx_inv_locked [OF inv]
  show ?thesis
  proof (cases l)
    case (ML_New w c)
    with en b h mtx_new_waiter_ok [OF ok, of w c] show ?thesis by (simp add: mtx_inv_def)
  next
    case ML_Try
    with b h mtx_try_lock_ok [OF ok] show ?thesis by (auto simp: mtx_inv_def split: prod.splits)
  next
    case (ML_Ready c w)
    with en b h lw_await_ready_lock_ok [OF ok, of w c _ _ , OF _ _ refl] show ?thesis
      by (simp add: mtx_inv_def case_prod_beta Let_def)
  next
    case (ML_Claim w)
    with en b h lw_await_ready_claim_ok [OF ok, of w] locked [of w] show ?thesis
      by (auto simp: mtx_inv_def split: prod.splits)
  next
    case (ML_Precheck hd w)
    then obtain r t where "lw_await_suspend_precheck hd w (mm s) = Some (r, t)"
        "mtx_ok t ((x_ph s)(w := if r then Completing else Emplaced)) (x_ps s)"
        "mtx_bal t ((x_ph s)(w := if r then Completing else Emplaced)) = mtx_bal (mm s) (x_ph s)"
      using en lw_precheck_ok [OF ok, of w hd] by auto
    with ML_Precheck b h show ?thesis by (simp add: mtx_inv_def)
  next
    case (ML_Suspend hd w)
    then obtain r t where "lw_await_suspend_non_cancellable hd w (mm s) = Some (r, t)"
        "mtx_ok t ((x_ph s)(w := if r then Suspended else Completing)) (x_ps s)"
        "mtx_bal t ((x_ph s)(w := if r then Suspended else Completing)) = mtx_bal (mm s) (x_ph s)"
      using en lw_suspend_nc_ok [OF ok, of w hd] by auto
    with ML_Suspend b h show ?thesis by (simp add: mtx_inv_def)
  next
    case (ML_Suspend_C c1 c2 hd w)
    then obtain susp r t where "lw_await_suspend_cancellable c1 c2 hd w (mm s) = Some (susp, r, t)"
        "mtx_ok t ((x_ph s)(w := if susp then Suspended else Completing)) (x_ps s \<union> set_option r)"
        "mtx_bal t ((x_ph s)(w := if susp then Suspended else Completing)) = mtx_bal (mm s) (x_ph s)"
      using en lw_suspend_c_ok [OF ok, of w c1 c2 hd] by auto
    with ML_Suspend_C b h show ?thesis by (simp add: mtx_inv_def)
  next
    case (ML_Resume w)
    with en b h lw_await_resume_ok [OF ok, of w] show ?thesis
      by (auto simp: mtx_inv_def split: prod.splits)
  next
    case (ML_Destroy w)
    with en b h lw_dtor_ok [OF ok, of w] locked [of w] show ?thesis
      by (auto simp: mtx_inv_def split: prod.splits)
  next
    case (ML_Cancel w)
    with en b h mtx_request_cancel_ok [OF ok, of w] show ?thesis by (simp add: mtx_inv_def)
  next
    case ML_Unlock
    with en b h mtx_recover_ok [OF ok] locked show ?thesis
      by (auto simp: mtx_inv_def mtx_unlock_def split: prod.splits)
  next
    case (ML_Schedule w)
    with en b h mtx_schedule_ok [OF ok, of w] show ?thesis by (simp add: mtx_inv_def)
  qed
qed

interpretation mtx: invariant_system mtx_init mtx_step mtx_inv
proof unfold_locales
  fix s show "mtx_init s \<Longrightarrow> mtx_inv s"
    by (simp add: mtx_init_def mtx_start_def mtx_inv_def mtx_ok_def mtx_bal_def mutex_ctor_def wait_inv_def
        pending_def inflight_def cnt_def inline_done_def new_waiter_def)
next
  fix s l t assume "mtx_inv s" "mtx_step s l t"
  then show "mtx_inv t" using mtx_exec_inv [of s l] by (auto simp: mtx_step_def exec_step_def)
qed

lemma mtx_start_reach: "reach mtx_init mtx_step mtx_start"
  by (rule reach_init) (simp add: mtx_init_def)

text \<open>A script for the witnesses: the lock is held, one cancelled and one plain waiter are queued.\<close>

definition mtx_script :: "mtx_label list" where
  "mtx_script =
     [ML_Try, ML_New 20 True, ML_Ready False 20, ML_Suspend_C False False 7 20,
      ML_New 30 False, ML_Ready False 30, ML_Precheck 8 30, ML_Suspend 8 30, ML_Cancel 20]"

lemmas mtx_op_defs = mutex_ctor_def mtx_set_def mtx_new_waiter_def try_lock_def mtx_cas_def
  lw_await_ready_lock_def lw_await_ready_claim_def lw_await_suspend_precheck_def
  lw_await_suspend_non_cancellable_def lw_await_suspend_cancellable_def lw_await_resume_def
  lw_dtor_def mtx_request_cancel_def mtx_schedule_def wl_push_back_def wl_remove_def

lemma mtx_script_run:
  "\<exists>t. run_labels mtx_enabled mtx_exec mtx_start mtx_script = Some t \<and>
     m_waiters (mm t) = [20, 30] \<and> w_was_cancelled (m_ws (mm t) 20) \<and>
     \<not> w_was_cancelled (m_ws (mm t) 30) \<and> x_ph t 30 = Suspended \<and> x_ph t 20 = Suspended \<and> x_held t = 1"
  by (simp add: mtx_script_def mtx_start_def mtx_op_defs waiter_defs wake_op_defs Let_def)

lemma mtx_script_reach:
  "\<exists>t. run_labels mtx_enabled mtx_exec mtx_start mtx_script = Some t \<and> reach mtx_init mtx_step t \<and>
     m_waiters (mm t) = [20, 30] \<and> w_was_cancelled (m_ws (mm t) 20) \<and>
     \<not> w_was_cancelled (m_ws (mm t) 30) \<and> x_ph t 30 = Suspended \<and> x_ph t 20 = Suspended \<and> x_held t = 1"
  using mtx_script_run mtx_start_reach reach_run_labels unfolding mtx_step_def by metis

section \<open>Properties\<close>

text \<open>
  C10: mutual exclusion. In every reachable state at most one client owns the lock,
  and while one does, the lock word is set and the lock is neither reserved for a
  waiter nor with an acquire that is about to return. Cancellation racing with
  try\_lock inside await\_ready, and destruction of a frame that was just granted
  the lock, are included.
\<close>

theorem mutex_mutual_exclusion:
  assumes "reach mtx_init mtx_step s"
  shows "0 \<le> x_held s \<and>
    of_bool (\<not> is_locked (mm s)) + pending (m_ws (mm s)) + inflight (x_ph s) (m_ws (mm s)) + x_held s = 1 \<and>
    x_held s \<le> 1 \<and>
    (x_held s = 1 \<longrightarrow> is_locked (mm s) \<and> (\<forall>w. \<not> w_grant_pending (m_ws (mm s) w)))"
proof -
  have inv: "mtx_inv s" by (rule mtx.reach_inv [OF assms])
  then have h: "0 \<le> x_held s"
    and b: "of_bool (\<not> is_locked (mm s)) + pending (m_ws (mm s)) + inflight (x_ph s) (m_ws (mm s)) + x_held s = 1"
    and w: "wait_inv (m_waiters (mm s)) (m_ws (mm s)) (x_ph s) (x_ps s)"
    by (auto simp: mtx_inv_def mtx_bal_def is_locked_def mtx_ok_def)
  note nn = pending_nonneg(1) [of "m_ws (mm s)"] pending_nonneg(2) [of "x_ph s" "m_ws (mm s)"]
  have o: "(0::int) \<le> of_bool (\<not> is_locked (mm s))" by simp
  have "x_held s \<le> 1" using b nn o by linarith
  moreover have "\<not> w_grant_pending (m_ws (mm s) v)" if "x_held s = 1" for v
  proof
    assume "w_grant_pending (m_ws (mm s) v)"
    from pending_pos [OF w this] b nn o that show False by linarith
  qed
  moreover have "is_locked (mm s)" if "x_held s = 1"
    using mtx_inv_locked [OF inv] that by (auto simp: is_locked_def)
  ultimately show ?thesis using h b by blast
qed

theorem mutex_mutual_exclusion_witness:
  "\<exists>t. run_labels mtx_enabled mtx_exec mtx_start mtx_script = Some t \<and> x_held t = 1 \<and> is_locked (mm t)"
proof -
  obtain t where t: "run_labels mtx_enabled mtx_exec mtx_start mtx_script = Some t"
      "reach mtx_init mtx_step t" "x_held t = 1"
    using mtx_script_reach by blast
  from mutex_mutual_exclusion [OF t(2)] t show ?thesis by blast
qed

text \<open>
  C11: no wake-up is lost. A suspended waiter is queued behind a lock that is held, or
  was granted the lock and has been scheduled or is about to be, or was cancelled
  and has been scheduled. When the lock is free nobody is queued.
\<close>

theorem mutex_no_lost_wakeup:
  assumes "reach mtx_init mtx_step s" and "x_ph s w = Suspended"
  shows "let x = m_ws (mm s) w in
    (w \<in> set (m_waiters (mm s)) \<and> \<not> w_grant_pending x \<and> is_locked (mm s)) \<or>
    (w \<notin> set (m_waiters (mm s)) \<and> w_grant_pending x \<and> (w_scheduling x \<or> w \<in> x_ps s)) \<or>
    (w \<notin> set (m_waiters (mm s)) \<and> \<not> w_grant_pending x \<and> w_was_cancelled x \<and> w_scheduling x)"
proof -
  have ok: "mtx_ok (mm s) (x_ph s) (x_ps s)" using mtx.reach_inv [OF assms(1)] by (simp add: mtx_inv_def)
  have "w \<in> set (m_waiters (mm s)) \<Longrightarrow> is_locked (mm s)"
    using mtx_ok_queue [OF ok] by (auto simp: is_locked_def)
  with mtx_ok_at [OF ok, of w] assms(2) show ?thesis
    by (auto simp: Let_def queued_ok_def cancelled_ok_def w_was_cancelled_def was_cancelled_def
        w_scheduling_def scheduling_states_def split: if_splits)
qed

theorem mutex_no_lost_wakeup_witness:
  "\<exists>t. run_labels mtx_enabled mtx_exec mtx_start mtx_script = Some t \<and> x_ph t 30 = Suspended \<and>
     (let x = m_ws (mm t) 30 in
      (30 \<in> set (m_waiters (mm t)) \<and> \<not> w_grant_pending x \<and> is_locked (mm t)) \<or>
      (30 \<notin> set (m_waiters (mm t)) \<and> w_grant_pending x \<and> (w_scheduling x \<or> 30 \<in> x_ps t)) \<or>
      (30 \<notin> set (m_waiters (mm t)) \<and> \<not> w_grant_pending x \<and> w_was_cancelled x \<and> w_scheduling x))"
proof -
  obtain t where t: "run_labels mtx_enabled mtx_exec mtx_start mtx_script = Some t"
      "reach mtx_init mtx_step t" "x_ph t 30 = Suspended"
    using mtx_script_reach by blast
  from mutex_no_lost_wakeup [OF t(2,3)] t show ?thesis by blast
qed

text \<open>
  C12: unlock hands the lock to the waiter that arrived first among those that were not
  cancelled, and frees the lock exactly when there is none.
\<close>

theorem mutex_unlock_in_order:
  assumes "reach mtx_init mtx_step s" and "mtx_unlock (mm s) = (r, t)"
  shows "r = hd_opt (filter (\<lambda>w. \<not> w_was_cancelled (m_ws (mm s) w)) (m_waiters (mm s))) \<and>
    is_locked t = (r \<noteq> None)"
proof -
  have ok: "mtx_ok (mm s) (x_ph s) (x_ps s)" using mtx.reach_inv [OF assms(1)] by (simp add: mtx_inv_def)
  have "filter (\<lambda>w. \<not> rejects (m_ws (mm s) w)) (m_waiters (mm s)) =
        filter (\<lambda>w. \<not> w_was_cancelled (m_ws (mm s) w)) (m_waiters (mm s))"
    by (rule filter_cong) (use queued_rejects [OF mtx_ok_queued [OF ok]] in auto)
  with assms(2) show ?thesis
    by (cases "filter (\<lambda>w. \<not> w_was_cancelled (m_ws (mm s) w)) (m_waiters (mm s))")
       (auto simp: mtx_unlock_def mtx_recover_cancelled_handoff_locked_def claim_waiter_locked_head is_locked_def)
qed

theorem mutex_unlock_in_order_witness:
  "\<exists>s t. run_labels mtx_enabled mtx_exec mtx_start mtx_script = Some s \<and>
     m_waiters (mm s) = [20, 30] \<and> mtx_unlock (mm s) = (Some 30, t)"
proof -
  obtain s where s: "run_labels mtx_enabled mtx_exec mtx_start mtx_script = Some s"
      "reach mtx_init mtx_step s" "m_waiters (mm s) = [20, 30]"
      "w_was_cancelled (m_ws (mm s) 20)" "\<not> w_was_cancelled (m_ws (mm s) 30)"
    using mtx_script_reach by blast
  obtain r t where u: "mtx_unlock (mm s) = (r, t)" by fastforce
  with mutex_unlock_in_order [OF s(2) u] s show ?thesis by auto
qed

end
