(* ===== verification/Elio_Event.thy ===== *)
theory Elio_Event
  imports Waiters
begin

text \<open>
  The manual-reset event (src/include/elio/sync/event.hpp): its flag, its waiters, all
  operations and all their interleavings. An event waiter uses the fields \<open>w_wake\<close>,
  \<open>w_cancellable\<close> and \<open>w_suspended\<close> of a waiter; an event hands over no resource, so
  the other two stay \<open>False\<close>. await\_ready and the first test of await\_suspend read
  the flag outside the critical section and are steps of their own.
\<close>

record event =
  ev_signaled :: bool
  ev_waiters :: "addr list"
  ev_ws :: waiter_map

section \<open>Operations\<close>

definition ev_upd :: "addr \<Rightarrow> waiter \<Rightarrow> event \<Rightarrow> event" where
  "ev_upd w x s = s\<lparr>ev_ws := (ev_ws s)(w := x)\<rparr>"

definition event_ctor :: event where
  "event_ctor = \<lparr>ev_signaled = False, ev_waiters = [], ev_ws = (\<lambda>_. new_waiter False)\<rparr>"

text \<open>A waiter without a token starts without a wake state, one with a token has one.\<close>

definition ev_new_waiter :: "addr \<Rightarrow> bool \<Rightarrow> event \<Rightarrow> event" where
  "ev_new_waiter w cancellable s = ev_upd w (new_waiter cancellable) s"

definition ev_is_set :: "event \<Rightarrow> bool" where
  "ev_is_set s = ev_signaled s"

definition ev_reset :: "event \<Rightarrow> event" where
  "ev_reset s = s\<lparr>ev_signaled := False\<rparr>"

text \<open>The loop of set: the waiters to schedule, and the waiters after their claims.\<close>

fun ev_set_loop :: "waiter_map \<Rightarrow> addr list \<Rightarrow> addr list \<times> waiter_map" where
  "ev_set_loop m [] = ([], m)"
| "ev_set_loop m (w # q) =
     (if w_cancellable (m w) then
        let (a, x) = w_claim (m w) in
        if a = Rejected then ev_set_loop (m(w := x)) q
        else let (ws, m') = ev_set_loop (m(w := x)) q in (w # ws, m')
      else let (ws, m') = ev_set_loop m q in (w # ws, m'))"

definition ev_set :: "event \<Rightarrow> addr list \<times> event" where
  "ev_set s =
     (let (ws, m) = ev_set_loop (ev_ws s) (ev_waiters s) in
      (ws, \<lparr>ev_signaled = True, ev_waiters = [], ev_ws = m\<rparr>))"

text \<open>
  await\_ready; \<open>c\<close>: a request arrives after the test of was\_cancelled. The result
  of the claim is ignored, as in the source.
\<close>

definition ev_await_ready :: "bool \<Rightarrow> addr \<Rightarrow> event \<Rightarrow> bool \<times> event" where
  "ev_await_ready c w s =
     (let x = ev_ws s w in
      if \<not> w_cancellable x then (ev_signaled s, s)
      else if w_was_cancelled x then (True, s)
      else
        let x1 = cancel_if c x in
        if \<not> ev_signaled s then (False, ev_upd w x1 s)
        else (True, ev_upd w (snd (w_claim x1)) s))"

text \<open>await\_suspend without a token: the test before the allocation, then the critical section.\<close>

definition ev_await_suspend_precheck :: "addr \<Rightarrow> event \<Rightarrow> bool \<times> event" where
  "ev_await_suspend_precheck w s =
     (if ev_signaled s then (True, s)
      else (False, ev_upd w ((ev_ws s w)\<lparr>w_wake := Some make_wake_state\<rparr>) s))"

definition ev_await_suspend_non_cancellable :: "coro_handle \<Rightarrow> addr \<Rightarrow> event \<Rightarrow> (bool \<times> event) option" where
  "ev_await_suspend_non_cancellable h w s =
     (if ev_signaled s then Some (False, s)
      else
        let x = ev_ws s w in
        case wl_push_back w (ev_waiters s) of
          None \<Rightarrow> None
        | Some q \<Rightarrow>
            Some (True, (ev_upd w (x\<lparr>w_wake := map_option (set_handle h) (w_wake x), w_suspended := True\<rparr>) s)
              \<lparr>ev_waiters := q\<rparr>))"

definition ev_await_suspend_cancellable ::
    "bool \<Rightarrow> bool \<Rightarrow> coro_handle \<Rightarrow> addr \<Rightarrow> event \<Rightarrow> (bool \<times> event) option" where
  "ev_await_suspend_cancellable c1 c2 h w s =
     (let x = ev_ws s w in
      if w_was_cancelled x then Some (False, s)
      else
        let x1 = cancel_if c1 x in
        if ev_signaled s then Some (False, ev_upd w (snd (w_claim x1)) s)
        else
          let (ok, x2) = w_set_handle_blocked h x1 in
          if \<not> ok then Some (False, ev_upd w x2 s)
          else
            (case wl_push_back w (ev_waiters s) of
               None \<Rightarrow> None
             | Some q \<Rightarrow>
                 let (ok', x3) = w_unblock_after_publish (cancel_if c2 (x2\<lparr>w_suspended := True\<rparr>)) in
                 if ok' then Some (True, (ev_upd w x3 s)\<lparr>ev_waiters := q\<rparr>)
                 else Some (False, (ev_upd w (x3\<lparr>w_suspended := False\<rparr>) s)\<lparr>ev_waiters := wl_remove w q\<rparr>)))"

definition ev_await_resume :: "addr \<Rightarrow> event \<Rightarrow> cancel_result \<times> event" where
  "ev_await_resume w s =
     (let x = ev_ws s w in
      if \<not> w_cancellable x then (Completed, ev_upd w (x\<lparr>w_suspended := False\<rparr>) s)
      else if w_was_cancelled x then
        (Cancelled,
         if w_suspended x then
           (ev_upd w (x\<lparr>w_suspended := False\<rparr>) s)\<lparr>ev_waiters := wl_remove w (ev_waiters s)\<rparr>
         else s)
      else (Completed, ev_upd w (x\<lparr>w_suspended := False\<rparr>) s))"

definition ev_waiter_dtor :: "addr \<Rightarrow> event \<Rightarrow> event" where
  "ev_waiter_dtor w s =
     (let x = ev_ws s w in
      if \<not> w_suspended x then s
      else (ev_upd w (w_abandon x) s)\<lparr>ev_waiters := wl_remove w (ev_waiters s)\<rparr>)"

definition ev_request_cancel :: "addr \<Rightarrow> event \<Rightarrow> event" where
  "ev_request_cancel w s = ev_upd w (w_request_cancel (ev_ws s w)) s"

definition ev_schedule :: "addr \<Rightarrow> event \<Rightarrow> event" where
  "ev_schedule w s = ev_upd w (snd (w_schedule (ev_ws s w))) s"

section \<open>All interleavings\<close>

text \<open>\<open>e_ever\<close> records that set was called at least once.\<close>

record ev_sys =
  ee :: event
  e_ph :: "addr \<Rightarrow> phase"
  e_ps :: "addr set"
  e_ever :: bool

datatype ev_label =
    EL_New addr bool
  | EL_Ready bool addr
  | EL_Precheck addr
  | EL_Suspend coro_handle addr
  | EL_Suspend_C bool bool coro_handle addr
  | EL_Resume addr
  | EL_Destroy addr
  | EL_Cancel addr
  | EL_Set
  | EL_Reset
  | EL_Schedule addr

fun ev_enabled :: "ev_sys \<Rightarrow> ev_label \<Rightarrow> bool" where
  "ev_enabled s (EL_New w c) \<longleftrightarrow> e_ph s w = Unborn"
| "ev_enabled s (EL_Ready c w) \<longleftrightarrow> e_ph s w = Constructed"
| "ev_enabled s (EL_Precheck w) \<longleftrightarrow> e_ph s w = Not_Ready \<and> \<not> w_cancellable (ev_ws (ee s) w)"
| "ev_enabled s (EL_Suspend h w) \<longleftrightarrow> e_ph s w = Emplaced"
| "ev_enabled s (EL_Suspend_C c1 c2 h w) \<longleftrightarrow> e_ph s w = Not_Ready \<and> w_cancellable (ev_ws (ee s) w)"
| "ev_enabled s (EL_Resume w) \<longleftrightarrow> can_resume (e_ph s) (ev_ws (ee s)) w"
| "ev_enabled s (EL_Destroy w) \<longleftrightarrow> can_destroy (e_ph s) w"
| "ev_enabled s (EL_Cancel w) \<longleftrightarrow> w_cancellable (ev_ws (ee s) w)"
| "ev_enabled s EL_Set \<longleftrightarrow> True"
| "ev_enabled s EL_Reset \<longleftrightarrow> True"
| "ev_enabled s (EL_Schedule w) \<longleftrightarrow> w \<in> e_ps s"

fun ev_exec :: "ev_sys \<Rightarrow> ev_label \<Rightarrow> ev_sys option" where
  "ev_exec s (EL_New w c) = Some (s\<lparr>ee := ev_new_waiter w c (ee s), e_ph := (e_ph s)(w := Constructed)\<rparr>)"
| "ev_exec s (EL_Ready c w) =
     (let (r, t) = ev_await_ready c w (ee s) in
      Some (s\<lparr>ee := t, e_ph := (e_ph s)(w := if r then Completing else Not_Ready)\<rparr>))"
| "ev_exec s (EL_Precheck w) =
     (let (r, t) = ev_await_suspend_precheck w (ee s) in
      Some (s\<lparr>ee := t, e_ph := (e_ph s)(w := if r then Completing else Emplaced)\<rparr>))"
| "ev_exec s (EL_Suspend h w) =
     map_option (\<lambda>(r, t). s\<lparr>ee := t, e_ph := (e_ph s)(w := if r then Suspended else Completing)\<rparr>)
       (ev_await_suspend_non_cancellable h w (ee s))"
| "ev_exec s (EL_Suspend_C c1 c2 h w) =
     map_option (\<lambda>(r, t). s\<lparr>ee := t, e_ph := (e_ph s)(w := if r then Suspended else Completing)\<rparr>)
       (ev_await_suspend_cancellable c1 c2 h w (ee s))"
| "ev_exec s (EL_Resume w) =
     Some (s\<lparr>ee := snd (ev_await_resume w (ee s)), e_ph := (e_ph s)(w := Finished)\<rparr>)"
| "ev_exec s (EL_Destroy w) = Some (s\<lparr>ee := ev_waiter_dtor w (ee s), e_ph := (e_ph s)(w := Destroyed)\<rparr>)"
| "ev_exec s (EL_Cancel w) = Some (s\<lparr>ee := ev_request_cancel w (ee s)\<rparr>)"
| "ev_exec s EL_Set =
     (let (ws, t) = ev_set (ee s) in Some (s\<lparr>ee := t, e_ps := e_ps s \<union> set ws, e_ever := True\<rparr>))"
| "ev_exec s EL_Reset = Some (s\<lparr>ee := ev_reset (ee s)\<rparr>)"
| "ev_exec s (EL_Schedule w) = Some (s\<lparr>ee := ev_schedule w (ee s), e_ps := e_ps s - {w}\<rparr>)"

definition ev_step :: "ev_sys \<Rightarrow> ev_label \<Rightarrow> ev_sys \<Rightarrow> bool" where
  "ev_step = exec_step ev_enabled ev_exec"

definition ev_start :: ev_sys where
  "ev_start = \<lparr>ee = event_ctor, e_ph = (\<lambda>_. Unborn), e_ps = {}, e_ever = False\<rparr>"

definition ev_init :: "ev_sys \<Rightarrow> bool" where
  "ev_init s \<longleftrightarrow> s = ev_start"

section \<open>Invariant\<close>

definition woken_ok :: "waiter \<Rightarrow> bool" where
  "woken_ok x \<longleftrightarrow> w_suspended x \<and>
     (\<exists>k. w_wake x = Some k \<and>
        (ws_state k = Notification_Scheduling \<or>
         ws_state k = (if w_cancellable x then Notification_Claimed else Waiting)))"

fun ev_waiter_ok :: "bool \<Rightarrow> bool \<Rightarrow> bool \<Rightarrow> phase \<Rightarrow> waiter \<Rightarrow> bool" where
  "ev_waiter_ok ever inq sched Unborn x \<longleftrightarrow> \<not> inq \<and> \<not> sched"
| "ev_waiter_ok ever inq sched Constructed x \<longleftrightarrow> \<not> inq \<and> \<not> sched \<and> fresh_ok x"
| "ev_waiter_ok ever inq sched Not_Ready x \<longleftrightarrow> \<not> inq \<and> \<not> sched \<and> fresh_ok x"
| "ev_waiter_ok ever inq sched Locking x \<longleftrightarrow> False"
| "ev_waiter_ok ever inq sched Emplaced x \<longleftrightarrow> \<not> inq \<and> \<not> sched \<and> emplaced_ok x"
| "ev_waiter_ok ever inq sched Suspended x \<longleftrightarrow>
     (if inq then \<not> sched \<and> queued_ok x
      else if sched then woken_ok x \<and> \<not> w_scheduling x \<and> ever
      else (woken_ok x \<and> w_scheduling x \<and> ever) \<or> cancelled_ok x)"
| "ev_waiter_ok ever inq sched Completing x \<longleftrightarrow>
     \<not> inq \<and> \<not> sched \<and> completing_ok x \<and> (\<not> w_was_cancelled x \<longrightarrow> ever)"
| "ev_waiter_ok ever inq sched Finished x \<longleftrightarrow> \<not> inq \<and> \<not> sched \<and> \<not> w_suspended x"
| "ev_waiter_ok ever inq sched Destroyed x \<longleftrightarrow> \<not> inq"

definition ev_ok :: "event \<Rightarrow> (addr \<Rightarrow> phase) \<Rightarrow> addr set \<Rightarrow> bool \<Rightarrow> bool" where
  "ev_ok s ph ps ever \<longleftrightarrow> distinct (ev_waiters s) \<and> (ev_signaled s \<longrightarrow> ev_waiters s = [] \<and> ever) \<and>
     (\<forall>w. ev_waiter_ok ever (w \<in> set (ev_waiters s)) (w \<in> ps) (ph w) (ev_ws s w))"

definition ev_inv :: "ev_sys \<Rightarrow> bool" where
  "ev_inv s \<longleftrightarrow> ev_ok (ee s) (e_ph s) (e_ps s) (e_ever s)"

lemma ev_ok_upd:
  assumes "ev_ok s ph ps ever" "ev_ws t = (ev_ws s)(w := x)" "ev_signaled t = ev_signaled s"
    and "distinct (ev_waiters t)" "ev_signaled s \<longrightarrow> ev_waiters t = []"
    and "\<And>v. v \<noteq> w \<Longrightarrow> (v \<in> set (ev_waiters t) \<longleftrightarrow> v \<in> set (ev_waiters s)) \<and> (v \<in> ps' \<longleftrightarrow> v \<in> ps)"
    and "ev_waiter_ok ever (w \<in> set (ev_waiters t)) (w \<in> ps') p x"
  shows "ev_ok t (ph(w := p)) ps' ever"
  using assms by (simp add: ev_ok_def)

lemma ev_ok_at:
  "ev_ok s ph ps ever \<Longrightarrow> ev_waiter_ok ever (w \<in> set (ev_waiters s)) (w \<in> ps) (ph w) (ev_ws s w)"
  by (simp add: ev_ok_def)

lemma ev_ok_queue:
  "ev_ok s ph ps ever \<Longrightarrow> distinct (ev_waiters s) \<and> (ev_signaled s \<longrightarrow> ev_waiters s = [] \<and> ever)"
  by (simp add: ev_ok_def)

lemma ev_upd_sel [simp]:
  "ev_ws (ev_upd w x s) = (ev_ws s)(w := x)"
  "ev_signaled (ev_upd w x s) = ev_signaled s"
  "ev_waiters (ev_upd w x s) = ev_waiters s"
  by (simp_all add: ev_upd_def)

section \<open>set wakes every waiter\<close>

lemma ev_set_loop_eq:
  "distinct q \<Longrightarrow> ev_set_loop m q =
     (filter (\<lambda>w. \<not> rejects (m w)) q,
      \<lambda>w. if w \<in> set q \<and> w_cancellable (m w) then snd (w_claim (m w)) else m w)"
proof (induction q arbitrary: m)
  case Nil
  then show ?case by simp
next
  case (Cons w q)
  show ?case
    using Cons.prems
    by (auto simp: Cons.IH rejects_def case_prod_beta Let_def w_claim_rejected intro!: filter_cong)
qed

lemma woken_queued:
  "queued_ok x \<Longrightarrow> \<not> rejects x \<Longrightarrow>
   y = (if w_cancellable x then snd (w_claim x) else x) \<Longrightarrow> woken_ok y \<and> \<not> w_scheduling y"
  by (auto simp: queued_ok_def rejects_def woken_ok_def w_scheduling_def w_claim_def claim_wake_state_def
      scheduling_states_def wake_op_defs)

lemma ev_set_ok:
  assumes ok: "ev_ok s ph ps ever" and r: "ev_set s = (ws, t)"
  shows "ev_ok t ph (ps \<union> set ws) True \<and> ev_signaled t \<and>
    ws = filter (\<lambda>w. \<not> w_was_cancelled (ev_ws s w)) (ev_waiters s)"
proof -
  have d: "distinct (ev_waiters s)" using ok by (simp add: ev_ok_def)
  let ?m = "\<lambda>w. if w \<in> set (ev_waiters s) \<and> w_cancellable (ev_ws s w) then snd (w_claim (ev_ws s w)) else ev_ws s w"
  have t: "t = \<lparr>ev_signaled = True, ev_waiters = [], ev_ws = ?m\<rparr>"
    and ws: "ws = filter (\<lambda>w. \<not> rejects (ev_ws s w)) (ev_waiters s)"
    using r by (auto simp: ev_set_def ev_set_loop_eq [OF d])
  have qd: "ph w = Suspended \<and> w \<notin> ps \<and> queued_ok (ev_ws s w)" if "w \<in> set (ev_waiters s)" for w
    using ev_ok_at [OF ok, of w] that by (cases "ph w") simp_all
  have "ev_waiter_ok True False (w \<in> ps \<union> set ws) (ph w) (?m w)" for w
  proof (cases "w \<in> set (ev_waiters s)")
    case False
    with ev_ok_at [OF ok, of w] show ?thesis by (cases "ph w") (auto simp: ws split: if_splits)
  next
    case True
    note qw = qd [OF True]
    show ?thesis
    proof (cases "rejects (ev_ws s w)")
      case rj: True
      then have "snd (w_claim (ev_ws s w)) = ev_ws s w" by (simp add: rejects_def w_claim_rejected)
      with rj qw rejects_queued [of "ev_ws s w"] show ?thesis by (auto simp: ws)
    next
      case False
      with True qw woken_queued [of "ev_ws s w" "?m w"] show ?thesis by (auto simp: ws)
    qed
  qed
  moreover have "filter (\<lambda>w. \<not> rejects (ev_ws s w)) (ev_waiters s) =
      filter (\<lambda>w. \<not> w_was_cancelled (ev_ws s w)) (ev_waiters s)"
    by (rule filter_cong) (use qd queued_rejects in auto)
  ultimately show ?thesis by (simp add: ev_ok_def t ws)
qed

section \<open>Every operation keeps the invariant\<close>

lemma ev_await_ready_ok:
  assumes ok: "ev_ok s ph ps ever" and p: "ph w = Constructed" and r: "ev_await_ready c w s = (r, t)"
  shows "ev_ok t (ph(w := if r then Completing else Not_Ready)) ps ever"
proof -
  let ?x = "ev_ws s w"
  have x: "w \<notin> set (ev_waiters s)" "w \<notin> ps" "fresh_ok ?x"
    using ev_ok_at [OF ok, of w] p by simp_all
  note q = ev_ok_queue [OF ok]
  have keep: "ev_ok u (ph(w := p)) ps ever"
    if "u = s \<and> y = ?x \<or> u = ev_upd w y s" "ev_waiter_ok ever False False p y" for u p y
    by (rule ev_ok_upd [OF ok, where x = y]) (use that x q in auto)
  show ?thesis
  proof (cases "w_cancellable ?x")
    case False
    with x(3) have "completing_ok ?x" by (auto simp: waiter_defs)
    with False r x q keep [of s ?x] show ?thesis by (auto simp: ev_await_ready_def)
  next
    case ca: True
    show ?thesis
    proof (cases "w_was_cancelled ?x")
      case True
      with ca x(3) have "completing_ok ?x" by (auto simp: waiter_defs wake_op_defs)
      with True ca r keep [of s ?x Completing] show ?thesis by (auto simp: ev_await_ready_def)
    next
      case False
      have "fresh_ok (cancel_if c ?x)" using ca x(3) by (auto simp: waiter_defs wake_op_defs)
      with False ca r q keep [of _ "cancel_if c ?x" Not_Ready]
        keep [of _ "snd (w_claim (cancel_if c ?x))" Completing] fresh_cancellable_race(2) [OF x(3) ca False, of c]
      show ?thesis by (cases "ev_signaled s") (auto simp: ev_await_ready_def Let_def)
    qed
  qed
qed

lemma ev_precheck_ok:
  assumes ok: "ev_ok s ph ps ever" and p: "ph w = Not_Ready" and nc: "\<not> w_cancellable (ev_ws s w)"
    and r: "ev_await_suspend_precheck w s = (r, t)"
  shows "ev_ok t (ph(w := if r then Completing else Emplaced)) ps ever"
proof -
  have x: "w \<notin> set (ev_waiters s)" "w \<notin> ps" "fresh_ok (ev_ws s w)"
    using ev_ok_at [OF ok, of w] p by simp_all
  note q = ev_ok_queue [OF ok]
  show ?thesis
  proof (cases "ev_signaled s")
    case True
    have "ev_ok s (ph(w := Completing)) ps ever"
      by (rule ev_ok_upd [OF ok, where x = "ev_ws s w"]) (use True x q nc in \<open>auto simp: waiter_defs\<close>)
    with True r show ?thesis by (simp add: ev_await_suspend_precheck_def)
  next
    case False
    have "ev_ok (ev_upd w ((ev_ws s w)\<lparr>w_wake := Some make_wake_state\<rparr>) s) (ph(w := Emplaced)) ps ever"
      by (rule ev_ok_upd [OF ok, OF ev_upd_sel(1)]) (use False x q nc in \<open>auto simp: waiter_defs\<close>)
    with False r show ?thesis by (auto simp: ev_await_suspend_precheck_def)
  qed
qed

lemma ev_suspend_nc_ok:
  assumes ok: "ev_ok s ph ps ever" and p: "ph w = Emplaced"
  shows "\<exists>r t. ev_await_suspend_non_cancellable h w s = Some (r, t) \<and>
    ev_ok t (ph(w := if r then Suspended else Completing)) ps ever"
proof -
  let ?x = "ev_ws s w"
  have x: "w \<notin> set (ev_waiters s)" "w \<notin> ps" "emplaced_ok ?x"
    using ev_ok_at [OF ok, of w] p by simp_all
  note q = ev_ok_queue [OF ok]
  show ?thesis
  proof (cases "ev_signaled s")
    case True
    have "ev_ok s (ph(w := Completing)) ps ever"
      by (rule ev_ok_upd [OF ok, where x = ?x]) (use True x q in \<open>auto simp: waiter_defs wake_op_defs\<close>)
    with True show ?thesis by (auto simp: ev_await_suspend_non_cancellable_def)
  next
    case False
    let ?y = "?x\<lparr>w_wake := map_option (set_handle h) (w_wake ?x), w_suspended := True\<rparr>"
    have "ev_ok ((ev_upd w ?y s)\<lparr>ev_waiters := ev_waiters s @ [w]\<rparr>) (ph(w := Suspended)) ps ever"
      by (rule ev_ok_upd [OF ok, where x = ?y]) (use False x q in \<open>auto simp: waiter_defs wake_op_defs\<close>)
    with False x(1) show ?thesis
      by (auto simp: ev_await_suspend_non_cancellable_def wl_push_back_def Let_def)
  qed
qed

lemma ev_suspend_c_ok:
  assumes ok: "ev_ok s ph ps ever" and p: "ph w = Not_Ready" and ca: "w_cancellable (ev_ws s w)"
  shows "\<exists>r t. ev_await_suspend_cancellable c1 c2 h w s = Some (r, t) \<and>
    ev_ok t (ph(w := if r then Suspended else Completing)) ps ever"
proof -
  let ?x = "ev_ws s w"
  have x: "w \<notin> set (ev_waiters s)" "w \<notin> ps" "fresh_ok ?x"
    using ev_ok_at [OF ok, of w] p by simp_all
  note q = ev_ok_queue [OF ok]
  have keep: "ev_ok (ev_upd w y s) (ph(w := Completing)) ps ever"
    if "completing_ok y" "w_was_cancelled y \<or> ever" for y
    by (rule ev_ok_upd [OF ok, where x = y]) (use that x q in auto)
  show ?thesis
  proof (cases "w_was_cancelled ?x")
    case True
    with ca x(3) have "completing_ok ?x" by (auto simp: waiter_defs wake_op_defs)
    with True x q have "ev_ok s (ph(w := Completing)) ps ever"
      by (intro ev_ok_upd [OF ok, where x = ?x]) auto
    with True show ?thesis by (auto simp: ev_await_suspend_cancellable_def)
  next
    case nwc: False
    note race = fresh_cancellable_race [OF x(3) ca nwc]
    show ?thesis
    proof (cases "ev_signaled s")
      case True
      with q keep [OF race(2) [of c1]] nwc show ?thesis
        by (auto simp: ev_await_suspend_cancellable_def Let_def)
    next
      case False
      let ?y = "snd (w_set_handle_blocked h (cancel_if c1 ?x))"
      let ?z = "w_unblock_after_publish (cancel_if c2 (?y\<lparr>w_suspended := True\<rparr>))"
      have b: "ev_ok ((ev_upd w y s)\<lparr>ev_waiters := ev_waiters s @ [w]\<rparr>) (ph(w := Suspended)) ps ever"
        if "queued_ok y" for y
        by (rule ev_ok_upd [OF ok, where x = y]) (use that False x q in auto)
      have rm: "wl_remove w (ev_waiters s @ [w]) = ev_waiters s"
        using x(1) by (auto simp: wl_remove_def filter_id_conv)
      have same: "(ev_upd w y s)\<lparr>ev_waiters := ev_waiters s\<rparr> = ev_upd w y s" for y
        by (simp add: ev_upd_def)
      show ?thesis
        using keep [of ?y] keep [of "(snd ?z)\<lparr>w_suspended := False\<rparr>"] b [of "snd ?z"]
          race(4) [where c = c1 and h = h] race(5) [where c = c1 and h = h]
          race(6) [where c = c1 and h = h and d = c2 and z = ?z] False nwc x(1)
        by (cases c1; cases c2)
           (auto simp: ev_await_suspend_cancellable_def Let_def case_prod_beta wl_push_back_def rm same)
    qed
  qed
qed

lemma ev_resume_cases:
  assumes "ev_waiter_ok ever inq sched p x" "p = Completing \<or> p = Suspended \<and> w_scheduling x"
  shows "\<not> sched" and "w_cancellable x \<and> w_was_cancelled x \<or> (\<not> inq \<and> ever)"
    and "\<not> w_suspended x \<Longrightarrow> \<not> inq"
  using assms
  by (auto simp: waiter_defs woken_ok_def wake_op_defs split: if_splits)

lemma ev_await_resume_ok:
  assumes ok: "ev_ok s ph ps ever" and p: "can_resume ph (ev_ws s) w"
  shows "ev_ok (snd (ev_await_resume w s)) (ph(w := Finished)) ps ever \<and>
    (fst (ev_await_resume w s) = Completed \<longrightarrow> ever)"
proof -
  let ?x = "ev_ws s w"
  let ?q = "wl_remove w (ev_waiters s)"
  have c: "w \<notin> ps" "w_cancellable ?x \<and> w_was_cancelled ?x \<or> (w \<notin> set (ev_waiters s) \<and> ever)"
      "\<not> w_suspended ?x \<Longrightarrow> w \<notin> set (ev_waiters s)"
    using ev_resume_cases [OF ev_ok_at [OF ok, of w]] p by (auto simp: can_resume_def)
  note q = ev_ok_queue [OF ok]
  have t: "snd (ev_await_resume w s) =
      (ev_upd w (?x\<lparr>w_suspended := False\<rparr>) s)\<lparr>ev_waiters := ?q\<rparr>"
  proof (cases "w_cancellable ?x \<and> w_was_cancelled ?x")
    case True
    with c(3) show ?thesis
      by (cases "w_suspended ?x")
         (auto simp: ev_await_resume_def Let_def wl_remove_absent unsuspended_same ev_upd_def)
  next
    case False
    with c(2) show ?thesis by (auto simp: ev_await_resume_def Let_def wl_remove_absent ev_upd_def)
  qed
  have "ev_ok (snd (ev_await_resume w s)) (ph(w := Finished)) ps ever"
    unfolding t by (rule ev_ok_upd [OF ok, where x = "?x\<lparr>w_suspended := False\<rparr>"])
      (use c(1) q in \<open>auto simp: set_wl_remove distinct_wl_remove wl_remove_def\<close>)
  moreover have "fst (ev_await_resume w s) = Completed \<longrightarrow> ever"
    using c(2) by (auto simp: ev_await_resume_def Let_def)
  ultimately show ?thesis by blast
qed

lemma ev_waiter_dtor_ok:
  assumes ok: "ev_ok s ph ps ever" and p: "can_destroy ph w"
  shows "ev_ok (ev_waiter_dtor w s) (ph(w := Destroyed)) ps ever"
proof -
  let ?x = "ev_ws s w"
  have i: "\<not> w_suspended ?x \<Longrightarrow> w \<notin> set (ev_waiters s)"
    using ev_ok_at [OF ok, of w] p by (cases "ph w") (auto simp: can_destroy_def waiter_defs split: if_splits)
  note q = ev_ok_queue [OF ok]
  define y where "y = (if w_suspended ?x then w_abandon ?x else ?x)"
  have t: "ev_waiter_dtor w s = (ev_upd w y s)\<lparr>ev_waiters := wl_remove w (ev_waiters s)\<rparr>"
    using i by (auto simp: ev_waiter_dtor_def y_def Let_def wl_remove_absent ev_upd_def)
  show ?thesis
    unfolding t by (rule ev_ok_upd [OF ok, where x = y])
      (use q in \<open>auto simp: set_wl_remove distinct_wl_remove wl_remove_def\<close>)
qed

lemma ev_waiter_ok_request_cancel:
  "ev_waiter_ok ever inq sched p x \<Longrightarrow> w_cancellable x \<Longrightarrow> ev_waiter_ok ever inq sched p (w_request_cancel x)"
proof (cases p)
  case Suspended
  assume "ev_waiter_ok ever inq sched p x" "w_cancellable x"
  with Suspended show ?thesis
    by (cases inq; cases sched)
       (auto simp: queued_ok_def woken_ok_def cancelled_ok_def w_request_cancel_eq w_scheduling_def)
qed (auto simp: fresh_ok_def emplaced_ok_def w_request_cancel_eq completing_request_cancel)

lemma ev_request_cancel_ok:
  assumes ok: "ev_ok s ph ps ever" and c: "w_cancellable (ev_ws s w)"
  shows "ev_ok (ev_request_cancel w s) ph ps ever"
proof -
  have "ev_ok (ev_request_cancel w s) (ph(w := ph w)) ps ever"
    unfolding ev_request_cancel_def
    by (rule ev_ok_upd [OF ok, OF ev_upd_sel(1)])
       (use ev_waiter_ok_request_cancel [OF ev_ok_at [OF ok] c] ev_ok_queue [OF ok] in auto)
  then show ?thesis by simp
qed

lemma ev_waiter_ok_schedule:
  assumes "ev_waiter_ok ever inq True p x"
  shows "ev_waiter_ok ever inq False p (snd (w_schedule x))"
proof (cases p)
  case Suspended
  with assms have x: "\<not> inq" "woken_ok x" "\<not> w_scheduling x" "ever" by (auto split: if_splits)
  then have "woken_ok (snd (w_schedule x)) \<and> w_scheduling (snd (w_schedule x))"
    by (auto simp: woken_ok_def w_scheduling_def w_schedule_def schedule_wake_state_def
        scheduling_states_def wake_op_defs split: if_splits)
  with Suspended x show ?thesis by simp
qed (use assms in simp_all)

lemma ev_schedule_ok:
  assumes ok: "ev_ok s ph ps ever" and w: "w \<in> ps"
  shows "ev_ok (ev_schedule w s) ph (ps - {w}) ever"
proof -
  have a: "ev_waiter_ok ever (w \<in> set (ev_waiters s)) False (ph w) (snd (w_schedule (ev_ws s w)))"
    using ev_waiter_ok_schedule ev_ok_at [OF ok, of w] w by simp
  have "ev_ok (ev_schedule w s) (ph(w := ph w)) (ps - {w}) ever"
    unfolding ev_schedule_def
    by (rule ev_ok_upd [OF ok, OF ev_upd_sel(1)]) (use a ev_ok_queue [OF ok] in auto)
  then show ?thesis by simp
qed

lemma ev_new_waiter_ok:
  assumes ok: "ev_ok s ph ps ever" and p: "ph w = Unborn"
  shows "ev_ok (ev_new_waiter w c s) (ph(w := Constructed)) ps ever"
  unfolding ev_new_waiter_def
  by (rule ev_ok_upd [OF ok, OF ev_upd_sel(1)])
     (use ev_ok_at [OF ok, of w] ev_ok_queue [OF ok] p in
       \<open>auto simp: fresh_ok_def new_waiter_def make_wake_state_def\<close>)

lemma ev_exec_inv:
  assumes inv: "ev_inv s" and en: "ev_enabled s l"
  shows "\<exists>t. ev_exec s l = Some t \<and> ev_inv t"
proof -
  from inv have ok: "ev_ok (ee s) (e_ph s) (e_ps s) (e_ever s)" by (simp add: ev_inv_def)
  show ?thesis
  proof (cases l)
    case (EL_New w c)
    with en ev_new_waiter_ok [OF ok, of w c] show ?thesis by (simp add: ev_inv_def)
  next
    case (EL_Ready c w)
    with en ev_await_ready_ok [OF ok, of w c] show ?thesis by (simp add: ev_inv_def split: prod.splits)
  next
    case (EL_Precheck w)
    with en ev_precheck_ok [OF ok, of w] show ?thesis by (simp add: ev_inv_def split: prod.splits)
  next
    case (EL_Suspend h w)
    then obtain r t where "ev_await_suspend_non_cancellable h w (ee s) = Some (r, t)"
        "ev_ok t ((e_ph s)(w := if r then Suspended else Completing)) (e_ps s) (e_ever s)"
      using en ev_suspend_nc_ok [OF ok, of w h] by auto
    with EL_Suspend show ?thesis by (simp add: ev_inv_def)
  next
    case (EL_Suspend_C c1 c2 h w)
    then obtain r t where "ev_await_suspend_cancellable c1 c2 h w (ee s) = Some (r, t)"
        "ev_ok t ((e_ph s)(w := if r then Suspended else Completing)) (e_ps s) (e_ever s)"
      using en ev_suspend_c_ok [OF ok, of w c1 c2 h] by auto
    with EL_Suspend_C show ?thesis by (simp add: ev_inv_def)
  next
    case (EL_Resume w)
    with en ev_await_resume_ok [OF ok, of w] show ?thesis by (simp add: ev_inv_def)
  next
    case (EL_Destroy w)
    with en ev_waiter_dtor_ok [OF ok, of w] show ?thesis by (simp add: ev_inv_def)
  next
    case (EL_Cancel w)
    with en ev_request_cancel_ok [OF ok, of w] show ?thesis by (simp add: ev_inv_def)
  next
    case EL_Set
    with ev_set_ok [OF ok] show ?thesis by (simp add: ev_inv_def split: prod.splits)
  next
    case EL_Reset
    with ok show ?thesis by (simp add: ev_inv_def ev_ok_def ev_reset_def)
  next
    case (EL_Schedule w)
    with en ev_schedule_ok [OF ok, of w] show ?thesis by (simp add: ev_inv_def)
  qed
qed

interpretation ev: invariant_system ev_init ev_step ev_inv
proof unfold_locales
  fix s show "ev_init s \<Longrightarrow> ev_inv s"
    by (simp add: ev_init_def ev_start_def ev_inv_def ev_ok_def event_ctor_def)
next
  fix s l t assume "ev_inv s" "ev_step s l t"
  then show "ev_inv t" using ev_exec_inv [of s l] by (auto simp: ev_step_def exec_step_def)
qed

section \<open>Properties\<close>

definition ev_script :: "ev_label list" where
  "ev_script =
     [EL_New 20 True, EL_Ready False 20, EL_Suspend_C False False 7 20,
      EL_New 30 False, EL_Ready False 30, EL_Precheck 30, EL_Suspend 8 30, EL_Cancel 20]"

lemmas ev_op_defs = event_ctor_def ev_upd_def ev_new_waiter_def ev_await_ready_def
  ev_await_suspend_precheck_def ev_await_suspend_non_cancellable_def ev_await_suspend_cancellable_def
  ev_await_resume_def ev_request_cancel_def ev_schedule_def ev_set_def wl_push_back_def wl_remove_def

lemma ev_script_run:
  "\<exists>t. run_labels ev_enabled ev_exec ev_start ev_script = Some t \<and> ev_waiters (ee t) = [20, 30] \<and>
     w_was_cancelled (ev_ws (ee t) 20) \<and> \<not> w_was_cancelled (ev_ws (ee t) 30) \<and> e_ph t 30 = Suspended"
  by (simp add: ev_script_def ev_start_def ev_op_defs waiter_defs wake_op_defs Let_def)

lemma ev_script_reach:
  "\<exists>t. run_labels ev_enabled ev_exec ev_start ev_script = Some t \<and> reach ev_init ev_step t \<and>
     ev_waiters (ee t) = [20, 30] \<and>
     w_was_cancelled (ev_ws (ee t) 20) \<and> \<not> w_was_cancelled (ev_ws (ee t) 30) \<and> e_ph t 30 = Suspended"
proof -
  have "reach ev_init ev_step ev_start" by (rule reach_init) (simp add: ev_init_def)
  then show ?thesis using ev_script_run reach_run_labels unfolding ev_step_def by metis
qed

text \<open>
  C13: set wakes every waiter and none is lost. set empties the queue and schedules
  exactly the queued waiters that were not cancelled, in arrival order; and in every
  reachable state a suspended waiter is either queued on an event that is not
  signaled, or is scheduled or about to be.
\<close>

theorem event_set_wakes_all:
  assumes "reach ev_init ev_step s"
  shows "(case ev_set (ee s) of (ws, t) \<Rightarrow> ev_is_set t \<and> ev_waiters t = [] \<and>
      ws = filter (\<lambda>w. \<not> w_was_cancelled (ev_ws (ee s) w)) (ev_waiters (ee s))) \<and>
    (\<forall>w. e_ph s w = Suspended \<longrightarrow>
       (w \<in> set (ev_waiters (ee s)) \<and> \<not> ev_is_set (ee s)) \<or>
       (w \<notin> set (ev_waiters (ee s)) \<and> (w_scheduling (ev_ws (ee s) w) \<or> w \<in> e_ps s)))"
proof -
  have ok: "ev_ok (ee s) (e_ph s) (e_ps s) (e_ever s)"
    using ev.reach_inv [OF assms] by (simp add: ev_inv_def)
  obtain ws t where r: "ev_set (ee s) = (ws, t)" by fastforce
  have "(w \<in> set (ev_waiters (ee s)) \<and> \<not> ev_is_set (ee s)) \<or>
       (w \<notin> set (ev_waiters (ee s)) \<and> (w_scheduling (ev_ws (ee s) w) \<or> w \<in> e_ps s))"
    if "e_ph s w = Suspended" for w
    using ev_ok_at [OF ok, of w] ev_ok_queue [OF ok] that
    by (auto simp: ev_is_set_def cancelled_ok_def w_scheduling_def scheduling_states_def split: if_splits)
  with ev_set_ok [OF ok r] ev_ok_queue [OF conjunct1 [OF ev_set_ok [OF ok r]]] r show ?thesis
    by (auto simp: ev_is_set_def)
qed

theorem event_set_wakes_all_witness:
  "\<exists>s t. run_labels ev_enabled ev_exec ev_start ev_script = Some s \<and>
     ev_waiters (ee s) = [20, 30] \<and> ev_set (ee s) = ([30], t) \<and> ev_is_set t"
proof -
  obtain s where s: "run_labels ev_enabled ev_exec ev_start ev_script = Some s"
      "reach ev_init ev_step s" "ev_waiters (ee s) = [20, 30]"
      "w_was_cancelled (ev_ws (ee s) 20)" "\<not> w_was_cancelled (ev_ws (ee s) 30)"
    using ev_script_reach by blast
  obtain ws t where u: "ev_set (ee s) = (ws, t)" by fastforce
  with event_set_wakes_all [OF s(2)] s show ?thesis by auto
qed

end
