(* ===== verification/Crc32.thy ===== *)
theory Crc32
  imports Prelude
begin

text \<open>
  CRC32 and CRC32C (src/include/elio/hash/crc32.hpp): the compile-time tables, the
  slicing-by-8 software loops, the hardware loops over the CRC instructions of the
  processor, and the one-shot, incremental and scatter-gather interfaces. The two
  polynomials share their code shape; the polynomial is a parameter here.
\<close>

section \<open>Tables\<close>

definition crc_ieee :: u32 where "crc_ieee = 0xEDB88320"
definition crc_castagnoli :: u32 where "crc_castagnoli = 0x82F63B78"

text \<open>One round of the inner loop of the table constructors.\<close>

definition crc_round :: "u32 \<Rightarrow> u32 \<Rightarrow> u32" where
  "crc_round poly crc = (drop_bit 1 crc) XOR (if crc AND 1 \<noteq> 0 then poly else 0)"

text \<open>The recursive generator of the plain table; \<open>k\<close> counts the remaining rounds.\<close>

fun crc32_make_table_entry :: "u32 \<Rightarrow> nat \<Rightarrow> u32" where
  "crc32_make_table_entry n 0 = n"
| "crc32_make_table_entry n (Suc k) =
     crc32_make_table_entry (if n AND 1 \<noteq> 0 then 0xEDB88320 XOR drop_bit 1 n else drop_bit 1 n) k"

text \<open>The table at slice \<open>k\<close> and index \<open>i\<close>: slice 0 by eight rounds, slice \<open>k + 1\<close> from slice \<open>k\<close>.\<close>

fun crc_tab :: "u32 \<Rightarrow> nat \<Rightarrow> u32 \<Rightarrow> u32" where
  "crc_tab poly 0 i = (crc_round poly ^^ 8) i"
| "crc_tab poly (Suc k) i =
     (let v = crc_tab poly k i in drop_bit 8 v XOR crc_tab poly 0 (v AND 0xFF))"

section \<open>Loops\<close>

definition crc_byte :: "u32 \<Rightarrow> u32 \<Rightarrow> u8 \<Rightarrow> u32" where
  "crc_byte poly crc b = crc_tab poly 0 ((crc XOR ucast b) AND 0xFF) XOR drop_bit 8 crc"

text \<open>A little-endian 32-bit load.\<close>

definition load_le32 :: "u8 \<Rightarrow> u8 \<Rightarrow> u8 \<Rightarrow> u8 \<Rightarrow> u32" where
  "load_le32 b0 b1 b2 b3 =
     ucast b0 OR push_bit 8 (ucast b1) OR push_bit 16 (ucast b2) OR push_bit 24 (ucast b3)"

text \<open>The eight table lookups of one iteration of the wide loop.\<close>

definition crc_slice8 :: "u32 \<Rightarrow> u32 \<Rightarrow> u32 \<Rightarrow> u32 \<Rightarrow> u32" where
  "crc_slice8 poly crc0 lo hi =
     (let crc = crc0 XOR lo in
      crc_tab poly 7 (crc AND 0xFF) XOR
      crc_tab poly 6 (drop_bit 8 crc AND 0xFF) XOR
      crc_tab poly 5 (drop_bit 16 crc AND 0xFF) XOR
      crc_tab poly 4 (drop_bit 24 crc) XOR
      crc_tab poly 3 (hi AND 0xFF) XOR
      crc_tab poly 2 (drop_bit 8 hi AND 0xFF) XOR
      crc_tab poly 1 (drop_bit 16 hi AND 0xFF) XOR
      crc_tab poly 0 (drop_bit 24 hi))"

text \<open>
  The three loops: unaligned head bytes (\<open>addr\<close> is the data pointer), eight bytes
  at a time, the remaining bytes. The memory from the pointer on is a list.
\<close>

fun crc_head :: "u32 \<Rightarrow> u64 \<Rightarrow> bytes \<Rightarrow> u32 \<Rightarrow> u32 \<times> bytes" where
  "crc_head poly addr [] crc = (crc, [])"
| "crc_head poly addr (b # bs) crc =
     (if addr AND 7 \<noteq> 0 then crc_head poly (addr + 1) bs (crc_byte poly crc b) else (crc, b # bs))"

fun crc_wide :: "u32 \<Rightarrow> bytes \<Rightarrow> u32 \<Rightarrow> u32 \<times> bytes" where
  "crc_wide poly (b0 # b1 # b2 # b3 # b4 # b5 # b6 # b7 # bs) crc =
     crc_wide poly bs (crc_slice8 poly crc (load_le32 b0 b1 b2 b3) (load_le32 b4 b5 b6 b7))"
| "crc_wide poly bs crc = (crc, bs)"

fun crc_tail :: "u32 \<Rightarrow> bytes \<Rightarrow> u32 \<Rightarrow> u32" where
  "crc_tail poly [] crc = crc"
| "crc_tail poly (b # bs) crc = crc_tail poly bs (crc_byte poly crc b)"

text \<open>The whole function; \<open>little\<close> is the compile-time test of the host byte order.\<close>

definition crc_sw :: "bool \<Rightarrow> u32 \<Rightarrow> u64 \<Rightarrow> bytes \<Rightarrow> u32 \<Rightarrow> u32" where
  "crc_sw little poly addr data crc =
     (if little then
        let (crc1, rest1) = crc_head poly addr data crc; (crc2, rest2) = crc_wide poly rest1 crc1
        in crc_tail poly rest2 crc2
      else crc_tail poly data crc)"

definition crc32_sw :: "bool \<Rightarrow> u64 \<Rightarrow> bytes \<Rightarrow> u32 \<Rightarrow> u32" where
  "crc32_sw little addr data crc = crc_sw little crc_ieee addr data crc"

definition crc32c_sw :: "bool \<Rightarrow> u64 \<Rightarrow> bytes \<Rightarrow> u32 \<Rightarrow> u32" where
  "crc32c_sw little addr data crc = crc_sw little crc_castagnoli addr data crc"

text \<open>
  The hardware loops, over the instructions for one, four and eight bytes, which are
  parameters: \<open>i8\<close> is \_mm\_crc32\_u8 or \_\_crc32b, \<open>i32\<close> and \<open>i64\<close> take the loaded words.
\<close>

definition load_le64 :: "u32 \<Rightarrow> u32 \<Rightarrow> u64" where
  "load_le64 lo hi = ucast lo OR push_bit 32 (ucast hi)"

fun hw_head :: "(u32 \<Rightarrow> u8 \<Rightarrow> u32) \<Rightarrow> u64 \<Rightarrow> bytes \<Rightarrow> u32 \<Rightarrow> u32 \<times> bytes" where
  "hw_head i8 addr [] crc = (crc, [])"
| "hw_head i8 addr (b # bs) crc =
     (if addr AND 7 \<noteq> 0 then hw_head i8 (addr + 1) bs (i8 crc b) else (crc, b # bs))"

fun hw_wide8 :: "(u32 \<Rightarrow> u64 \<Rightarrow> u32) \<Rightarrow> bytes \<Rightarrow> u32 \<Rightarrow> u32 \<times> bytes" where
  "hw_wide8 i64 (b0 # b1 # b2 # b3 # b4 # b5 # b6 # b7 # bs) crc =
     hw_wide8 i64 bs (i64 crc (load_le64 (load_le32 b0 b1 b2 b3) (load_le32 b4 b5 b6 b7)))"
| "hw_wide8 i64 bs crc = (crc, bs)"

fun hw_wide4 :: "(u32 \<Rightarrow> u32 \<Rightarrow> u32) \<Rightarrow> bytes \<Rightarrow> u32 \<Rightarrow> u32 \<times> bytes" where
  "hw_wide4 i32 (b0 # b1 # b2 # b3 # bs) crc = hw_wide4 i32 bs (i32 crc (load_le32 b0 b1 b2 b3))"
| "hw_wide4 i32 bs crc = (crc, bs)"

fun hw_tail :: "(u32 \<Rightarrow> u8 \<Rightarrow> u32) \<Rightarrow> bytes \<Rightarrow> u32 \<Rightarrow> u32" where
  "hw_tail i8 [] crc = crc"
| "hw_tail i8 (b # bs) crc = hw_tail i8 bs (i8 crc b)"

definition crc_hw ::
    "(u32 \<Rightarrow> u8 \<Rightarrow> u32) \<Rightarrow> (u32 \<Rightarrow> u32 \<Rightarrow> u32) \<Rightarrow> (u32 \<Rightarrow> u64 \<Rightarrow> u32) \<Rightarrow> u64 \<Rightarrow> bytes \<Rightarrow> u32 \<Rightarrow> u32" where
  "crc_hw i8 i32 i64 addr data crc =
     (let (crc1, rest1) = hw_head i8 addr data crc;
          (crc2, rest2) = hw_wide8 i64 rest1 crc1;
          (crc3, rest3) = hw_wide4 i32 rest2 crc2
      in hw_tail i8 rest3 crc3)"

section \<open>Interfaces\<close>

definition crc32 :: "bool \<Rightarrow> u64 \<Rightarrow> bytes \<Rightarrow> u32 \<Rightarrow> u32" where
  "crc32 little addr data seed =
     (if data = [] then seed XOR 0xFFFFFFFF else crc32_sw little addr data seed XOR 0xFFFFFFFF)"

definition crc32_update :: "bool \<Rightarrow> u64 \<Rightarrow> bytes \<Rightarrow> u32 \<Rightarrow> u32" where
  "crc32_update little addr data crc = (if data = [] then crc else crc32_sw little addr data crc)"

definition crc32_finalize :: "u32 \<Rightarrow> u32" where
  "crc32_finalize crc = crc XOR 0xFFFFFFFF"

fun crc32_iovec_loop :: "bool \<Rightarrow> (u64 \<times> bytes) list \<Rightarrow> u32 \<Rightarrow> u32" where
  "crc32_iovec_loop little [] crc = crc"
| "crc32_iovec_loop little ((addr, data) # iov) crc =
     crc32_iovec_loop little iov (if data \<noteq> [] then crc32_sw little addr data crc else crc)"

definition crc32_iovec :: "bool \<Rightarrow> (u64 \<times> bytes) list \<Rightarrow> u32" where
  "crc32_iovec little iov = crc32_iovec_loop little iov 0xFFFFFFFF XOR 0xFFFFFFFF"

definition crc32c :: "bool \<Rightarrow> u64 \<Rightarrow> bytes \<Rightarrow> u32 \<Rightarrow> u32" where
  "crc32c little addr data seed =
     (if data = [] then seed XOR 0xFFFFFFFF else crc32c_sw little addr data seed XOR 0xFFFFFFFF)"

section \<open>The reference: one bit at a time\<close>

text \<open>
  The textbook register: the next message bit, least significant bit of each byte
  first, is added to the lowest bit of the register and one round is applied.
\<close>

definition bits_of_byte :: "u8 \<Rightarrow> bool list" where
  "bits_of_byte b = map (bit b) [0..<8]"

definition crc_bit :: "u32 \<Rightarrow> u32 \<Rightarrow> bool \<Rightarrow> u32" where
  "crc_bit poly crc m = crc_round poly (crc XOR of_bool m)"

definition crc_ref :: "u32 \<Rightarrow> bytes \<Rightarrow> u32 \<Rightarrow> u32" where
  "crc_ref poly data crc = foldl (crc_bit poly) crc (concat (map bits_of_byte data))"

section \<open>Linearity\<close>

lemma and_one_ne_0: "(x::'a::len word) AND 1 \<noteq> 0 \<longleftrightarrow> bit x 0"
  by (metis bit_0 one_and_eq and.commute odd_iff_mod_2_eq_one zero_neq_one even_iff_mod_2_eq_zero)

lemma crc_round_xor: "crc_round poly (a XOR b) = crc_round poly a XOR crc_round poly b"
  by (rule bit_word_eqI)
     (auto simp: crc_round_def and_one_ne_0 bit_xor_iff bit_drop_bit_eq bit_0 even_xor_iff)

lemma crc_rounds_xor: "(crc_round poly ^^ n) (a XOR b) = (crc_round poly ^^ n) a XOR (crc_round poly ^^ n) b"
  by (induction n) (simp_all add: crc_round_xor)

lemma crc_round_even: "\<not> bit x 0 \<Longrightarrow> crc_round poly x = drop_bit 1 x"
  by (simp add: crc_round_def and_one_ne_0)

lemma crc_rounds_shift:
  "(\<And>i. i < n \<Longrightarrow> \<not> bit x i) \<Longrightarrow> (crc_round poly ^^ n) x = drop_bit n x"
proof (induction n)
  case 0
  then show ?case by simp
next
  case (Suc n)
  then have "(crc_round poly ^^ n) x = drop_bit n x" by simp
  moreover have "\<not> bit (drop_bit n x) 0" using Suc.prems [of n] by (simp add: bit_drop_bit_eq)
  ultimately show ?case by (simp add: crc_round_even)
qed

text \<open>Eight rounds: a table lookup and a shift.\<close>

definition crc8 :: "u32 \<Rightarrow> u32 \<Rightarrow> u32" where
  "crc8 poly x = (crc_round poly ^^ 8) x"

lemma and_FF: "(x :: 'a::len word) AND 0xFF = take_bit 8 x"
  by (simp add: take_bit_eq_mask mask_eq_decr_exp)

lemma crc8_xor: "crc8 poly (a XOR b) = crc8 poly a XOR crc8 poly b"
  by (simp add: crc8_def crc_rounds_xor)

lemma crc8_split: "crc8 poly x = crc_tab poly 0 (x AND 0xFF) XOR drop_bit 8 x"
proof -
  have x: "x = (x AND 0xFF) XOR (push_bit 8 (drop_bit 8 x))"
    by (rule bit_word_eqI) (auto simp: and_FF bit_xor_iff bit_take_bit_iff bit_push_bit_iff bit_drop_bit_eq dest: bit_imp_le_length)
  have s: "(crc_round poly ^^ 8) (push_bit 8 (drop_bit 8 x)) = drop_bit 8 x"
    by (subst crc_rounds_shift)
       (auto simp: bit_push_bit_iff bit_drop_bit_eq intro!: bit_word_eqI, frule bit_imp_le_length, simp)
  have "crc8 poly ((x AND 0xFF) XOR (push_bit 8 (drop_bit 8 x))) = crc_tab poly 0 (x AND 0xFF) XOR drop_bit 8 x"
    unfolding crc8_xor unfolding crc8_def s crc_tab.simps ..
  then show ?thesis using x by simp
qed

lemma crc_byte_crc8: "crc_byte poly crc b = crc8 poly (crc XOR ucast b)"
proof -
  have "drop_bit 8 (ucast b :: u32) = 0"
    by (rule bit_word_eqI) (auto simp: bit_drop_bit_eq bit_ucast_iff dest: bit_imp_le_length)
  then show ?thesis by (simp add: crc_byte_def crc8_split)
qed

lemma crc_tab_rounds: "crc_tab poly k i = (crc8 poly ^^ Suc k) i"
proof (induction k)
  case 0
  then show ?case by (simp add: crc8_def)
next
  case (Suc k)
  then show ?case by (simp add: crc8_split [of poly "(crc8 poly ^^ Suc k) i"] Let_def xor.commute
        del: crc_tab.simps(1) funpow.simps add: funpow.simps(2) [of "Suc k"])
qed

text \<open>Moving a byte up by \<open>8 * n\<close> bits postpones it by \<open>n\<close> bytes.\<close>

lemma crc8_funpow_xor: "(crc8 poly ^^ n) (a XOR b) = (crc8 poly ^^ n) a XOR (crc8 poly ^^ n) b"
  by (induction n) (simp_all add: crc8_xor)

lemma crc8_push:
  assumes "\<And>i. bit x i \<Longrightarrow> 8 * n + i < 32"
  shows "(crc8 poly ^^ n) (push_bit (8 * n) x) = x"
proof -
  have e: "(crc8 poly ^^ n) y = (crc_round poly ^^ (8 * n)) y" for y
    by (simp add: crc8_def [abs_def] funpow_mult mult.commute)
  show ?thesis
    unfolding e
    by (subst crc_rounds_shift)
       (auto simp: bit_push_bit_iff bit_drop_bit_eq intro!: bit_word_eqI dest: assms)
qed

section \<open>Slicing by eight is byte by byte\<close>

lemma ucast_byte_bit: "bit (ucast (b::u8) :: u32) i \<Longrightarrow> i < 8"
  by (auto simp: bit_ucast_iff dest: bit_imp_le_length)

lemma crc_byte_postponed:
  assumes "n \<le> 3"
  shows "crc_byte poly ((crc8 poly ^^ n) c) b = (crc8 poly ^^ Suc n) (c XOR push_bit (8 * n) (ucast b))"
proof -
  have "(crc8 poly ^^ n) (push_bit (8 * n) (ucast b)) = ucast b"
    by (rule crc8_push) (use assms in \<open>auto dest!: ucast_byte_bit\<close>)
  then show ?thesis by (simp add: crc_byte_crc8 crc8_funpow_xor)
qed

lemma load_le32_xor:
  "load_le32 b0 b1 b2 b3 =
     ucast b0 XOR push_bit 8 (ucast b1) XOR push_bit 16 (ucast b2) XOR push_bit 24 (ucast b3)"
  unfolding load_le32_def
  by (rule bit_word_eqI)
     (auto simp: bit_or_iff bit_xor_iff bit_push_bit_iff bit_ucast_iff dest: bit_imp_le_length)

lemma crc_word:
  "crc_byte poly (crc_byte poly (crc_byte poly (crc_byte poly c b0) b1) b2) b3 =
     (crc8 poly ^^ 4) (c XOR load_le32 b0 b1 b2 b3)"
proof -
  have n: "Suc 1 = 2" "Suc 2 = 3" "Suc 3 = 4" "8 * 1 = (8::nat)" "8 * 2 = (16::nat)" "8 * 3 = (24::nat)"
    by simp_all
  have 0: "crc_byte poly c b0 = (crc8 poly ^^ 1) (c XOR ucast b0)"
    using crc_byte_postponed [of 0 poly c b0] by simp
  have 1: "crc_byte poly ((crc8 poly ^^ 1) d) b = (crc8 poly ^^ 2) (d XOR push_bit 8 (ucast b))" for d b
    using crc_byte_postponed [of 1 poly d b] unfolding n by simp
  have 2: "crc_byte poly ((crc8 poly ^^ 2) d) b = (crc8 poly ^^ 3) (d XOR push_bit 16 (ucast b))" for d b
    using crc_byte_postponed [of 2 poly d b] unfolding n by simp
  have 3: "crc_byte poly ((crc8 poly ^^ 3) d) b = (crc8 poly ^^ 4) (d XOR push_bit 24 (ucast b))" for d b
    using crc_byte_postponed [of 3 poly d b] unfolding n by simp
  show ?thesis by (simp only: 0 1 2 3 load_le32_xor xor.assoc)
qed

lemma word_bytes:
  fixes x :: u32
  shows "x = (x AND 0xFF) XOR push_bit 8 (drop_bit 8 x AND 0xFF) XOR
     push_bit 16 (drop_bit 16 x AND 0xFF) XOR push_bit 24 (drop_bit 24 x)"
  by (rule bit_word_eqI)
     (auto simp: and_FF bit_xor_iff bit_push_bit_iff bit_take_bit_iff bit_drop_bit_eq dest: bit_imp_le_length)

lemma crc8_byte_at:
  assumes "\<And>i. bit v i \<Longrightarrow> i < 8" and k: "k \<le> 3" "j = 8 * k" "N = n + k"
  shows "(crc8 poly ^^ N) (push_bit j v) = (crc8 poly ^^ n) v"
proof -
  have "(crc8 poly ^^ k) (push_bit (8 * k) v) = v"
    by (rule crc8_push) (use assms in fastforce)
  then show ?thesis by (simp add: k funpow_add)
qed

lemma crc_tab_word:
  fixes x :: u32
  assumes "n \<ge> 4"
  shows "crc_tab poly (n - 1) (x AND 0xFF) XOR crc_tab poly (n - 2) (drop_bit 8 x AND 0xFF) XOR
    crc_tab poly (n - 3) (drop_bit 16 x AND 0xFF) XOR crc_tab poly (n - 4) (drop_bit 24 x) =
    (crc8 poly ^^ n) x"
proof -
  obtain m where n: "n = m + 4" using assms by (metis le_add_diff_inverse2)
  have b: "bit (drop_bit k x AND 0xFF) i \<Longrightarrow> i < 8" for k i
    by (simp add: and_FF bit_take_bit_iff)
  have b3: "bit (drop_bit 24 x) i \<Longrightarrow> i < 8" for i
    using bit_imp_le_length [of x "24 + i"] by (simp add: bit_drop_bit_eq)
  have 1: "(crc8 poly ^^ n) (push_bit 8 (drop_bit 8 x AND 0xFF)) = (crc8 poly ^^ (m + 3)) (drop_bit 8 x AND 0xFF)"
    by (rule crc8_byte_at [where k = 1]) (use b n in auto)
  have 2: "(crc8 poly ^^ n) (push_bit 16 (drop_bit 16 x AND 0xFF)) = (crc8 poly ^^ (m + 2)) (drop_bit 16 x AND 0xFF)"
    by (rule crc8_byte_at [where k = 2]) (use b n in auto)
  have 3: "(crc8 poly ^^ n) (push_bit 24 (drop_bit 24 x)) = (crc8 poly ^^ (m + 1)) (drop_bit 24 x)"
    by (rule crc8_byte_at [where k = 3]) (use b3 n in auto)
  have "(crc8 poly ^^ n) x = (crc8 poly ^^ n) ((x AND 0xFF) XOR push_bit 8 (drop_bit 8 x AND 0xFF) XOR
     push_bit 16 (drop_bit 16 x AND 0xFF) XOR push_bit 24 (drop_bit 24 x))"
    using word_bytes [of x] by simp
  also have "\<dots> = (crc8 poly ^^ n) (x AND 0xFF) XOR (crc8 poly ^^ (m + 3)) (drop_bit 8 x AND 0xFF) XOR
     (crc8 poly ^^ (m + 2)) (drop_bit 16 x AND 0xFF) XOR (crc8 poly ^^ (m + 1)) (drop_bit 24 x)"
    by (simp only: crc8_funpow_xor 1 2 3)
  finally show ?thesis by (simp add: crc_tab_rounds n numeral_eq_Suc del: funpow.simps crc_tab.simps)
qed

lemma crc_tab_word8:
  "crc_tab poly 7 (x AND 0xFF) XOR crc_tab poly 6 (drop_bit 8 x AND 0xFF) XOR
   crc_tab poly 5 (drop_bit 16 x AND 0xFF) XOR crc_tab poly 4 (drop_bit 24 x) = (crc8 poly ^^ 8) x"
  using crc_tab_word [of 8 poly x] by simp

lemma crc_tab_word4:
  "crc_tab poly 3 (x AND 0xFF) XOR crc_tab poly 2 (drop_bit 8 x AND 0xFF) XOR
   crc_tab poly 1 (drop_bit 16 x AND 0xFF) XOR crc_tab poly 0 (drop_bit 24 x) = (crc8 poly ^^ 4) x"
  using crc_tab_word [of 4 poly x] by (simp del: crc_tab.simps)

lemma crc_slice8_bytes:
  "crc_slice8 poly c (load_le32 b0 b1 b2 b3) (load_le32 b4 b5 b6 b7) =
     foldl (crc_byte poly) c [b0, b1, b2, b3, b4, b5, b6, b7]"
proof -
  let ?lo = "load_le32 b0 b1 b2 b3" and ?hi = "load_le32 b4 b5 b6 b7"
  have "crc_slice8 poly c ?lo ?hi = (crc8 poly ^^ 8) (c XOR ?lo) XOR (crc8 poly ^^ 4) ?hi"
    unfolding crc_slice8_def Let_def crc_tab_word8 [symmetric] crc_tab_word4 [symmetric] by (simp only: xor.assoc)
  also have "\<dots> = (crc8 poly ^^ 4) ((crc8 poly ^^ 4) (c XOR ?lo) XOR ?hi)"
    using funpow_add [of 4 4 "crc8 poly"] by (simp add: crc8_funpow_xor del: funpow.simps)
  finally show ?thesis by (simp add: crc_word)
qed

lemma crc_tail_foldl: "crc_tail poly bs c = foldl (crc_byte poly) c bs"
  by (induction bs arbitrary: c) simp_all

lemma crc_wide_foldl:
  "case crc_wide poly bs c of (c', rest) \<Rightarrow> foldl (crc_byte poly) c' rest = foldl (crc_byte poly) c bs"
  by (induction poly bs c rule: crc_wide.induct) (simp_all add: crc_slice8_bytes)

lemma crc_head_foldl:
  "case crc_head poly addr bs c of (c', rest) \<Rightarrow> foldl (crc_byte poly) c' rest = foldl (crc_byte poly) c bs"
  by (induction poly addr bs c rule: crc_head.induct) simp_all

lemma crc_sw_foldl: "crc_sw little poly addr data crc = foldl (crc_byte poly) crc data"
  using crc_head_foldl [where poly = poly and addr = addr and bs = data and c = crc]
    crc_wide_foldl [where poly = poly and bs = "snd (crc_head poly addr data crc)"
      and c = "fst (crc_head poly addr data crc)"]
  by (simp add: crc_sw_def crc_tail_foldl case_prod_beta)

section \<open>Byte by byte is bit by bit\<close>

lemma crc_bit_postponed:
  assumes "n < 32"
  shows "crc_bit poly ((crc_round poly ^^ n) c) m = (crc_round poly ^^ Suc n) (c XOR push_bit n (of_bool m))"
proof -
  have "(crc_round poly ^^ n) (push_bit n (of_bool m)) = of_bool m"
    by (subst crc_rounds_shift)
       (use assms in \<open>auto simp: bit_push_bit_iff bit_drop_bit_eq bit_exp_iff bit_1_iff intro!: bit_word_eqI\<close>)
  then show ?thesis by (simp add: crc_bit_def crc_rounds_xor)
qed

lemma take_bit_Suc_xor:
  "take_bit (Suc k) (x :: 'a::len word) = take_bit k x XOR push_bit k (of_bool (bit x k))"
  by (rule bit_word_eqI)
     (auto simp: bit_take_bit_iff bit_xor_iff bit_push_bit_iff bit_exp_iff bit_1_iff less_Suc_eq)

lemma crc_bits_of_byte:
  "k \<le> 8 \<Longrightarrow> foldl (crc_bit poly) c (map (bit b) [0..<k]) = (crc_round poly ^^ k) (c XOR take_bit k (ucast (b::u8)))"
proof (induction k)
  case 0
  then show ?case by simp
next
  case (Suc k)
  have "bit (ucast b :: u32) k = bit b k" using Suc.prems by (simp add: bit_ucast_iff)
  with Suc crc_bit_postponed [of k poly "c XOR take_bit k (ucast b)" "bit b k"] show ?case
    by (simp add: take_bit_Suc_xor [of k "ucast b"] xor.assoc del: funpow.simps)
qed

lemma crc_byte_bits: "crc_byte poly c b = foldl (crc_bit poly) c (bits_of_byte b)"
proof -
  have "take_bit 8 (ucast b :: u32) = ucast b"
    by (rule bit_word_eqI) (auto simp: bit_take_bit_iff dest: ucast_byte_bit)
  then show ?thesis
    using crc_bits_of_byte [of 8 poly c b]
    by (simp add: bits_of_byte_def crc_byte_crc8 crc8_def del: funpow.simps)
qed

lemma crc_bytes_ref: "foldl (crc_byte poly) c bs = crc_ref poly bs c"
  by (induction bs arbitrary: c) (simp_all add: crc_ref_def crc_byte_bits)

lemma crc32_foldl: "crc32 little addr data seed = foldl (crc_byte crc_ieee) seed data XOR 0xFFFFFFFF"
  by (cases "data = []") (simp_all add: crc32_def crc32_sw_def crc_sw_foldl)

section \<open>Properties\<close>

text \<open>
  C14: the optimised checksum is the mathematical one. For both polynomials, every
  alignment of the data, both host byte orders and every initial register, the
  slicing-by-8 routine returns what the bit-serial register returns; and the
  recursively generated plain table is slice 0 of the sliced tables.
\<close>

theorem crc_sw_is_bit_serial:
  "crc32_sw little addr data crc = crc_ref crc_ieee data crc \<and>
   crc32c_sw little addr data crc = crc_ref crc_castagnoli data crc \<and>
   crc32_make_table_entry n 8 = crc_tab crc_ieee 0 n"
proof -
  have "crc32_make_table_entry n k = (crc_round crc_ieee ^^ k) n" for k
    by (induction k arbitrary: n) (simp_all add: funpow_swap1 crc_round_def crc_ieee_def xor.commute)
  then show ?thesis
    by (simp add: crc32_sw_def crc32c_sw_def crc_sw_foldl crc_bytes_ref del: funpow.simps)
qed

text \<open>
  C15: streaming and scatter-gather agree with the one-shot checksum. Feeding the
  chunks of a message to crc32\_update one after the other and finalizing, or passing
  them as an iovec array, gives the checksum of the whole message, wherever the
  chunks lie in memory and however the message is cut, empty chunks included.
\<close>

theorem crc32_chunks_agree:
  "crc32_finalize (foldl (\<lambda>crc (addr, data). crc32_update little addr data crc) 0xFFFFFFFF iov) =
     crc32 little addr0 (concat (map snd iov)) 0xFFFFFFFF \<and>
   crc32_iovec little iov = crc32 little addr0 (concat (map snd iov)) 0xFFFFFFFF"
proof -
  have 1: "foldl (\<lambda>crc (addr, data). crc32_update little addr data crc) c iov =
      foldl (crc_byte crc_ieee) c (concat (map snd iov))" for c
    by (induction iov arbitrary: c) (auto simp: crc32_update_def crc32_sw_def crc_sw_foldl)
  have 2: "crc32_iovec_loop little iov c = foldl (crc_byte crc_ieee) c (concat (map snd iov))" for c
    by (induction iov arbitrary: c) (auto simp: crc32_sw_def crc_sw_foldl)
  show ?thesis
    by (simp add: 1 2 crc32_finalize_def crc32_iovec_def crc32_foldl)
qed

text \<open>
  C16: the hardware paths compute the same function. If the instruction for one
  byte is the reduction of that byte and the instructions for four and eight bytes
  reduce the bytes of the loaded word in memory order, which is how the processor
  manuals define them, the hardware loops return the checksum of the software loops.
\<close>

theorem crc_hw_agrees_with_sw:
  assumes i8: "\<And>c b. i8 c b = foldl (crc_bit poly) c (bits_of_byte b)"
    and i32: "\<And>c b0 b1 b2 b3. i32 c (load_le32 b0 b1 b2 b3) = foldl i8 c [b0, b1, b2, b3]"
    and i64: "\<And>c b0 b1 b2 b3 b4 b5 b6 b7.
      i64 c (load_le64 (load_le32 b0 b1 b2 b3) (load_le32 b4 b5 b6 b7)) =
      foldl i8 c [b0, b1, b2, b3, b4, b5, b6, b7]"
  shows "crc_hw i8 i32 i64 addr data crc = crc_sw little poly addr data crc"
proof -
  have b: "i8 = crc_byte poly" by (intro ext) (simp add: i8 crc_byte_bits)
  have h: "foldl i8 (fst (hw_head i8 addr bs c)) (snd (hw_head i8 addr bs c)) = foldl i8 c bs" for bs c addr
    by (induction i8 addr bs c rule: hw_head.induct) simp_all
  have w8: "foldl i8 (fst (hw_wide8 i64 bs c)) (snd (hw_wide8 i64 bs c)) = foldl i8 c bs" for bs c
    using i64 by (induction i64 bs c rule: hw_wide8.induct) simp_all
  have w4: "foldl i8 (fst (hw_wide4 i32 bs c)) (snd (hw_wide4 i32 bs c)) = foldl i8 c bs" for bs c
    using i32 by (induction i32 bs c rule: hw_wide4.induct) simp_all
  have t: "hw_tail i8 bs c = foldl i8 c bs" for bs c by (induction bs arbitrary: c) simp_all
  show ?thesis
    by (simp add: crc_hw_def case_prod_beta Let_def t w4 w8 h) (simp add: b crc_sw_foldl)
qed

text \<open>Instructions that behave as the manuals say, for the witness.\<close>

definition crc32c_u8 :: "u32 \<Rightarrow> u8 \<Rightarrow> u32" where
  "crc32c_u8 = crc_byte crc_castagnoli"

definition crc32c_u32 :: "u32 \<Rightarrow> u32 \<Rightarrow> u32" where
  "crc32c_u32 c w = foldl crc32c_u8 c (map (\<lambda>k. ucast (drop_bit (8 * k) w)) [0..<4])"

definition crc32c_u64 :: "u32 \<Rightarrow> u64 \<Rightarrow> u32" where
  "crc32c_u64 c w = foldl crc32c_u8 c (map (\<lambda>k. ucast (drop_bit (8 * k) w)) [0..<8])"

lemma load_le32_bytes:
  "ucast (load_le32 b0 b1 b2 b3) = b0"
  "ucast (drop_bit 8 (load_le32 b0 b1 b2 b3)) = b1"
  "ucast (drop_bit 16 (load_le32 b0 b1 b2 b3)) = b2"
  "ucast (drop_bit 24 (load_le32 b0 b1 b2 b3)) = b3"
  unfolding load_le32_def
  by (rule bit_word_eqI; auto simp: bit_ucast_iff bit_or_iff bit_push_bit_iff bit_drop_bit_eq dest: bit_imp_le_length)+

lemma load_le64_bytes:
  "ucast (drop_bit k (load_le64 lo hi)) = (ucast (drop_bit k lo) :: u8)" if "k \<le> 24" for k
  unfolding load_le64_def using that
  by (intro bit_word_eqI) (auto simp: bit_ucast_iff bit_or_iff bit_push_bit_iff bit_drop_bit_eq dest: bit_imp_le_length)

lemma load_le64_bytes_hi:
  "ucast (drop_bit (k + 32) (load_le64 lo hi)) = (ucast (drop_bit k hi) :: u8)" if "k \<le> 24" for k
  unfolding load_le64_def using that
  by (intro bit_word_eqI) (auto simp: bit_ucast_iff bit_or_iff bit_push_bit_iff bit_drop_bit_eq add.assoc dest: bit_imp_le_length)

lemma crc32c_u64_loaded:
  "crc32c_u64 c (load_le64 (load_le32 b0 b1 b2 b3) (load_le32 b4 b5 b6 b7)) =
     foldl crc32c_u8 c [b0, b1, b2, b3, b4, b5, b6, b7]"
proof -
  have "ucast (drop_bit 32 (load_le64 lo hi)) = (ucast hi :: u8)"
       "ucast (drop_bit 40 (load_le64 lo hi)) = (ucast (drop_bit 8 hi) :: u8)"
       "ucast (drop_bit 48 (load_le64 lo hi)) = (ucast (drop_bit 16 hi) :: u8)"
       "ucast (drop_bit 56 (load_le64 lo hi)) = (ucast (drop_bit 24 hi) :: u8)" for lo hi
    using load_le64_bytes_hi [of 0 lo hi] load_le64_bytes_hi [of 8 lo hi]
      load_le64_bytes_hi [of 16 lo hi] load_le64_bytes_hi [of 24 lo hi] by simp_all
  then show ?thesis
    using load_le64_bytes [of 0]
    by (simp add: crc32c_u64_def upt_rec load_le64_bytes load_le32_bytes)
qed

theorem crc_hw_agrees_with_sw_witness:
  "crc_hw crc32c_u8 crc32c_u32 crc32c_u64 3 [1, 2, 3, 4, 5, 6, 7, 8, 9, 10, 11, 12, 13, 14, 15, 16, 17, 18, 19] 0xFFFFFFFF =
   crc_sw True crc_castagnoli 3 [1, 2, 3, 4, 5, 6, 7, 8, 9, 10, 11, 12, 13, 14, 15, 16, 17, 18, 19] 0xFFFFFFFF"
  by (rule crc_hw_agrees_with_sw)
     (simp_all add: crc32c_u8_def crc_byte_bits crc32c_u32_def upt_rec load_le32_bytes
        crc32c_u64_loaded [unfolded crc32c_u8_def])

end
