(* ===== verification/Bytes.thy ===== *)
theory Bytes
  imports Prelude
begin

text \<open>
  Byte representations of machine integers, shared by the wire formats: least and most
  significant byte first, and 64-bit size arithmetic that does not wrap.
\<close>

section \<open>Least significant byte first\<close>

text \<open>The bytes of an integer, least significant first, and the integer of a byte list.\<close>

definition le_bytes :: "'a::len word \<Rightarrow> bytes" where
  "le_bytes w = map (\<lambda>k. ucast (drop_bit (8 * k) w)) [0..<LENGTH('a) div 8]"

fun le_word :: "bytes \<Rightarrow> 'a::len word" where
  "le_word [] = 0"
| "le_word (b # bs) = ucast b OR push_bit 8 (le_word bs)"

lemma length_le_bytes [simp]: "length (le_bytes (w :: 'a::len word)) = LENGTH('a) div 8"
  by (simp add: le_bytes_def)

lemma bit_le_word:
  "bit (le_word bs :: 'a::len word) i \<longleftrightarrow> i < LENGTH('a) \<and> i div 8 < length bs \<and> bit (bs ! (i div 8)) (i mod 8)"
proof (induction bs arbitrary: i)
  case Nil
  then show ?case by simp
next
  case (Cons b bs)
  show ?case
  proof (cases "i < 8")
    case True
    then show ?thesis
      by (auto simp: bit_or_iff bit_push_bit_iff bit_ucast_iff dest: bit_imp_le_length)
  next
    case False
    then have d: "i div 8 = Suc ((i - 8) div 8)" "i mod 8 = (i - 8) mod 8"
      by (simp_all add: le_div_geq le_mod_geq)
    have "\<not> bit b i" using False bit_imp_le_length [of b i] by auto
    with False d show ?thesis
      by (auto simp: bit_or_iff bit_push_bit_iff bit_ucast_iff Cons)
  qed
qed

lemma nth_le_bytes:
  "k < LENGTH('a) div 8 \<Longrightarrow> le_bytes (w :: 'a::len word) ! k = ucast (drop_bit (8 * k) w)"
  by (simp add: le_bytes_def)

lemma le_word_le_bytes:
  assumes "8 dvd LENGTH('a::len)"
  shows "le_word (le_bytes w) = (w :: 'a word)"
proof (rule bit_word_eqI)
  fix i assume i: "i < LENGTH('a)"
  then have k: "i div 8 < LENGTH('a) div 8" using assms by (metis div_le_mono dvd_div_eq_iff dvd_mult_div_cancel less_mult_imp_div_less mult.commute)
  have "bit (le_word (le_bytes w) :: 'a word) i \<longleftrightarrow> bit w (8 * (i div 8) + i mod 8)"
    using i k by (simp add: bit_le_word nth_le_bytes bit_ucast_iff bit_drop_bit_eq)
  then show "bit (le_word (le_bytes w) :: 'a word) i = bit w i" by simp
qed

lemma le_bytes_le_word:
  assumes "length bs = LENGTH('a::len) div 8"
  shows "le_bytes (le_word bs :: 'a word) = bs"
proof (rule nth_equalityI)
  show "length (le_bytes (le_word bs :: 'a word)) = length bs" by (simp add: assms)
  fix k assume "k < length (le_bytes (le_word bs :: 'a word))"
  then have k: "k < LENGTH('a) div 8" by simp
  show "le_bytes (le_word bs :: 'a word) ! k = bs ! k"
  proof (rule bit_word_eqI)
    fix i assume i: "i < LENGTH(8)"
    then have "8 * k + i < LENGTH('a)" using k by (simp add: less_eq_div_iff_mult_less_eq)
    with i k show "bit (le_bytes (le_word bs :: 'a word) ! k) i = bit (bs ! k) i"
      by (simp add: nth_le_bytes bit_ucast_iff bit_drop_bit_eq bit_le_word assms)
  qed
qed

text \<open>Adding two in-range 64-bit sizes does not wrap.\<close>

lemma unat_add_small:
  fixes a b :: size_t
  assumes "unat a < 2 ^ 63" "unat b < 2 ^ 63"
  shows "unat (a + b) = unat a + unat b"
  using assms by (simp add: unat_word_ariths)

section \<open>Most significant byte first\<close>

definition be_bytes :: "'a::len word \<Rightarrow> bytes" where
  "be_bytes w = rev (le_bytes w)"

definition be_word :: "bytes \<Rightarrow> 'a::len word" where
  "be_word bs = le_word (rev bs)"

lemma length_be_bytes [simp]: "length (be_bytes (w :: 'a::len word)) = LENGTH('a) div 8"
  by (simp add: be_bytes_def)

lemma be_word_be_bytes: "8 dvd LENGTH('a::len) \<Longrightarrow> be_word (be_bytes w) = (w :: 'a word)"
  by (simp add: be_word_def be_bytes_def le_word_le_bytes)

lemma be_bytes_be_word: "length bs = LENGTH('a::len) div 8 \<Longrightarrow> be_bytes (be_word bs :: 'a word) = bs"
  by (simp add: be_word_def be_bytes_def le_bytes_le_word)

end
