(* ===== verification/Rpc_Buffer.thy ===== *)
theory Rpc_Buffer
  imports Bytes
begin

text \<open>
  The byte level of the RPC module: the little-endian helpers
  (src/include/elio/rpc/rpc\_endian.hpp) on hosts of either byte order, and the reader,
  the writer and the scatter-gather list of src/include/elio/rpc/rpc\_buffer.hpp with
  their size\_t arithmetic at 64 bits.
\<close>

section \<open>Byte order\<close>

text \<open>The object representation of an integer on the host, and a memcpy from it.\<close>

definition host_store :: "bool \<Rightarrow> 'a::len word \<Rightarrow> bytes" where
  "host_store little w = (if little then le_bytes w else rev (le_bytes w))"

definition host_load :: "bool \<Rightarrow> bytes \<Rightarrow> 'a::len word" where
  "host_load little bs = le_word (if little then bs else rev bs)"

definition integral_byteswap :: "'a::len word \<Rightarrow> 'a word" where
  "integral_byteswap w = le_word (rev (le_bytes w))"

definition integral_host_to_le :: "bool \<Rightarrow> 'a::len word \<Rightarrow> 'a word" where
  "integral_host_to_le little w = (if little then w else integral_byteswap w)"

definition integral_le_to_host :: "bool \<Rightarrow> 'a::len word \<Rightarrow> 'a word" where
  "integral_le_to_host little w = integral_host_to_le little w"

definition write_le :: "bool \<Rightarrow> 'a::len word \<Rightarrow> bytes" where
  "write_le little w = host_store little (integral_host_to_le little w)"

definition read_le :: "bool \<Rightarrow> bytes \<Rightarrow> 'a::len word" where
  "read_le little bs = integral_le_to_host little (host_load little bs)"

definition write_le_bool :: "bool \<Rightarrow> bytes" where
  "write_le_bool b = [if b then 1 else 0]"

definition read_le_bool :: "u8 \<Rightarrow> bool" where
  "read_le_bool b \<longleftrightarrow> b \<noteq> 0"

lemma write_le_eq:
  "8 dvd LENGTH('a::len) \<Longrightarrow> write_le little (w :: 'a word) = le_bytes w"
  by (simp add: write_le_def host_store_def integral_host_to_le_def integral_byteswap_def le_bytes_le_word)

lemma read_le_eq:
  "length bs = LENGTH('a::len) div 8 \<Longrightarrow> read_le little bs = (le_word bs :: 'a word)"
  by (simp add: read_le_def host_load_def integral_le_to_host_def integral_host_to_le_def
      integral_byteswap_def le_bytes_le_word)

section \<open>buffer\_view\<close>

text \<open>
  A throw of serialization\_error or of runtime\_error is a value; an access outside the
  memory behind the pointer, which is undefined behaviour in C++, is
  \<open>Out_Of_Bounds\<close>.
\<close>

datatype rpc_fault = Serialization_Error string | Runtime_Error string | Out_Of_Bounds

record buffer_view =
  bv_data :: bytes
  bv_size :: size_t
  bv_pos :: size_t

definition mk_view :: "bytes \<Rightarrow> buffer_view" where
  "mk_view d = \<lparr>bv_data = d, bv_size = of_nat (length d), bv_pos = 0\<rparr>"

definition mem_read :: "bytes \<Rightarrow> size_t \<Rightarrow> size_t \<Rightarrow> rpc_fault + bytes" where
  "mem_read d off n =
     (if unat off + unat n \<le> length d then Inr (take (unat n) (drop (unat off) d)) else Inl Out_Of_Bounds)"

definition bv_remaining :: "buffer_view \<Rightarrow> size_t" where
  "bv_remaining v = bv_size v - bv_pos v"

definition bv_seek :: "size_t \<Rightarrow> buffer_view \<Rightarrow> rpc_fault + buffer_view" where
  "bv_seek pos v =
     (if pos > bv_size v then Inl (Serialization_Error ''seek past end of buffer'') else Inr (v\<lparr>bv_pos := pos\<rparr>))"

definition bv_skip :: "size_t \<Rightarrow> buffer_view \<Rightarrow> rpc_fault + buffer_view" where
  "bv_skip n v =
     (if bv_pos v + n > bv_size v then Inl (Serialization_Error ''skip past end of buffer'')
      else Inr (v\<lparr>bv_pos := bv_pos v + n\<rparr>))"

text \<open>peek and read of an integer type of \<open>LENGTH('a)\<close> bits; read\_into is read into a reference.\<close>

definition bv_peek :: "bool \<Rightarrow> buffer_view \<Rightarrow> rpc_fault + 'a::len word" where
  "bv_peek little v =
     (if bv_pos v + of_nat (LENGTH('a) div 8) > bv_size v
      then Inl (Serialization_Error ''peek past end of buffer'')
      else ebind (mem_read (bv_data v) (bv_pos v) (of_nat (LENGTH('a) div 8))) (\<lambda>bs. Inr (read_le little bs)))"

definition bv_read :: "bool \<Rightarrow> buffer_view \<Rightarrow> rpc_fault + 'a::len word \<times> buffer_view" where
  "bv_read little v =
     (if bv_pos v + of_nat (LENGTH('a) div 8) > bv_size v
      then Inl (Serialization_Error ''read past end of buffer'')
      else ebind (mem_read (bv_data v) (bv_pos v) (of_nat (LENGTH('a) div 8)))
        (\<lambda>bs. Inr (read_le little bs, v\<lparr>bv_pos := bv_pos v + of_nat (LENGTH('a) div 8)\<rparr>)))"

text \<open>read\_bytes makes a view of \<open>n\<close> bytes at the current position without touching them.\<close>

definition bv_read_bytes :: "size_t \<Rightarrow> buffer_view \<Rightarrow> rpc_fault + buffer_view \<times> buffer_view" where
  "bv_read_bytes n v =
     (if bv_pos v + n > bv_size v then Inl (Serialization_Error ''read_bytes past end of buffer'')
      else Inr (\<lparr>bv_data = drop (unat (bv_pos v)) (bv_data v), bv_size = n, bv_pos = 0\<rparr>,
                v\<lparr>bv_pos := bv_pos v + n\<rparr>))"

definition bv_read_counted :: "string \<Rightarrow> bool \<Rightarrow> buffer_view \<Rightarrow> rpc_fault + bytes \<times> buffer_view" where
  "bv_read_counted what little v =
     ebind (bv_read little v) (\<lambda>(n :: u32, v1).
       if (ucast n :: size_t) > bv_size v1 - bv_pos v1 then Inl (Serialization_Error what)
       else ebind (mem_read (bv_data v1) (bv_pos v1) (ucast n))
         (\<lambda>bs. Inr (bs, v1\<lparr>bv_pos := bv_pos v1 + ucast n\<rparr>)))"

definition bv_read_string :: "bool \<Rightarrow> buffer_view \<Rightarrow> rpc_fault + bytes \<times> buffer_view" where
  "bv_read_string = bv_read_counted ''string length exceeds buffer''"

definition bv_read_blob :: "bool \<Rightarrow> buffer_view \<Rightarrow> rpc_fault + bytes \<times> buffer_view" where
  "bv_read_blob = bv_read_counted ''blob length exceeds buffer''"

definition bv_read_array_size :: "bool \<Rightarrow> buffer_view \<Rightarrow> rpc_fault + u32 \<times> buffer_view" where
  "bv_read_array_size little v = bv_read little v"

section \<open>buffer\_writer and iovec\_buffer\<close>

type_synonym buffer_writer = bytes

definition bw_write :: "bool \<Rightarrow> 'a::len word \<Rightarrow> buffer_writer \<Rightarrow> buffer_writer" where
  "bw_write little x w = w @ write_le little x"

definition bw_write_bytes :: "bytes \<Rightarrow> buffer_writer \<Rightarrow> buffer_writer" where
  "bw_write_bytes src w = (if src = [] then w else w @ src)"

definition bw_write_counted :: "string \<Rightarrow> bool \<Rightarrow> bytes \<Rightarrow> buffer_writer \<Rightarrow> rpc_fault + buffer_writer" where
  "bw_write_counted what little s w =
     (if length s > 4294967295 then Inl (Serialization_Error what)
      else Inr (bw_write_bytes s (bw_write little (of_nat (length s) :: u32) w)))"

definition bw_write_string :: "bool \<Rightarrow> bytes \<Rightarrow> buffer_writer \<Rightarrow> rpc_fault + buffer_writer" where
  "bw_write_string = bw_write_counted ''string too long''"

definition bw_write_blob :: "bool \<Rightarrow> bytes \<Rightarrow> buffer_writer \<Rightarrow> rpc_fault + buffer_writer" where
  "bw_write_blob = bw_write_counted ''blob too long''"

definition bw_write_array_size :: "bool \<Rightarrow> u32 \<Rightarrow> buffer_writer \<Rightarrow> buffer_writer" where
  "bw_write_array_size little n w = bw_write little n w"

definition bw_reserve_space :: "nat \<Rightarrow> buffer_writer \<Rightarrow> nat \<times> buffer_writer" where
  "bw_reserve_space n w = (length w, w @ replicate n 0)"

definition bw_write_at :: "bool \<Rightarrow> size_t \<Rightarrow> 'a::len word \<Rightarrow> buffer_writer \<Rightarrow> rpc_fault + buffer_writer" where
  "bw_write_at little offset x w =
     (if offset + of_nat (LENGTH('a) div 8) > of_nat (length w)
      then Inl (Serialization_Error ''write_at past end of buffer'')
      else if unat offset + LENGTH('a) div 8 \<le> length w
      then Inr (take (unat offset) w @ write_le little x @ drop (unat offset + LENGTH('a) div 8) w)
      else Inl Out_Of_Bounds)"

definition bw_view :: "buffer_writer \<Rightarrow> buffer_view" where
  "bw_view w = mk_view w"

record iovec_buffer =
  iov_segs :: "bytes list"
  iov_total :: size_t

definition IOV_MAX :: nat where
  "IOV_MAX = 1024"

definition iov_add :: "bytes \<Rightarrow> iovec_buffer \<Rightarrow> rpc_fault + iovec_buffer" where
  "iov_add seg b =
     (let size = of_nat (length seg) :: size_t in
      if size > 0 then
        if length (iov_segs b) \<ge> IOV_MAX then Inl (Serialization_Error ''iovec_buffer: exceeded IOV_MAX limit'')
        else if iov_total b > - 1 - size then Inl (Serialization_Error ''iovec_buffer: total size overflow'')
        else Inr (b\<lparr>iov_segs := iov_segs b @ [seg], iov_total := iov_total b + size\<rparr>)
      else Inr b)"

definition iov_clear :: "iovec_buffer \<Rightarrow> iovec_buffer" where
  "iov_clear b = \<lparr>iov_segs = [], iov_total = 0\<rparr>"

definition iov_flatten :: "iovec_buffer \<Rightarrow> bytes" where
  "iov_flatten b = concat (iov_segs b)"

section \<open>What is left to read\<close>

text \<open>
  Well-formed views: the position is inside the buffer and the buffer inside its memory.
  No object is larger than half of the address space.
\<close>

definition view_ok :: "buffer_view \<Rightarrow> bool" where
  "view_ok v \<longleftrightarrow> bv_pos v \<le> bv_size v \<and> unat (bv_size v) \<le> length (bv_data v) \<and> unat (bv_size v) < 2 ^ 63"

definition rest_of :: "buffer_view \<Rightarrow> bytes" where
  "rest_of v = take (unat (bv_size v) - unat (bv_pos v)) (drop (unat (bv_pos v)) (bv_data v))"

lemma length_rest_of: "view_ok v \<Longrightarrow> length (rest_of v) = unat (bv_size v) - unat (bv_pos v)"
  by (auto simp: view_ok_def rest_of_def word_le_nat_alt min_def)

lemma view_ok_mk_view: "length d < 2 ^ 63 \<Longrightarrow> view_ok (mk_view d) \<and> rest_of (mk_view d) = d"
  by (simp add: view_ok_def mk_view_def rest_of_def unat_of_nat)

lemma bv_remaining_unat: "view_ok v \<Longrightarrow> unat (bv_remaining v) = length (rest_of v)"
  by (simp add: length_rest_of) (simp add: view_ok_def bv_remaining_def unat_sub)

text \<open>Taking \<open>n\<close> bytes: inside the view it yields them, otherwise the bounds test refuses.\<close>

lemma view_take:
  assumes ok: "view_ok v" and n: "unat n < 2 ^ 63"
  shows "bv_pos v + n > bv_size v \<longleftrightarrow> unat n > length (rest_of v)"
    and "unat n \<le> length (rest_of v) \<Longrightarrow>
      mem_read (bv_data v) (bv_pos v) n = Inr (take (unat n) (rest_of v)) \<and>
      view_ok (v\<lparr>bv_pos := bv_pos v + n\<rparr>) \<and> rest_of (v\<lparr>bv_pos := bv_pos v + n\<rparr>) = drop (unat n) (rest_of v)"
proof -
  have p: "unat (bv_pos v) \<le> unat (bv_size v)" "unat (bv_size v) \<le> length (bv_data v)" "unat (bv_size v) < 2 ^ 63"
    using ok by (simp_all add: view_ok_def word_le_nat_alt)
  have a: "unat (bv_pos v + n) = unat (bv_pos v) + unat n"
    by (rule unat_add_small) (use p n in auto)
  have l: "length (rest_of v) = unat (bv_size v) - unat (bv_pos v)" by (rule length_rest_of [OF ok])
  show "bv_pos v + n > bv_size v \<longleftrightarrow> unat n > length (rest_of v)"
    using p a l by (simp add: word_less_nat_alt) linarith
  assume "unat n \<le> length (rest_of v)"
  with p a l show "mem_read (bv_data v) (bv_pos v) n = Inr (take (unat n) (rest_of v)) \<and>
      view_ok (v\<lparr>bv_pos := bv_pos v + n\<rparr>) \<and> rest_of (v\<lparr>bv_pos := bv_pos v + n\<rparr>) = drop (unat n) (rest_of v)"
    by (auto simp: mem_read_def rest_of_def view_ok_def word_le_nat_alt drop_take add.commute min_def)
qed

text \<open>The integer types that occur on the wire.\<close>

definition wire_int :: "'a::len itself \<Rightarrow> bool" where
  "wire_int _ \<longleftrightarrow> 8 dvd LENGTH('a) \<and> LENGTH('a) \<le> 64"

lemma wire_ints [simp]:
  "wire_int TYPE(8)" "wire_int TYPE(16)" "wire_int TYPE(32)" "wire_int TYPE(64)"
  by (simp_all add: wire_int_def)

lemma unat_wire_size:
  assumes "wire_int TYPE('a::len)"
  shows "unat (of_nat (LENGTH('a) div 8) :: size_t) = LENGTH('a) div 8" and "LENGTH('a) div 8 \<le> 8"
proof -
  have "LENGTH('a) \<le> 64" using assms by (simp add: wire_int_def)
  then have "LENGTH('a) div 8 \<le> 64 div 8" by (rule div_le_mono)
  then show k: "LENGTH('a) div 8 \<le> 8" by simp
  then have "LENGTH('a) div 8 < 2 ^ 64" by (rule le_less_trans) simp
  then show "unat (of_nat (LENGTH('a) div 8) :: size_t) = LENGTH('a) div 8"
    by (simp add: unat_of_nat)
qed

lemma bv_read_cases:
  assumes ok: "view_ok v" and i: "wire_int TYPE('a::len)"
  shows "if LENGTH('a) div 8 \<le> length (rest_of v)
    then \<exists>v'. bv_read little v = Inr (le_word (take (LENGTH('a) div 8) (rest_of v)) :: 'a word, v') \<and>
      view_ok v' \<and> rest_of v' = drop (LENGTH('a) div 8) (rest_of v)
    else bv_read little v = (Inl (Serialization_Error ''read past end of buffer'') :: rpc_fault + 'a word \<times> buffer_view)"
proof -
  let ?n = "of_nat (LENGTH('a) div 8) :: size_t"
  have n: "unat ?n = LENGTH('a) div 8" by (rule unat_wire_size(1) [OF i])
  then have s: "unat ?n < 2 ^ 63" using unat_wire_size(2) [OF i] by simp
  note t = view_take [OF ok s]
  show ?thesis
  proof (cases "LENGTH('a) div 8 \<le> length (rest_of v)")
    case True
    then have "read_le little (take (LENGTH('a) div 8) (rest_of v)) = (le_word (take (LENGTH('a) div 8) (rest_of v)) :: 'a word)"
      by (simp add: read_le_eq)
    with True t n show ?thesis by (simp add: bv_read_def)
  next
    case False
    with t(1) n show ?thesis by (simp add: bv_read_def)
  qed
qed

lemma bv_read_encoded:
  assumes "view_ok v" and "wire_int TYPE('a::len)" and "rest_of v = le_bytes (w :: 'a word) @ r"
  shows "\<exists>v'. bv_read little v = Inr (w, v') \<and> view_ok v' \<and> rest_of v' = r"
proof -
  have t: "take (LENGTH('a) div 8) (rest_of v) = le_bytes w" "drop (LENGTH('a) div 8) (rest_of v) = r"
      "LENGTH('a) div 8 \<le> length (rest_of v)"
    by (simp_all add: assms(3))
  have "le_word (le_bytes w) = w" using assms(2) by (simp add: le_word_le_bytes wire_int_def)
  with bv_read_cases [OF assms(1,2), of little] t show ?thesis by simp
qed

lemma bv_read_counted_cases:
  assumes ok: "view_ok v" and rest: "rest_of v = le_bytes (n :: u32) @ d"
  shows "if unat n \<le> length d
    then \<exists>v'. bv_read_counted what little v = Inr (take (unat n) d, v') \<and>
      view_ok v' \<and> rest_of v' = drop (unat n) d
    else bv_read_counted what little v = Inl (Serialization_Error what)"
proof -
  obtain v1 where v1: "bv_read little v = Inr (n, v1)" "view_ok v1" "rest_of v1 = d"
    using bv_read_encoded [OF ok _ rest, of little] by auto
  have n: "unat n < 2 ^ 32" using unsigned_less [of n] by simp
  then have u: "unat (ucast n :: size_t) = unat n" by (simp add: unsigned_ucast_eq take_bit_nat_eq_self_iff)
  with n have s: "unat (ucast n :: size_t) < 2 ^ 63" by simp
  have r: "unat (bv_size v1 - bv_pos v1) = length d"
    using bv_remaining_unat [OF v1(2)] v1(3) by (simp add: bv_remaining_def)
  show ?thesis
  proof (cases "unat n \<le> length d")
    case True
    with view_take(2) [OF v1(2) s] v1 u r show ?thesis
      by (simp add: bv_read_counted_def word_less_nat_alt)
  next
    case False
    with v1 u r show ?thesis by (simp add: bv_read_counted_def word_less_nat_alt)
  qed
qed

section \<open>Codecs\<close>

text \<open>
  The contract of an encoding: the decoder, started where an encoded value begins,
  returns the value and stops right behind it.
\<close>

locale wire_codec =
  fixes enc :: "'a \<Rightarrow> bytes"
    and dec :: "buffer_view \<Rightarrow> rpc_fault + 'a \<times> buffer_view"
    and ok :: "'a \<Rightarrow> bool"
  assumes dec_enc: "ok x \<Longrightarrow> view_ok v \<Longrightarrow> rest_of v = enc x @ r \<Longrightarrow>
    \<exists>v'. dec v = Inr (x, v') \<and> view_ok v' \<and> rest_of v' = r"
begin

lemma dec_whole:
  assumes "ok x" "length (enc x) < 2 ^ 63"
  shows "\<exists>v'. dec (mk_view (enc x)) = Inr (x, v') \<and> view_ok v' \<and> rest_of v' = []"
  using dec_enc [OF assms(1), of "mk_view (enc x)" "[]"] view_ok_mk_view [OF assms(2)] by simp

lemma enc_prefix_free:
  assumes "ok x" "ok y" "enc x @ r = enc y @ s" "length (enc x @ r) < 2 ^ 63"
  shows "x = y \<and> r = s"
proof -
  let ?v = "mk_view (enc x @ r)"
  have v: "view_ok ?v" "rest_of ?v = enc x @ r" "rest_of ?v = enc y @ s"
    using view_ok_mk_view [OF assms(4)] assms(3) by simp_all
  obtain a where a: "dec ?v = Inr (x, a)" "rest_of a = r" using dec_enc [OF assms(1) v(1,2)] by blast
  obtain b where b: "dec ?v = Inr (y, b)" "rest_of b = s" using dec_enc [OF assms(2) v(1,3)] by blast
  from a b show ?thesis by simp
qed

end

text \<open>The loop that reads \<open>n\<close> elements.\<close>

fun read_n :: "nat \<Rightarrow> (buffer_view \<Rightarrow> rpc_fault + 'a \<times> buffer_view) \<Rightarrow> buffer_view \<Rightarrow> rpc_fault + 'a list \<times> buffer_view" where
  "read_n 0 dec v = Inr ([], v)"
| "read_n (Suc n) dec v =
     ebind (dec v) (\<lambda>(x, v1). ebind (read_n n dec v1) (\<lambda>(xs, v2). Inr (x # xs, v2)))"

context wire_codec
begin

lemma read_n_encoded:
  "\<forall>x \<in> set xs. ok x \<Longrightarrow> view_ok v \<Longrightarrow> rest_of v = concat (map enc xs) @ r \<Longrightarrow>
   \<exists>v'. read_n (length xs) dec v = Inr (xs, v') \<and> view_ok v' \<and> rest_of v' = r"
proof (induction xs arbitrary: v)
  case Nil
  then show ?case by simp
next
  case (Cons x xs)
  obtain v1 where v1: "dec v = Inr (x, v1)" "view_ok v1" "rest_of v1 = concat (map enc xs) @ r"
    using dec_enc [of x v "concat (map enc xs) @ r"] Cons.prems by auto
  then obtain v2 where "read_n (length xs) dec v1 = Inr (xs, v2)" "view_ok v2" "rest_of v2 = r"
    using Cons.IH [of v1] Cons.prems(1) by auto
  with v1 show ?case by simp
qed

end

interpretation int_codec: wire_codec "le_bytes :: 'a::len word \<Rightarrow> bytes" "bv_read little" "\<lambda>_. wire_int TYPE('a)"
  for little
  by unfold_locales (rule bv_read_encoded)

definition counted_bytes :: "bytes \<Rightarrow> bytes" where
  "counted_bytes s = le_bytes (of_nat (length s) :: u32) @ s"

interpretation counted_codec: wire_codec counted_bytes "bv_read_counted what little" "\<lambda>s. length s < 2 ^ 32"
  for what little
proof unfold_locales
  fix s v r
  assume s: "length s < 2 ^ 32" and v: "view_ok v" "rest_of v = counted_bytes s @ r"
  let ?n = "of_nat (length s) :: u32"
  have n: "unat ?n = length s" using s by (simp add: unat_of_nat)
  from bv_read_counted_cases [OF v(1), of ?n "s @ r" what little] v(2) n
  show "\<exists>v'. bv_read_counted what little v = Inr (s, v') \<and> view_ok v' \<and> rest_of v' = r"
    by (simp add: counted_bytes_def)
qed

section \<open>Every read stays inside\<close>

text \<open>
  A read is safe when it does not leave the memory of the buffer, and on success only
  moves the position, forward and not past the end.
\<close>

definition safe_read :: "buffer_view \<Rightarrow> rpc_fault + 'a \<times> buffer_view \<Rightarrow> bool" where
  "safe_read v r =
     (case r of
        Inl e \<Rightarrow> e \<noteq> Out_Of_Bounds
      | Inr (x, v') \<Rightarrow> view_ok v' \<and> v' = v\<lparr>bv_pos := bv_pos v'\<rparr> \<and> bv_pos v \<le> bv_pos v')"

lemma view_ok_pos_le: "view_ok (v\<lparr>bv_pos := p\<rparr>) \<Longrightarrow> view_ok v \<Longrightarrow> rest_of (v\<lparr>bv_pos := p\<rparr>) = drop n (rest_of v) \<Longrightarrow> bv_pos v \<le> p"
  using length_rest_of [of v] length_rest_of [of "v\<lparr>bv_pos := p\<rparr>"]
  by (simp add: view_ok_def word_le_nat_alt)

lemma bv_read_safe:
  assumes ok: "view_ok v" and i: "wire_int TYPE('a::len)"
  shows "safe_read v (bv_read little v :: rpc_fault + 'a word \<times> buffer_view)"
proof (cases "LENGTH('a) div 8 \<le> length (rest_of v)")
  case True
  then obtain x :: "'a word" and v' where r: "bv_read little v = Inr (x, v')" "view_ok v'"
      "rest_of v' = drop (LENGTH('a) div 8) (rest_of v)"
    using bv_read_cases [OF ok i, of little] by auto
  moreover have "v' = v\<lparr>bv_pos := bv_pos v'\<rparr>"
    using r(1) by (auto simp: bv_read_def ebind_Inr_iff split: if_splits)
  ultimately show ?thesis
    using view_ok_pos_le [where v = v and p = "bv_pos v'"] ok by (simp add: safe_read_def)
next
  case False
  with bv_read_cases [OF ok i, of little] show ?thesis by (simp add: safe_read_def)
qed

lemma bv_read_counted_safe:
  assumes ok: "view_ok v"
  shows "safe_read v (bv_read_counted what little v)"
proof (cases "bv_read little v :: rpc_fault + u32 \<times> buffer_view")
  case (Inl e)
  with bv_read_safe [where 'a = 32, OF ok, of little] show ?thesis
    by (simp add: safe_read_def bv_read_counted_def)
next
  case (Inr p)
  then obtain n v1 where p: "bv_read little v = Inr (n :: u32, v1)" by (cases p) simp
  with bv_read_safe [where 'a = 32, OF ok, of little]
  have v1: "view_ok v1" "v1 = v\<lparr>bv_pos := bv_pos v1\<rparr>" "bv_pos v \<le> bv_pos v1" by (simp_all add: safe_read_def)
  have "unat n < 2 ^ 32" using unsigned_less [of n] by simp
  then have u: "unat (ucast n :: size_t) = unat n" by (simp add: unsigned_ucast_eq take_bit_nat_eq_self_iff)
  then have s: "unat (ucast n :: size_t) < 2 ^ 63" using \<open>unat n < 2 ^ 32\<close> by simp
  have r: "unat (bv_size v1 - bv_pos v1) = length (rest_of v1)"
    using bv_remaining_unat [OF v1(1)] by (simp add: bv_remaining_def)
  show ?thesis
  proof (cases "unat n \<le> length (rest_of v1)")
    case True
    let ?v2 = "v1\<lparr>bv_pos := bv_pos v1 + ucast n\<rparr>"
    have t: "mem_read (bv_data v1) (bv_pos v1) (ucast n) = Inr (take (unat n) (rest_of v1))" "view_ok ?v2"
        "rest_of ?v2 = drop (unat n) (rest_of v1)"
      using view_take(2) [OF v1(1) s] True u by simp_all
    have le: "bv_pos v1 \<le> bv_pos v1 + ucast n" by (rule view_ok_pos_le [OF t(2) v1(1) t(3)])
    have "bv_read_counted what little v = Inr (take (unat n) (rest_of v1), ?v2)"
      using p t(1) True u r by (simp add: bv_read_counted_def word_less_nat_alt)
    moreover have "?v2 = v\<lparr>bv_pos := bv_pos v1 + ucast n\<rparr>" by (subst v1(2)) simp
    moreover have "bv_pos v \<le> bv_pos v1 + ucast n" using v1(3) le by (rule order_trans)
    ultimately show ?thesis using t(2) by (simp add: safe_read_def)
  next
    case False
    with p u r show ?thesis by (simp add: bv_read_counted_def word_less_nat_alt safe_read_def)
  qed
qed

section \<open>Properties\<close>





definition iov_ok :: "iovec_buffer \<Rightarrow> bool" where
  "iov_ok b \<longleftrightarrow> unat (iov_total b) = length (iov_flatten b) \<and> length (iov_segs b) \<le> IOV_MAX \<and> [] \<notin> set (iov_segs b)"

fun iov_adds :: "bytes list \<Rightarrow> iovec_buffer \<Rightarrow> rpc_fault + iovec_buffer" where
  "iov_adds [] b = Inr b"
| "iov_adds (s # ss) b = ebind (iov_add s b) (iov_adds ss)"

lemma iov_add_ok:
  assumes ok: "iov_ok b" and s: "length s < 2 ^ 64" and r: "iov_add s b = Inr b'"
  shows "iov_ok b' \<and> iov_flatten b' = iov_flatten b @ s"
proof (cases "s = []")
  case True
  with ok r show ?thesis by (simp add: iov_add_def)
next
  case False
  let ?n = "of_nat (length s) :: size_t"
  have n: "unat ?n = length s" using s by (simp add: unat_of_nat)
  then have n0: "?n > 0" using False by (simp add: word_less_nat_alt)
  with r have c: "length (iov_segs b) < IOV_MAX" "\<not> iov_total b > - 1 - ?n"
      "b' = b\<lparr>iov_segs := iov_segs b @ [s], iov_total := iov_total b + ?n\<rparr>"
    by (auto simp: iov_add_def Let_def not_le split: if_splits)
  have m: "unat (- 1 - ?n :: size_t) = 2 ^ 64 - 1 - length s"
  proof -
    have "unat (- 1 :: size_t) = 2 ^ 64 - 1" by (simp add: unsigned_minus_1_eq_mask mask_eq_exp_minus_1)
    moreover have "?n \<le> - 1" by (rule word_order.extremum)
    ultimately show ?thesis by (simp add: unat_sub n)
  qed
  have "unat (iov_total b) + length s < 2 ^ 64"
    using c(2) s by (simp add: word_less_nat_alt m)
  then have "unat (iov_total b + ?n) = unat (iov_total b) + length s"
    by (simp add: unat_word_ariths n)
  with ok c False show ?thesis by (auto simp: iov_ok_def iov_flatten_def)
qed

text \<open>
  The scatter-gather list keeps its promises. After any sequence of successful
  additions to an empty list, the total size is exactly the number of bytes that
  flattening yields, without wrap-around, no segment is empty, and there are at most
  IOV\_MAX segments.
\<close>

theorem iovec_buffer_total_exact:
  assumes "\<forall>s \<in> set segs. length s < 2 ^ 64" and "iov_adds segs \<lparr>iov_segs = [], iov_total = 0\<rparr> = Inr b"
  shows "unat (iov_total b) = length (iov_flatten b) \<and> iov_flatten b = concat segs \<and>
    length (iov_segs b) \<le> IOV_MAX \<and> [] \<notin> set (iov_segs b)"
proof -
  have "iov_ok b' \<and> iov_flatten b' = iov_flatten b0 @ concat ss"
    if "iov_ok b0" "\<forall>s \<in> set ss. length s < 2 ^ 64" "iov_adds ss b0 = Inr b'" for b0 b' ss
    using that
  proof (induction ss arbitrary: b0)
    case Nil
    then show ?case by simp
  next
    case (Cons s ss)
    then obtain b1 where b1: "iov_add s b0 = Inr b1" "iov_adds ss b1 = Inr b'" by (auto simp: ebind_Inr_iff)
    with iov_add_ok [OF Cons.prems(1), of s b1] Cons.prems(2) Cons.IH [of b1] show ?case by simp
  qed
  from this [of "\<lparr>iov_segs = [], iov_total = 0\<rparr>" segs b] assms show ?thesis
    by (simp add: iov_ok_def iov_flatten_def)
qed

theorem iovec_buffer_total_exact_witness:
  "\<exists>b. iov_adds [[1, 2], [], [3]] \<lparr>iov_segs = [], iov_total = 0\<rparr> = Inr b \<and>
     unat (iov_total b) = length (iov_flatten b) \<and> iov_flatten b = [1, 2, 3]"
proof -
  obtain b where b: "iov_adds [[1, 2], [], [3]] \<lparr>iov_segs = [], iov_total = 0\<rparr> = Inr b"
    by (simp add: iov_add_def IOV_MAX_def)
  with iovec_buffer_total_exact [OF _ b] show ?thesis by simp
qed

end
