(* ===== verification/Rpc_Types.thy ===== *)
theory Rpc_Types
  imports Rpc_Buffer
begin

text \<open>
  Typed serialization (src/include/elio/rpc/rpc\_types.hpp). The C++ overloads are chosen by
  type; here a schema (\<open>rty\<close>) describes the static type, \<open>rval\<close> is a value of any of
  them, and the overload set is one recursive function on either. Floating-point
  values are their bit patterns. A map is listed in its iteration order.
\<close>

section \<open>Schemas and values\<close>

datatype rty =
    TInt nat
  | TBool
  | TString
  | TBlob
  | TRef
  | TVector rty
  | TArray nat rty
  | TMap rty rty
  | TOptional rty
  | TStruct "rty list"

datatype rval =
    VInt nat u64
  | VBool bool
  | VString bytes
  | VBlob bytes
  | VRef bytes
  | VVector "rval list"
  | VArray "rval list"
  | VMap "(rval \<times> rval) list"
  | VOptional "rval option"
  | VStruct "rval list"

definition max_message_size :: nat where
  "max_message_size = 16 * 1024 * 1024"

definition max_container_count :: nat where
  "max_container_count = max_message_size"

text \<open>min\_wire\_size: 1 unless specialized; aggregates and buffer\_ref are not specialized.\<close>

fun min_wire_size :: "rty \<Rightarrow> nat" where
  "min_wire_size (TInt n) = n"
| "min_wire_size TBool = 1"
| "min_wire_size TString = 4"
| "min_wire_size TBlob = 4"
| "min_wire_size TRef = 1"
| "min_wire_size (TVector t) = 4"
| "min_wire_size (TArray n t) = n * min_wire_size t"
| "min_wire_size (TMap k v) = 4"
| "min_wire_size (TOptional t) = 1"
| "min_wire_size (TStruct ts) = 1"

definition check_container_count :: "nat \<Rightarrow> u32 \<Rightarrow> size_t \<Rightarrow> rpc_fault + unit" where
  "check_container_count min_elem count remaining =
     (if unat count > max_container_count
      then Inl (Serialization_Error ''container count exceeds max_container_count'')
      else if min_elem > 0 \<and> unat count > unat remaining div min_elem
      then Inl (Serialization_Error ''container count exceeds remaining buffer'')
      else Inr ())"

section \<open>Serialization\<close>

definition write_int :: "bool \<Rightarrow> nat \<Rightarrow> u64 \<Rightarrow> buffer_writer \<Rightarrow> buffer_writer" where
  "write_int little n x w =
     (if n = 1 then bw_write little (ucast x :: u8) w
      else if n = 2 then bw_write little (ucast x :: u16) w
      else if n = 4 then bw_write little (ucast x :: u32) w
      else bw_write little x w)"

fun ser_all :: "(buffer_writer \<Rightarrow> rpc_fault + buffer_writer) list \<Rightarrow> buffer_writer \<Rightarrow> rpc_fault + buffer_writer" where
  "ser_all [] w = Inr w"
| "ser_all (f # fs) w = ebind (f w) (ser_all fs)"

definition ser_pair ::
    "(buffer_writer \<Rightarrow> rpc_fault + buffer_writer) \<times> (buffer_writer \<Rightarrow> rpc_fault + buffer_writer) \<Rightarrow>
     buffer_writer \<Rightarrow> rpc_fault + buffer_writer" where
  "ser_pair p w = ebind (fst p w) (snd p)"

primrec serialize :: "bool \<Rightarrow> rval \<Rightarrow> buffer_writer \<Rightarrow> rpc_fault + buffer_writer" where
  "serialize little (VInt n x) = (\<lambda>w. Inr (write_int little n x w))"
| "serialize little (VBool b) = (\<lambda>w. Inr (w @ write_le_bool b))"
| "serialize little (VString s) = bw_write_string little s"
| "serialize little (VBlob s) = bw_write_blob little s"
| "serialize little (VRef s) = bw_write_blob little s"
| "serialize little (VVector vs) = (\<lambda>w.
     ser_all (map (serialize little) vs) (bw_write_array_size little (of_nat (length vs)) w))"
| "serialize little (VArray vs) = ser_all (map (serialize little) vs)"
| "serialize little (VMap kvs) = (\<lambda>w.
     ser_all (map ser_pair (map (map_prod (serialize little) (serialize little)) kvs))
       (bw_write_array_size little (of_nat (length kvs)) w))"
| "serialize little (VOptional ov) = (\<lambda>w.
     case map_option (serialize little) ov of
       None \<Rightarrow> Inr (bw_write little (0 :: u8) w)
     | Some f \<Rightarrow> f (bw_write little (1 :: u8) w))"
| "serialize little (VStruct vs) = ser_all (map (serialize little) vs)"

section \<open>Deserialization\<close>

definition read_int :: "bool \<Rightarrow> nat \<Rightarrow> buffer_view \<Rightarrow> rpc_fault + rval \<times> buffer_view" where
  "read_int little n v =
     (if n = 1 then ebind (bv_read little v) (\<lambda>(x :: u8, v'). Inr (VInt n (ucast x), v'))
      else if n = 2 then ebind (bv_read little v) (\<lambda>(x :: u16, v'). Inr (VInt n (ucast x), v'))
      else if n = 4 then ebind (bv_read little v) (\<lambda>(x :: u32, v'). Inr (VInt n (ucast x), v'))
      else ebind (bv_read little v) (\<lambda>(x :: u64, v'). Inr (VInt n x, v')))"

definition read_bool :: "bool \<Rightarrow> buffer_view \<Rightarrow> rpc_fault + rval \<times> buffer_view" where
  "read_bool little v = ebind (bv_read little v) (\<lambda>(x :: u8, v'). Inr (VBool (read_le_bool x), v'))"

definition read_pair ::
    "(buffer_view \<Rightarrow> rpc_fault + 'a \<times> buffer_view) \<Rightarrow> (buffer_view \<Rightarrow> rpc_fault + 'b \<times> buffer_view) \<Rightarrow>
     buffer_view \<Rightarrow> rpc_fault + ('a \<times> 'b) \<times> buffer_view" where
  "read_pair f g v = ebind (f v) (\<lambda>(x, v1). ebind (g v1) (\<lambda>(y, v2). Inr ((x, y), v2)))"

fun read_all ::
    "(buffer_view \<Rightarrow> rpc_fault + rval \<times> buffer_view) list \<Rightarrow> buffer_view \<Rightarrow> rpc_fault + rval list \<times> buffer_view" where
  "read_all [] v = Inr ([], v)"
| "read_all (f # fs) v = ebind (f v) (\<lambda>(x, v1). ebind (read_all fs v1) (\<lambda>(xs, v2). Inr (x # xs, v2)))"

text \<open>emplace keeps the first value of a key.\<close>

fun emplace_all :: "(rval \<times> rval) list \<Rightarrow> (rval \<times> rval) list \<Rightarrow> (rval \<times> rval) list" where
  "emplace_all m [] = m"
| "emplace_all m ((k, v) # kvs) = emplace_all (if k \<in> fst ` set m then m else m @ [(k, v)]) kvs"

text \<open>A counted loop: the prefix, the check against the remaining bytes, the elements.\<close>

definition read_counted ::
    "bool \<Rightarrow> nat \<Rightarrow> (buffer_view \<Rightarrow> rpc_fault + 'a \<times> buffer_view) \<Rightarrow> buffer_view \<Rightarrow>
     rpc_fault + 'a list \<times> buffer_view" where
  "read_counted little min_elem dec v =
     ebind (bv_read_array_size little v) (\<lambda>(count, v1).
       ebind (check_container_count min_elem count (bv_remaining v1)) (\<lambda>_.
         read_n (unat count) dec v1))"

primrec deserialize :: "bool \<Rightarrow> rty \<Rightarrow> buffer_view \<Rightarrow> rpc_fault + rval \<times> buffer_view" where
  "deserialize little (TInt n) = read_int little n"
| "deserialize little TBool = read_bool little"
| "deserialize little TString = (\<lambda>v. ebind (bv_read_string little v) (\<lambda>(s, v'). Inr (VString s, v')))"
| "deserialize little TBlob = (\<lambda>v. ebind (bv_read_blob little v) (\<lambda>(s, v'). Inr (VBlob s, v')))"
| "deserialize little TRef = (\<lambda>v. ebind (bv_read_blob little v) (\<lambda>(s, v'). Inr (VRef s, v')))"
| "deserialize little (TVector t) = (\<lambda>v.
     ebind (read_counted little (min_wire_size t) (deserialize little t) v) (\<lambda>(vs, v'). Inr (VVector vs, v')))"
| "deserialize little (TArray n t) = (\<lambda>v.
     ebind (read_n n (deserialize little t) v) (\<lambda>(vs, v'). Inr (VArray vs, v')))"
| "deserialize little (TMap kt vt) = (\<lambda>v.
     ebind (read_counted little (min_wire_size kt + min_wire_size vt)
              (read_pair (deserialize little kt) (deserialize little vt)) v)
       (\<lambda>(kvs, v'). Inr (VMap (emplace_all [] kvs), v')))"
| "deserialize little (TOptional t) = (\<lambda>v.
     ebind (bv_read little v) (\<lambda>(has_value :: u8, v1).
       if has_value \<noteq> 0 then ebind (deserialize little t v1) (\<lambda>(x, v2). Inr (VOptional (Some x), v2))
       else Inr (VOptional None, v1)))"
| "deserialize little (TStruct ts) = (\<lambda>v.
     ebind (read_all (map (deserialize little) ts) v) (\<lambda>(vs, v'). Inr (VStruct vs, v')))"

section \<open>Well-typed values and their encoding\<close>

fun all2 :: "('a \<Rightarrow> bool) list \<Rightarrow> 'a list \<Rightarrow> bool" where
  "all2 [] [] \<longleftrightarrow> True"
| "all2 (p # ps) (x # xs) \<longleftrightarrow> p x \<and> all2 ps xs"
| "all2 _ _ \<longleftrightarrow> False"

primrec well_typed :: "rty \<Rightarrow> rval \<Rightarrow> bool" where
  "well_typed (TInt n) = (\<lambda>v. case v of VInt m x \<Rightarrow> m = n \<and> n \<in> {1, 2, 4, 8} \<and> unat x < 256 ^ n | _ \<Rightarrow> False)"
| "well_typed TBool = (\<lambda>v. case v of VBool b \<Rightarrow> True | _ \<Rightarrow> False)"
| "well_typed TString = (\<lambda>v. case v of VString s \<Rightarrow> length s < 2 ^ 32 | _ \<Rightarrow> False)"
| "well_typed TBlob = (\<lambda>v. case v of VBlob s \<Rightarrow> length s < 2 ^ 32 | _ \<Rightarrow> False)"
| "well_typed TRef = (\<lambda>v. case v of VRef s \<Rightarrow> length s < 2 ^ 32 | _ \<Rightarrow> False)"
| "well_typed (TVector t) = (\<lambda>v. case v of
     VVector vs \<Rightarrow> length vs \<le> max_container_count \<and> (\<forall>x \<in> set vs. well_typed t x) | _ \<Rightarrow> False)"
| "well_typed (TArray n t) = (\<lambda>v. case v of
     VArray vs \<Rightarrow> length vs = n \<and> (\<forall>x \<in> set vs. well_typed t x) | _ \<Rightarrow> False)"
| "well_typed (TMap kt vt) = (\<lambda>v. case v of
     VMap kvs \<Rightarrow> length kvs \<le> max_container_count \<and> distinct (map fst kvs) \<and>
       (\<forall>p \<in> set kvs. well_typed kt (fst p) \<and> well_typed vt (snd p)) | _ \<Rightarrow> False)"
| "well_typed (TOptional t) = (\<lambda>v. case v of
     VOptional ov \<Rightarrow> (case ov of None \<Rightarrow> True | Some x \<Rightarrow> well_typed t x) | _ \<Rightarrow> False)"
| "well_typed (TStruct ts) = (\<lambda>v. case v of VStruct vs \<Rightarrow> all2 (map well_typed ts) vs | _ \<Rightarrow> False)"

text \<open>The bytes of a value.\<close>

primrec enc_val :: "rval \<Rightarrow> bytes" where
  "enc_val (VInt n x) = take n (le_bytes x)"
| "enc_val (VBool b) = write_le_bool b"
| "enc_val (VString s) = counted_bytes s"
| "enc_val (VBlob s) = counted_bytes s"
| "enc_val (VRef s) = counted_bytes s"
| "enc_val (VVector vs) = le_bytes (of_nat (length vs) :: u32) @ concat (map enc_val vs)"
| "enc_val (VArray vs) = concat (map enc_val vs)"
| "enc_val (VMap kvs) =
     le_bytes (of_nat (length kvs) :: u32) @
     concat (map (\<lambda>p. fst p @ snd p) (map (map_prod enc_val enc_val) kvs))"
| "enc_val (VOptional ov) = (case map_option enc_val ov of None \<Rightarrow> [0] | Some bs \<Rightarrow> 1 # bs)"
| "enc_val (VStruct vs) = concat (map enc_val vs)"

text \<open>
  The least number of bytes a value of the type really occupies, and the schemas in
  which the element bound min\_wire\_size is not larger than that.
\<close>

primrec wire_min :: "rty \<Rightarrow> nat" where
  "wire_min (TInt n) = n"
| "wire_min TBool = 1"
| "wire_min TString = 4"
| "wire_min TBlob = 4"
| "wire_min TRef = 4"
| "wire_min (TVector t) = 4"
| "wire_min (TArray n t) = n * wire_min t"
| "wire_min (TMap k v) = 4"
| "wire_min (TOptional t) = 1"
| "wire_min (TStruct ts) = sum_list (map wire_min ts)"

primrec counts_ok :: "rty \<Rightarrow> bool" where
  "counts_ok (TInt n) \<longleftrightarrow> True"
| "counts_ok TBool \<longleftrightarrow> True"
| "counts_ok TString \<longleftrightarrow> True"
| "counts_ok TBlob \<longleftrightarrow> True"
| "counts_ok TRef \<longleftrightarrow> True"
| "counts_ok (TVector t) \<longleftrightarrow> min_wire_size t \<le> wire_min t \<and> counts_ok t"
| "counts_ok (TArray n t) \<longleftrightarrow> counts_ok t"
| "counts_ok (TMap k v) \<longleftrightarrow> min_wire_size k \<le> wire_min k \<and> min_wire_size v \<le> wire_min v \<and> counts_ok k \<and> counts_ok v"
| "counts_ok (TOptional t) \<longleftrightarrow> counts_ok t"
| "counts_ok (TStruct ts) \<longleftrightarrow> list_all id (map counts_ok ts)"

section \<open>Any bytes are read safely\<close>

lemma safe_read_return: "view_ok v \<Longrightarrow> safe_read v (Inr (x, v))"
  by (simp add: safe_read_def)

lemma safe_read_bind:
  assumes r: "safe_read v r" and f: "\<And>x v'. r = Inr (x, v') \<Longrightarrow> view_ok v' \<Longrightarrow> safe_read v' (f (x, v'))"
  shows "safe_read v (ebind r f)"
proof (cases r)
  case (Inl e)
  with r show ?thesis by (simp add: safe_read_def)
next
  case (Inr p)
  obtain x v1 where p: "p = (x, v1)" by (cases p)
  have v1: "view_ok v1" "v1 = v\<lparr>bv_pos := bv_pos v1\<rparr>" "bv_pos v \<le> bv_pos v1"
    using r by (simp_all add: Inr p safe_read_def)
  note s = f [unfolded Inr p, OF refl v1(1)]
  show ?thesis
  proof (cases "f (x, v1)")
    case (Inl e)
    with s show ?thesis by (simp add: Inr p safe_read_def)
  next
    case fr: (Inr q)
    obtain y v2 where q: "q = (y, v2)" by (cases q)
    have v2: "view_ok v2" "v2 = v1\<lparr>bv_pos := bv_pos v2\<rparr>" "bv_pos v1 \<le> bv_pos v2"
      using s by (simp_all add: fr q safe_read_def)
    have "v2 = v\<lparr>bv_pos := bv_pos v2\<rparr>" by (subst v2(2), subst v1(2)) simp
    with v1 v2 show ?thesis by (auto simp: Inr p fr q safe_read_def intro: order_trans)
  qed
qed

lemma safe_read_map: "safe_read v r \<Longrightarrow> safe_read v (ebind r (\<lambda>(x, v'). Inr (g x, v')))"
  by (rule safe_read_bind) (auto intro: safe_read_return)

lemma read_n_safe:
  "(\<And>v. view_ok v \<Longrightarrow> safe_read v (dec v)) \<Longrightarrow> view_ok v \<Longrightarrow> safe_read v (read_n n dec v)"
  by (induction n arbitrary: v) (auto intro!: safe_read_bind safe_read_return)

lemma read_all_safe:
  "(\<And>f v. f \<in> set fs \<Longrightarrow> view_ok v \<Longrightarrow> safe_read v (f v)) \<Longrightarrow> view_ok v \<Longrightarrow> safe_read v (read_all fs v)"
  by (induction fs arbitrary: v) (auto intro!: safe_read_bind safe_read_return)

lemma read_pair_safe:
  "(\<And>v. view_ok v \<Longrightarrow> safe_read v (f v)) \<Longrightarrow> (\<And>v. view_ok v \<Longrightarrow> safe_read v (g v)) \<Longrightarrow>
   view_ok v \<Longrightarrow> safe_read v (read_pair f g v)"
  by (auto simp: read_pair_def intro!: safe_read_bind safe_read_return)

lemma read_counted_safe:
  assumes "\<And>v. view_ok v \<Longrightarrow> safe_read v (dec v)" and "view_ok v"
  shows "safe_read v (read_counted little m dec v)"
  unfolding read_counted_def
proof (rule safe_read_bind, unfold prod.case)
  show "safe_read v (bv_read_array_size little v)"
    using assms(2) by (simp add: bv_read_array_size_def bv_read_safe)
  fix count v1 assume v1: "view_ok v1"
  show "safe_read v1 (ebind (check_container_count m count (bv_remaining v1)) (\<lambda>_. read_n (unat count) dec v1))"
    using read_n_safe [OF assms(1) v1, of "unat count"]
    by (simp add: check_container_count_def) (simp add: safe_read_def)
qed

lemma read_int_safe: "view_ok v \<Longrightarrow> safe_read v (read_int little n v)"
  by (auto simp: read_int_def intro!: safe_read_map bv_read_safe)

lemma deserialize_safe: "view_ok v \<Longrightarrow> safe_read v (deserialize little t v)"
proof (induction t arbitrary: v)
  case (TOptional t)
  then show ?case
    by (auto intro!: safe_read_bind bv_read_safe safe_read_map safe_read_return)
next
  case (TStruct ts)
  then show ?case by (auto intro!: safe_read_map read_all_safe)
qed (auto simp: read_bool_def bv_read_string_def bv_read_blob_def intro!: safe_read_map read_int_safe bv_read_safe
       bv_read_counted_safe read_counted_safe read_n_safe read_pair_safe)

section \<open>Round trip\<close>

lemma le_bytes_ucast:
  assumes "LENGTH('b::len) \<le> LENGTH('a::len)"
  shows "take (LENGTH('b) div 8) (le_bytes (x :: 'a word)) = le_bytes (ucast x :: 'b word)"
proof (rule nth_equalityI)
  have "LENGTH('b) div 8 \<le> LENGTH('a) div 8" using assms by (rule div_le_mono)
  then show l: "length (take (LENGTH('b) div 8) (le_bytes x)) = length (le_bytes (ucast x :: 'b word))" by simp
  fix k assume "k < length (take (LENGTH('b) div 8) (le_bytes x))"
  then have k: "k < LENGTH('b) div 8" "k < LENGTH('a) div 8" by simp_all
  then have "8 * k + i < LENGTH('b)" if "i < 8" for i
    using that by (simp add: less_eq_div_iff_mult_less_eq)
  with k show "take (LENGTH('b) div 8) (le_bytes x) ! k = le_bytes (ucast x :: 'b word) ! k"
    by (auto simp: nth_le_bytes bit_ucast_iff bit_drop_bit_eq intro!: bit_word_eqI)
qed

lemma take_le_bytes_u64:
  "take 1 (le_bytes (x :: u64)) = le_bytes (ucast x :: u8)"
  "take 2 (le_bytes (x :: u64)) = le_bytes (ucast x :: u16)"
  "take 4 (le_bytes (x :: u64)) = le_bytes (ucast x :: u32)"
  "take 8 (le_bytes (x :: u64)) = le_bytes x"
  using le_bytes_ucast [where 'b = 8, of x] le_bytes_ucast [where 'b = 16, of x] le_bytes_ucast [where 'b = 32, of x]
  by simp_all

lemma ucast_ucast_small:
  fixes x :: u64
  assumes "unat x < 2 ^ LENGTH('b::len)" "LENGTH('b) \<le> 64"
  shows "ucast (ucast x :: 'b word) = x"
proof (rule bit_word_eqI)
  fix i assume "i < LENGTH(64)"
  have "\<not> bit x i" if "LENGTH('b) \<le> i"
  proof -
    have "take_bit LENGTH('b) (unat x) = unat x" using assms(1) by (simp add: take_bit_nat_eq_self_iff)
    then have "\<not> bit (unat x) i" using that by (metis bit_take_bit_iff leD)
    then show ?thesis by (simp add: bit_unsigned_iff)
  qed
  then show "bit (ucast (ucast x :: 'b word) :: u64) i = bit x i"
    by (cases "LENGTH('b) \<le> i") (auto simp: bit_ucast_iff dest: bit_imp_le_length)
qed

lemma write_int_enc: "n \<in> {1, 2, 4, 8} \<Longrightarrow> write_int little n x w = w @ take n (le_bytes x)"
  by (auto simp: write_int_def bw_write_def write_le_eq take_le_bytes_u64 take_le_bytes_u64(1) [unfolded One_nat_def])

lemma bw_write_counted_enc: "length s < 2 ^ 32 \<Longrightarrow> bw_write_counted what little s w = Inr (w @ counted_bytes s)"
  by (auto simp: bw_write_counted_def bw_write_def bw_write_bytes_def write_le_eq counted_bytes_def)

lemma ser_all_enc:
  "(\<And>x w. x \<in> set xs \<Longrightarrow> f x w = Inr (w @ e x)) \<Longrightarrow> ser_all (map f xs) w = Inr (w @ concat (map e xs))"
  by (induction xs arbitrary: w) simp_all

lemma all2_nth: "all2 ps xs \<longleftrightarrow> length ps = length xs \<and> (\<forall>i < length xs. (ps ! i) (xs ! i))"
proof (induction ps xs rule: all2.induct)
  case (2 p ps x xs)
  then show ?case by (auto simp: less_Suc_eq_0_disj)
qed auto

lemma all2_map: "all2 (map p ts) xs \<Longrightarrow> x \<in> set xs \<Longrightarrow> \<exists>t \<in> set ts. p t x"
  by (fastforce simp: all2_nth set_conv_nth)

text \<open>The serializer writes exactly the encoding and does not throw.\<close>

lemma serialize_enc: "well_typed t v \<Longrightarrow> serialize little v w = Inr (w @ enc_val v)"
proof (induction t arbitrary: v w)
  case (TVector t)
  then obtain vs where v: "v = VVector vs" "\<forall>x \<in> set vs. well_typed t x" by (cases v) auto
  have "ser_all (map (serialize little) vs) u = Inr (u @ concat (map enc_val vs))" for u
    by (rule ser_all_enc) (use TVector.IH v(2) in auto)
  then show ?case by (simp add: v(1) bw_write_array_size_def bw_write_def write_le_eq)
next
  case (TArray n t)
  then obtain vs where v: "v = VArray vs" "\<forall>x \<in> set vs. well_typed t x" by (cases v) auto
  have "ser_all (map (serialize little) vs) u = Inr (u @ concat (map enc_val vs))" for u
    by (rule ser_all_enc) (use TArray.IH v(2) in auto)
  then show ?case by (simp add: v(1))
next
  case (TMap kt vt)
  then obtain kvs where v: "v = VMap kvs" "\<forall>p \<in> set kvs. well_typed kt (fst p) \<and> well_typed vt (snd p)"
    by (cases v) auto
  have "ser_all (map (\<lambda>p. ser_pair (map_prod (serialize little) (serialize little) p)) kvs) u =
      Inr (u @ concat (map (\<lambda>p. enc_val (fst p) @ enc_val (snd p)) kvs))" for u
    by (rule ser_all_enc) (use TMap.IH v(2) in \<open>auto simp: ser_pair_def\<close>)
  then show ?case by (simp add: v(1) bw_write_array_size_def bw_write_def write_le_eq o_def)
next
  case (TOptional t)
  then show ?case
    by (cases v) (auto simp: bw_write_def write_le_eq le_bytes_def split: option.splits)
next
  case (TStruct ts)
  then obtain vs where v: "v = VStruct vs" "all2 (map well_typed ts) vs" by (cases v) auto
  have "ser_all (map (serialize little) vs) u = Inr (u @ concat (map enc_val vs))" for u
    by (rule ser_all_enc) (use TStruct.IH all2_map [OF v(2)] in blast)
  then show ?case by (simp add: v(1))
qed (auto simp: write_int_enc bw_write_counted_enc bw_write_string_def bw_write_blob_def split: rval.splits)

lemma length_concat_ge: "\<forall>x \<in> set xs. m \<le> length (e x) \<Longrightarrow> length xs * m \<le> length (concat (map e xs))"
  by (induction xs) auto

lemma all2_sum: "all2 (map p ts) vs \<Longrightarrow> (\<And>t v. t \<in> set ts \<Longrightarrow> p t v \<Longrightarrow> m t \<le> length (e v)) \<Longrightarrow>
   sum_list (map m ts) \<le> length (concat (map e vs))"
proof (induction ts arbitrary: vs)
  case (Cons t ts)
  then show ?case by (cases vs) (auto intro: add_mono)
qed simp

lemma wire_min_enc: "well_typed t v \<Longrightarrow> wire_min t \<le> length (enc_val v)"
proof (induction t arbitrary: v)
  case (TArray n t)
  then obtain vs where v: "v = VArray vs" "length vs = n" "\<forall>x \<in> set vs. well_typed t x" by (cases v) auto
  then show ?case using length_concat_ge [of vs "wire_min t" enc_val] TArray.IH by auto
next
  case (TStruct ts)
  then obtain vs where v: "v = VStruct vs" "all2 (map well_typed ts) vs" by (cases v) auto
  then show ?case using all2_sum [OF v(2), of wire_min enc_val] TStruct.IH by auto
qed (auto simp: write_le_bool_def counted_bytes_def split: rval.splits option.splits)

text \<open>Reading a counted sequence of values back.\<close>

context wire_codec
begin

lemma read_counted_encoded:
  assumes xs: "\<forall>x \<in> set xs. ok x" and n: "length xs \<le> max_container_count"
    and m: "\<forall>x \<in> set xs. m \<le> length (enc x)"
    and v: "view_ok v" "rest_of v = le_bytes (of_nat (length xs) :: u32) @ concat (map enc xs) @ r"
  shows "\<exists>v'. read_counted little m dec v = Inr (xs, v') \<and> view_ok v' \<and> rest_of v' = r"
proof -
  let ?n = "of_nat (length xs) :: u32"
  have u: "unat ?n = length xs"
    using n by (simp add: unat_of_nat max_container_count_def max_message_size_def)
  obtain v1 where v1: "bv_read little v = Inr (?n, v1)" "view_ok v1" "rest_of v1 = concat (map enc xs) @ r"
    using bv_read_encoded [OF v(1) _ v(2), of little] by auto
  have l: "length xs * m \<le> unat (bv_remaining v1)"
    using length_concat_ge [OF m] v1 by (simp add: bv_remaining_unat)
  have "m > 0 \<longrightarrow> length xs \<le> unat (bv_remaining v1) div m"
    using l by (simp add: less_eq_div_iff_mult_less_eq)
  then have c: "check_container_count m ?n (bv_remaining v1) = Inr ()"
    using n u by (auto simp: check_container_count_def)
  from read_n_encoded [OF xs v1(2,3)] show ?thesis
    by (simp add: read_counted_def bv_read_array_size_def v1(1) c u)
qed

end

lemma read_int_encoded:
  assumes n: "n \<in> {1, 2, 4, 8}" and x: "unat x < 256 ^ n"
    and v: "view_ok v" "rest_of v = take n (le_bytes x) @ r"
  shows "\<exists>v'. read_int little n v = Inr (VInt n x, v') \<and> view_ok v' \<and> rest_of v' = r"
proof -
  note le = take_le_bytes_u64 take_le_bytes_u64(1) [unfolded One_nat_def]
  from n consider "n = 1" | "n = 2" | "n = 4" | "n = 8" by auto
  then show ?thesis
  proof cases
    case 1
    then obtain v' where "bv_read little v = Inr (ucast x :: u8, v')" "view_ok v'" "rest_of v' = r"
      using bv_read_encoded [where 'a = 8, OF v(1), of "ucast x" r little] v(2) by (auto simp: le)
    with 1 x show ?thesis by (simp add: read_int_def ucast_ucast_small)
  next
    case 2
    then obtain v' where "bv_read little v = Inr (ucast x :: u16, v')" "view_ok v'" "rest_of v' = r"
      using bv_read_encoded [where 'a = 16, OF v(1), of "ucast x" r little] v(2) by (auto simp: le)
    with 2 x show ?thesis by (simp add: read_int_def ucast_ucast_small)
  next
    case 3
    then obtain v' where "bv_read little v = Inr (ucast x :: u32, v')" "view_ok v'" "rest_of v' = r"
      using bv_read_encoded [where 'a = 32, OF v(1), of "ucast x" r little] v(2) by (auto simp: le)
    with 3 x show ?thesis by (simp add: read_int_def ucast_ucast_small)
  next
    case 4
    then obtain v' where "bv_read little v = Inr (x, v')" "view_ok v'" "rest_of v' = r"
      using bv_read_encoded [where 'a = 64, OF v(1), of x r little] v(2) by (auto simp: le)
    with 4 show ?thesis by (simp add: read_int_def)
  qed
qed

lemma read_pair_codec:
  assumes "wire_codec e1 d1 ok1" "wire_codec e2 d2 ok2"
  shows "wire_codec (\<lambda>p. e1 (fst p) @ e2 (snd p)) (read_pair d1 d2) (\<lambda>p. ok1 (fst p) \<and> ok2 (snd p))"
proof
  fix p v r
  assume p: "ok1 (fst p) \<and> ok2 (snd p)" and v: "view_ok v" "rest_of v = (e1 (fst p) @ e2 (snd p)) @ r"
  then obtain v1 where v1: "d1 v = Inr (fst p, v1)" "view_ok v1" "rest_of v1 = e2 (snd p) @ r"
    using wire_codec.dec_enc [OF assms(1), of "fst p" v "e2 (snd p) @ r"] by auto
  then obtain v2 where "d2 v1 = Inr (snd p, v2)" "view_ok v2" "rest_of v2 = r"
    using wire_codec.dec_enc [OF assms(2), of "snd p" v1 r] p by auto
  with v1 show "\<exists>v'. read_pair d1 d2 v = Inr (p, v') \<and> view_ok v' \<and> rest_of v' = r"
    by (simp add: read_pair_def)
qed

lemma read_all_encoded:
  assumes "all2 (map p ts) vs" and "\<And>t. t \<in> set ts \<Longrightarrow> wire_codec e (d t) (p t)"
    and "view_ok v" "rest_of v = concat (map e vs) @ r"
  shows "\<exists>v'. read_all (map d ts) v = Inr (vs, v') \<and> view_ok v' \<and> rest_of v' = r"
  using assms
proof (induction ts arbitrary: vs v)
  case Nil
  then show ?case by (cases vs) auto
next
  case (Cons t ts)
  then obtain x xs where vs: "vs = x # xs" "p t x" "all2 (map p ts) xs" by (cases vs) auto
  obtain v1 where v1: "d t v = Inr (x, v1)" "view_ok v1" "rest_of v1 = concat (map e xs) @ r"
    using wire_codec.dec_enc [of e "d t" "p t" x v "concat (map e xs) @ r"] Cons.prems vs by auto
  from Cons.IH [OF vs(3) _ v1(2,3)] Cons.prems(2) v1(1) show ?case by (auto simp: vs(1))
qed

lemma emplace_all_distinct:
  "distinct (map fst m @ map fst kvs) \<Longrightarrow> emplace_all m kvs = m @ kvs"
proof (induction kvs arbitrary: m)
  case (Cons p kvs)
  obtain k v where p: "p = (k, v)" by (cases p)
  with Cons.prems have "k \<notin> fst ` set m" by auto
  with Cons.IH [of "m @ [(k, v)]"] Cons.prems show ?case by (simp add: p)
qed simp

lemma counted_value:
  assumes "length s < 2 ^ 32" "view_ok v" "rest_of v = counted_bytes s @ r"
  shows "\<exists>v'. ebind (bv_read_counted what little v) (\<lambda>(s, v'). Inr (c s, v')) = Inr (c s, v') \<and> view_ok v' \<and> rest_of v' = r"
proof -
  obtain v' where "bv_read_counted what little v = Inr (s, v')" "view_ok v'" "rest_of v' = r"
    using counted_codec.dec_enc [OF assms] by blast
  then show ?thesis by simp
qed

lemma int_value_codec: "wire_codec enc_val (deserialize little (TInt n)) (well_typed (TInt n))"
proof
  fix x v r assume "well_typed (TInt n) x" "view_ok v" "rest_of v = enc_val x @ r"
  then show "\<exists>v'. deserialize little (TInt n) v = Inr (x, v') \<and> view_ok v' \<and> rest_of v' = r"
    using read_int_encoded [of n _ v r little] by (cases x) auto
qed

lemma bool_codec: "wire_codec enc_val (deserialize little TBool) (well_typed TBool)"
proof
  fix x v r assume a: "well_typed TBool x" "view_ok v" "rest_of v = enc_val x @ r"
  then obtain b where x: "x = VBool b" by (cases x) auto
  have "rest_of v = le_bytes (of_bool b :: u8) @ r" using a(3) by (auto simp: x write_le_bool_def le_bytes_def)
  then obtain v' where "bv_read little v = Inr (of_bool b :: u8, v')" "view_ok v'" "rest_of v' = r"
    using bv_read_encoded [where 'a = 8, OF a(2), of "of_bool b" r little] by auto
  then show "\<exists>v'. deserialize little TBool v = Inr (x, v') \<and> view_ok v' \<and> rest_of v' = r"
    by (simp add: x read_bool_def read_le_bool_def)
qed

lemma string_codec: "wire_codec enc_val (deserialize little TString) (well_typed TString)"
proof
  fix x v r assume "well_typed TString x" "view_ok v" "rest_of v = enc_val x @ r"
  then show "\<exists>v'. deserialize little TString v = Inr (x, v') \<and> view_ok v' \<and> rest_of v' = r"
    by (cases x) (simp_all add: bv_read_string_def counted_value)
qed

lemma blob_codec: "wire_codec enc_val (deserialize little TBlob) (well_typed TBlob)"
proof
  fix x v r assume "well_typed TBlob x" "view_ok v" "rest_of v = enc_val x @ r"
  then show "\<exists>v'. deserialize little TBlob v = Inr (x, v') \<and> view_ok v' \<and> rest_of v' = r"
    by (cases x) (simp_all add: bv_read_blob_def counted_value)
qed

lemma ref_codec: "wire_codec enc_val (deserialize little TRef) (well_typed TRef)"
proof
  fix x v r assume "well_typed TRef x" "view_ok v" "rest_of v = enc_val x @ r"
  then show "\<exists>v'. deserialize little TRef v = Inr (x, v') \<and> view_ok v' \<and> rest_of v' = r"
    by (cases x) (simp_all add: bv_read_blob_def counted_value)
qed

lemma vector_codec:
  assumes c: "wire_codec enc_val (deserialize little t) (well_typed t)" and m: "min_wire_size t \<le> wire_min t"
  shows "wire_codec enc_val (deserialize little (TVector t)) (well_typed (TVector t))"
proof -
  show ?thesis
  proof
    fix x v r assume a: "well_typed (TVector t) x" "view_ok v" "rest_of v = enc_val x @ r"
    then obtain vs where x: "x = VVector vs" "length vs \<le> max_container_count" "\<forall>y \<in> set vs. well_typed t y"
      by (cases x) auto
    have "\<forall>y \<in> set vs. min_wire_size t \<le> length (enc_val y)"
      using x(3) wire_min_enc m by (meson order_trans)
    from wire_codec.read_counted_encoded [OF c x(3,2) this a(2), of r little] a(3)
    show "\<exists>v'. deserialize little (TVector t) v = Inr (x, v') \<and> view_ok v' \<and> rest_of v' = r"
      by (auto simp: x(1))
  qed
qed

lemma array_codec:
  assumes c: "wire_codec enc_val (deserialize little t) (well_typed t)"
  shows "wire_codec enc_val (deserialize little (TArray n t)) (well_typed (TArray n t))"
proof -
  show ?thesis
  proof
    fix x v r assume a: "well_typed (TArray n t) x" "view_ok v" "rest_of v = enc_val x @ r"
    then obtain vs where x: "x = VArray vs" "length vs = n" "\<forall>y \<in> set vs. well_typed t y" by (cases x) auto
    from wire_codec.read_n_encoded [OF c x(3) a(2), of r] a(3) x(2)
    show "\<exists>v'. deserialize little (TArray n t) v = Inr (x, v') \<and> view_ok v' \<and> rest_of v' = r"
      by (auto simp: x(1))
  qed
qed

lemma map_codec:
  assumes k: "wire_codec enc_val (deserialize little kt) (well_typed kt)" and v: "wire_codec enc_val (deserialize little vt) (well_typed vt)"
    and m: "min_wire_size kt \<le> wire_min kt" "min_wire_size vt \<le> wire_min vt"
  shows "wire_codec enc_val (deserialize little (TMap kt vt)) (well_typed (TMap kt vt))"
proof -
  let ?e = "\<lambda>p. enc_val (fst p) @ enc_val (snd p)" and ?ok = "\<lambda>p. well_typed kt (fst p) \<and> well_typed vt (snd p)"
  have c: "wire_codec ?e (read_pair (deserialize little kt) (deserialize little vt)) ?ok"
    by (rule read_pair_codec [OF k v])
  show ?thesis
  proof
    fix x v r assume a: "well_typed (TMap kt vt) x" "view_ok v" "rest_of v = enc_val x @ r"
    then obtain kvs where x: "x = VMap kvs" "length kvs \<le> max_container_count" "\<forall>p \<in> set kvs. ?ok p"
        "distinct (map fst kvs)"
      by (cases x) auto
    have mp: "\<forall>p \<in> set kvs. min_wire_size kt + min_wire_size vt \<le> length (?e p)"
    proof
      fix p assume "p \<in> set kvs"
      with x(3) have "wire_min kt \<le> length (enc_val (fst p))" "wire_min vt \<le> length (enc_val (snd p))"
        by (simp_all add: wire_min_enc)
      with m show "min_wire_size kt + min_wire_size vt \<le> length (?e p)" by simp
    qed
    from wire_codec.read_counted_encoded [OF c x(3,2) mp a(2), of r little] a(3) emplace_all_distinct [of "[]" kvs] x(4)
    show "\<exists>v'. deserialize little (TMap kt vt) v = Inr (x, v') \<and> view_ok v' \<and> rest_of v' = r"
      by (auto simp: x(1) o_def)
  qed
qed

lemma optional_codec:
  assumes c: "wire_codec enc_val (deserialize little t) (well_typed t)"
  shows "wire_codec enc_val (deserialize little (TOptional t)) (well_typed (TOptional t))"
proof -
  show ?thesis
  proof
    fix x v r assume a: "well_typed (TOptional t) x" "view_ok v" "rest_of v = enc_val x @ r"
    then obtain ov where x: "x = VOptional ov" by (cases x) auto
    have "rest_of v = le_bytes (of_bool (ov \<noteq> None) :: u8) @ (case ov of None \<Rightarrow> [] | Some y \<Rightarrow> enc_val y) @ r"
      using a(3) by (auto simp: x le_bytes_def split: option.splits)
    from bv_read_encoded [OF a(2) _ this, of little] obtain v1 where
      v1: "bv_read little v = Inr (of_bool (ov \<noteq> None) :: u8, v1)" "view_ok v1"
        "rest_of v1 = (case ov of None \<Rightarrow> [] | Some y \<Rightarrow> enc_val y) @ r" by auto
    show "\<exists>v'. deserialize little (TOptional t) v = Inr (x, v') \<and> view_ok v' \<and> rest_of v' = r"
    proof (cases ov)
      case None
      with v1 show ?thesis by (simp add: x)
    next
      case (Some y)
      with v1 a(1) wire_codec.dec_enc [OF c, of y v1 r] show ?thesis by (auto simp: x)
    qed
  qed
qed

lemma struct_codec:
  assumes c: "\<And>t. t \<in> set ts \<Longrightarrow> wire_codec enc_val (deserialize little t) (well_typed t)"
  shows "wire_codec enc_val (deserialize little (TStruct ts)) (well_typed (TStruct ts))"
proof -
  show ?thesis
  proof
    fix x v r assume a: "well_typed (TStruct ts) x" "view_ok v" "rest_of v = enc_val x @ r"
    then obtain vs where x: "x = VStruct vs" "all2 (map well_typed ts) vs" by (cases x) auto
    from read_all_encoded [OF x(2) c a(2), of r] a(3)
    show "\<exists>v'. deserialize little (TStruct ts) v = Inr (x, v') \<and> view_ok v' \<and> rest_of v' = r"
      by (auto simp: x(1))
  qed
qed

text \<open>Every schema whose element bounds are right is a codec.\<close>

lemma deserialize_codec: "counts_ok t \<Longrightarrow> wire_codec enc_val (deserialize little t) (well_typed t)"
proof (induction t)
  case (TStruct ts)
  then show ?case by (intro struct_codec) (auto simp: list_all_iff)
qed (simp_all only: counts_ok.simps int_value_codec bool_codec string_codec blob_codec ref_codec
       vector_codec array_codec map_codec optional_codec)

section \<open>Properties\<close>

text \<open>
  C19: what is serialized is read back. A value of any schema built from the
  supported types (integers, bool, strings, blobs, vectors, arrays, maps, optionals,
  structs, nested to any depth) that is serialized, on a host of either byte order,
  behind any bytes already written and followed by any others, is deserialized to
  the same value, on a host of either byte order, and the reader stops right behind it. The
  schemas must give their container elements a true lower bound for the wire size.
\<close>

theorem rpc_serialize_roundtrip:
  assumes "well_typed t x" and "counts_ok t" and "view_ok v" and "rest_of v = bs @ r"
    and "serialize l1 x [] = Inr bs"
  shows "\<exists>v'. deserialize l2 t v = Inr (x, v') \<and> rest_of v' = r"
proof -
  have "bs = enc_val x" using serialize_enc [OF assms(1), of l1 "[]"] assms(5) by simp
  with wire_codec.dec_enc [OF deserialize_codec [OF assms(2), of l2] assms(1,3)] assms(4) show ?thesis by auto
qed

theorem rpc_serialize_roundtrip_witness:
  "\<exists>bs v'. serialize True (VStruct [VInt 2 513, VVector [VString [104, 105], VString []], VOptional (Some (VBool True))]) [] = Inr bs \<and>
     deserialize False (TStruct [TInt 2, TVector TString, TOptional TBool]) (mk_view bs) =
       Inr (VStruct [VInt 2 513, VVector [VString [104, 105], VString []], VOptional (Some (VBool True))], v')"
proof -
  let ?t = "TStruct [TInt 2, TVector TString, TOptional TBool]"
  let ?x = "VStruct [VInt 2 513, VVector [VString [104, 105], VString []], VOptional (Some (VBool True))]"
  have w: "well_typed ?t ?x" by (simp add: max_container_count_def max_message_size_def)
  have c: "counts_ok ?t" by simp
  have s: "serialize True ?x [] = Inr (enc_val ?x)" using serialize_enc [OF w, of True "[]"] by simp
  have l: "length (enc_val ?x) < 2 ^ 63" by (simp add: counted_bytes_def write_le_bool_def)
  from rpc_serialize_roundtrip [OF w c, of "mk_view (enc_val ?x)" "enc_val ?x" "[]" True False] view_ok_mk_view [OF l] s
  show ?thesis by auto
qed




end
