(* ===== verification/Rpc_Protocol.thy ===== *)
theory Rpc_Protocol
  imports Rpc_Types Crc32
begin

text \<open>
  The RPC wire protocol (src/include/elio/rpc/rpc\_protocol.hpp): frame headers and their
  validation, the request id generator, the frame reader and the frame writers with their
  checksum, the scatter-gather write loop, and the message builders and parsers.

  The stream is a parameter. Reading: \<open>rd s n\<close> is read\_exactly of \<open>n\<close> bytes, \<open>None\<close>
  when it fails. Writing: each call of writev is answered by a response.
\<close>

section \<open>Constants\<close>

definition protocol_magic :: u32 where "protocol_magic = 0x454C494F"
definition protocol_version :: u8 where "protocol_version = 1"
definition frame_header_size :: nat where "frame_header_size = 19"
definition checksum_size :: nat where "checksum_size = 4"

text \<open>enum class message\_type and message\_flags: a byte from the wire may hold any value.\<close>

definition mt_request :: u8 where "mt_request = 0"
definition mt_response :: u8 where "mt_response = 1"
definition mt_error :: u8 where "mt_error = 2"
definition mt_ping :: u8 where "mt_ping = 3"
definition mt_pong :: u8 where "mt_pong = 4"
definition mt_cancel :: u8 where "mt_cancel = 5"

definition mf_none :: u8 where "mf_none = 0"
definition mf_has_timeout :: u8 where "mf_has_timeout = 1"
definition mf_has_checksum :: u8 where "mf_has_checksum = 2"
definition mf_no_response :: u8 where "mf_no_response = 16"

lemmas rpc_consts = mt_request_def mt_response_def mt_error_def mt_ping_def mt_pong_def mt_cancel_def
  mf_none_def mf_has_timeout_def mf_has_checksum_def mf_no_response_def

definition has_flag :: "u8 \<Rightarrow> u8 \<Rightarrow> bool" where
  "has_flag flags flag \<longleftrightarrow> flags AND flag \<noteq> 0"

definition is_valid_message_type :: "u8 \<Rightarrow> bool" where
  "is_valid_message_type t \<longleftrightarrow>
     t = mt_request \<or> t = mt_response \<or> t = mt_error \<or> t = mt_ping \<or> t = mt_pong \<or> t = mt_cancel"

definition has_only_supported_message_flags :: "u8 \<Rightarrow> bool" where
  "has_only_supported_message_flags flags \<longleftrightarrow>
     flags AND (mf_has_timeout OR mf_has_checksum OR mf_no_response) = flags"

definition has_allowed_flags_for_type :: "u8 \<Rightarrow> u8 \<Rightarrow> bool" where
  "has_allowed_flags_for_type t flags \<longleftrightarrow>
     (if t = mt_request then flags AND (mf_has_timeout OR mf_has_checksum OR mf_no_response) = flags
      else if t = mt_response \<or> t = mt_error \<or> t = mt_ping \<or> t = mt_pong \<or> t = mt_cancel
      then flags AND mf_has_checksum = flags
      else False)"

section \<open>Frame header\<close>

record frame_header =
  fh_magic :: u32
  fh_request_id :: u32
  fh_type :: u8
  fh_flags :: u8
  fh_method_id :: u32
  fh_payload_length :: u32
  fh_version :: u8

definition default_header :: frame_header where
  "default_header =
     \<lparr>fh_magic = protocol_magic, fh_request_id = 0, fh_type = mt_request, fh_flags = mf_none,
      fh_method_id = 0, fh_payload_length = 0, fh_version = protocol_version\<rparr>"

definition has_valid_shape :: "frame_header \<Rightarrow> bool" where
  "has_valid_shape h \<longleftrightarrow>
     (if fh_type h = mt_request then
        \<not> has_flag (fh_flags h) mf_has_timeout \<or> unat (fh_payload_length h) \<ge> 4
      else if fh_type h = mt_response \<or> fh_type h = mt_error then fh_method_id h = 0
      else if fh_type h = mt_ping \<or> fh_type h = mt_pong \<or> fh_type h = mt_cancel
      then fh_method_id h = 0 \<and> fh_payload_length h = 0
      else False)"

definition fh_is_valid :: "frame_header \<Rightarrow> bool" where
  "fh_is_valid h \<longleftrightarrow>
     fh_magic h = protocol_magic \<and> fh_version h = protocol_version \<and>
     is_valid_message_type (fh_type h) \<and> has_only_supported_message_flags (fh_flags h) \<and>
     has_allowed_flags_for_type (fh_type h) (fh_flags h) \<and> has_valid_shape h \<and>
     unat (fh_payload_length h) \<le> max_message_size"

definition fh_serialize :: "bool \<Rightarrow> frame_header \<Rightarrow> buffer_writer \<Rightarrow> buffer_writer" where
  "fh_serialize little h w =
     bw_write little (fh_version h)
       (bw_write little (fh_payload_length h)
         (bw_write little (fh_method_id h)
           (bw_write little (fh_flags h)
             (bw_write little (fh_type h)
               (bw_write little (fh_request_id h)
                 (bw_write little (fh_magic h) w))))))"

definition fh_to_bytes :: "bool \<Rightarrow> frame_header \<Rightarrow> bytes" where
  "fh_to_bytes little h =
     write_le little (fh_magic h) @ write_le little (fh_request_id h) @ [fh_type h, fh_flags h] @
     write_le little (fh_method_id h) @ write_le little (fh_payload_length h) @ [fh_version h]"

definition fh_deserialize :: "bool \<Rightarrow> buffer_view \<Rightarrow> rpc_fault + frame_header \<times> buffer_view" where
  "fh_deserialize little v0 =
     ebind (bv_read little v0) (\<lambda>(magic, v1).
     ebind (bv_read little v1) (\<lambda>(request_id, v2).
     ebind (bv_read little v2) (\<lambda>(t, v3).
     ebind (bv_read little v3) (\<lambda>(flags, v4).
     ebind (bv_read little v4) (\<lambda>(method_id, v5).
     ebind (bv_read little v5) (\<lambda>(len, v6).
     ebind (bv_read little v6) (\<lambda>(version, v7).
       Inr (\<lparr>fh_magic = magic, fh_request_id = request_id, fh_type = t, fh_flags = flags,
             fh_method_id = method_id, fh_payload_length = len, fh_version = version\<rparr>, v7))))))))"

text \<open>from\_bytes reads at fixed offsets of the 19 header bytes.\<close>

definition fh_from_bytes :: "bool \<Rightarrow> bytes \<Rightarrow> frame_header" where
  "fh_from_bytes little d =
     \<lparr>fh_magic = read_le little (take 4 d), fh_request_id = read_le little (take 4 (drop 4 d)),
      fh_type = d ! 8, fh_flags = d ! 9,
      fh_method_id = read_le little (take 4 (drop 10 d)),
      fh_payload_length = read_le little (take 4 (drop 14 d)), fh_version = d ! 18\<rparr>"

section \<open>Request ids\<close>

definition request_id_next :: "u64 \<Rightarrow> u32 \<times> u64" where
  "request_id_next counter = (ucast (counter mod 0xFFFFFFFF + 1), counter + 1)"

fun request_ids :: "nat \<Rightarrow> u64 \<Rightarrow> u32 list" where
  "request_ids 0 counter = []"
| "request_ids (Suc n) counter =
     (let (i, counter') = request_id_next counter in i # request_ids n counter')"

section \<open>Scatter-gather write loop\<close>

text \<open>
  A response to writev: a byte count (the kernel takes at most what it is offered),
  EAGAIN with the result of the poll that follows, EINTR, or another result that is not
  positive.
\<close>

datatype io_resp = IO_Written nat | IO_Again int | IO_Intr | IO_Fail int

datatype io_status = IO_Done | IO_Error int | IO_Running

fun advance_iovecs :: "nat \<Rightarrow> bytes list \<Rightarrow> bytes list" where
  "advance_iovecs written [] = []"
| "advance_iovecs written (b # bs) =
     (if written = 0 then b # bs
      else if written \<ge> length b then advance_iovecs (written - length b) bs
      else drop written b # bs)"

text \<open>The bytes that reach the wire and how the loop ends; \<open>IO_Running\<close> when the responses end first.\<close>

fun writev_loop :: "bytes list \<Rightarrow> io_resp list \<Rightarrow> bytes \<times> io_status" where
  "writev_loop [] rs = ([], IO_Done)"
| "writev_loop iovs [] = ([], IO_Running)"
| "writev_loop iovs (IO_Again poll # rs) =
     (if poll < 0 then ([], IO_Error poll) else writev_loop iovs rs)"
| "writev_loop iovs (IO_Intr # rs) = writev_loop iovs rs"
| "writev_loop iovs (IO_Fail e # rs) = ([], IO_Error (- abs e))"
| "writev_loop iovs (IO_Written k # rs) =
     (let batch = concat (take IOV_MAX iovs); n = min k (length batch) in
      if n = 0 then ([], IO_Error 0)
      else let (out, st) = writev_loop (advance_iovecs n iovs) rs in (take n batch @ out, st))"

text \<open>The result of writev\_exact: a negative errno, or the total length.\<close>

definition writev_exact :: "bytes list \<Rightarrow> io_resp list \<Rightarrow> bytes \<times> int option" where
  "writev_exact iovs rs =
     (let total = length (concat iovs); (out, st) = writev_loop iovs rs in
      (out, case st of
              IO_Running \<Rightarrow> None
            | IO_Error e \<Rightarrow> Some e
            | IO_Done \<Rightarrow> if total > 2147483647 then Some (- 75) else Some (int total)))"

section \<open>Reading and writing frames\<close>

definition frame_crc :: "bool \<Rightarrow> bytes \<Rightarrow> bytes \<Rightarrow> u32" where
  "frame_crc little header payload =
     (let crc = crc32_update little 0 header 0xFFFFFFFF;
          crc' = (if payload \<noteq> [] then crc32_update little 0 payload crc else crc)
      in crc32_finalize crc')"

text \<open>The payload, the checksum trailer, and the whole frame.\<close>

definition read_payload :: "('s \<Rightarrow> nat \<Rightarrow> (bytes \<times> 's) option) \<Rightarrow> u32 \<Rightarrow> 's \<Rightarrow> (bytes \<times> 's) option" where
  "read_payload rd len s = (if len > 0 then rd s (unat len) else Some ([], s))"

definition read_checksum ::
    "('s \<Rightarrow> nat \<Rightarrow> (bytes \<times> 's) option) \<Rightarrow> bool \<Rightarrow> u32 \<Rightarrow> 's \<Rightarrow> 's option" where
  "read_checksum rd little computed s =
     (case rd s checksum_size of
        None \<Rightarrow> None
      | Some (cb, s') \<Rightarrow> if computed \<noteq> read_le little cb then None else Some s')"

definition read_frame_bounded ::
    "('s \<Rightarrow> nat \<Rightarrow> (bytes \<times> 's) option) \<Rightarrow> bool \<Rightarrow> u32 \<Rightarrow> 's \<Rightarrow> (frame_header \<times> bytes \<times> 's) option" where
  "read_frame_bounded rd little max_payload s =
     (case rd s frame_header_size of
        None \<Rightarrow> None
      | Some (hb, s1) \<Rightarrow>
          let h = fh_from_bytes little hb in
          if \<not> fh_is_valid h then None
          else if fh_payload_length h > max_payload then None
          else
            case read_payload rd (fh_payload_length h) s1 of
              None \<Rightarrow> None
            | Some (payload, s2) \<Rightarrow>
                if has_flag (fh_flags h) mf_has_checksum
                then map_option (\<lambda>s3. (h, payload, s3)) (read_checksum rd little (frame_crc little hb payload) s2)
                else Some (h, payload, s2))"

definition read_frame ::
    "('s \<Rightarrow> nat \<Rightarrow> (bytes \<times> 's) option) \<Rightarrow> bool \<Rightarrow> 's \<Rightarrow> (frame_header \<times> bytes \<times> 's) option" where
  "read_frame rd little s = read_frame_bounded rd little (of_nat max_message_size) s"

text \<open>The iovec array of write\_frame; both overloads with a payload build the same one.\<close>

definition frame_iovecs :: "bool \<Rightarrow> frame_header \<Rightarrow> bytes \<Rightarrow> bytes list" where
  "frame_iovecs little h payload =
     (let hb = fh_to_bytes little h;
          cb = (if has_flag (fh_flags h) mf_has_checksum then write_le little (frame_crc little hb payload)
                else replicate checksum_size 0)
      in [hb] @ (if payload \<noteq> [] then [payload] else []) @
         (if has_flag (fh_flags h) mf_has_checksum then [cb] else []))"

definition write_frame :: "bool \<Rightarrow> frame_header \<Rightarrow> bytes \<Rightarrow> io_resp list \<Rightarrow> bytes \<times> bool option" where
  "write_frame little h payload rs =
     (let (out, r) = writev_exact (frame_iovecs little h payload) rs in (out, map_option (\<lambda>n. n > 0) r))"

text \<open>The cancellable overload assembles one buffer for write\_exactly.\<close>

definition cancellable_frame :: "bool \<Rightarrow> frame_header \<Rightarrow> bytes \<Rightarrow> bytes" where
  "cancellable_frame little h payload =
     (let hb = fh_to_bytes little h;
          cb = (if has_flag (fh_flags h) mf_has_checksum then write_le little (frame_crc little hb payload)
                else replicate checksum_size 0);
          w1 = bw_write_bytes hb [];
          w2 = (if payload \<noteq> [] then bw_write_bytes payload w1 else w1)
      in if has_flag (fh_flags h) mf_has_checksum then bw_write_bytes cb w2 else w2)"

section \<open>Builders and parsers\<close>

definition validate_payload_size :: "nat \<Rightarrow> rpc_fault + unit" where
  "validate_payload_size n =
     (if n > 4294967295 then Inl (Runtime_Error ''rpc: payload size exceeds uint32_t capacity'')
      else if n > max_message_size then Inl (Runtime_Error ''rpc: payload size exceeds max_message_size'')
      else Inr ())"

definition build_request ::
    "bool \<Rightarrow> u32 \<Rightarrow> u32 \<Rightarrow> rval \<Rightarrow> u32 option \<Rightarrow> bool \<Rightarrow> rpc_fault + frame_header \<times> bytes" where
  "build_request little request_id method_id request timeout_ms enable_checksum =
     (let (flags1, payload1) = (case timeout_ms of
            None \<Rightarrow> (mf_none, []) | Some t \<Rightarrow> (mf_none OR mf_has_timeout, bw_write little t []));
          flags2 = (if enable_checksum then flags1 OR mf_has_checksum else flags1)
      in ebind (serialize little request payload1) (\<lambda>payload.
         ebind (validate_payload_size (length payload)) (\<lambda>_.
           Inr (default_header\<lparr>fh_request_id := request_id, fh_type := mt_request, fh_flags := flags2,
                  fh_method_id := method_id, fh_payload_length := of_nat (length payload)\<rparr>, payload))))"

definition build_oneway_request ::
    "bool \<Rightarrow> u32 \<Rightarrow> u32 \<Rightarrow> rval \<Rightarrow> bool \<Rightarrow> rpc_fault + frame_header \<times> bytes" where
  "build_oneway_request little request_id method_id request enable_checksum =
     ebind (build_request little request_id method_id request None enable_checksum)
       (\<lambda>(h, p). Inr (h\<lparr>fh_flags := fh_flags h OR mf_no_response\<rparr>, p))"

definition build_reply ::
    "u8 \<Rightarrow> bool \<Rightarrow> u32 \<Rightarrow> rval \<Rightarrow> bool \<Rightarrow> rpc_fault + frame_header \<times> bytes" where
  "build_reply t little request_id body enable_checksum =
     ebind (serialize little body []) (\<lambda>payload.
     ebind (validate_payload_size (length payload)) (\<lambda>_.
       Inr (default_header\<lparr>fh_request_id := request_id, fh_type := t,
              fh_flags := (if enable_checksum then mf_has_checksum else mf_none),
              fh_method_id := 0, fh_payload_length := of_nat (length payload)\<rparr>, payload)))"

definition build_response :: "bool \<Rightarrow> u32 \<Rightarrow> rval \<Rightarrow> bool \<Rightarrow> rpc_fault + frame_header \<times> bytes" where
  "build_response = build_reply mt_response"

text \<open>struct error\_payload: the code, a 32-bit enum, and the message.\<close>

definition error_payload :: "u32 \<Rightarrow> bytes \<Rightarrow> rval" where
  "error_payload code msg = VStruct [VInt 4 (ucast code), VString msg]"

definition error_payload_ty :: rty where
  "error_payload_ty = TStruct [TInt 4, TString]"

definition build_error_response ::
    "bool \<Rightarrow> u32 \<Rightarrow> u32 \<Rightarrow> bytes \<Rightarrow> bool \<Rightarrow> rpc_fault + frame_header \<times> bytes" where
  "build_error_response little request_id code msg enable_checksum =
     build_reply mt_error little request_id (error_payload code msg) enable_checksum"

definition build_ping :: "u32 \<Rightarrow> frame_header" where
  "build_ping i = default_header\<lparr>fh_request_id := i, fh_type := mt_ping, fh_flags := mf_none,
     fh_method_id := 0, fh_payload_length := 0\<rparr>"

definition build_pong :: "u32 \<Rightarrow> frame_header" where
  "build_pong i = default_header\<lparr>fh_request_id := i, fh_type := mt_pong, fh_flags := mf_none,
     fh_method_id := 0, fh_payload_length := 0\<rparr>"

definition build_cancel :: "u32 \<Rightarrow> frame_header" where
  "build_cancel i = default_header\<lparr>fh_request_id := i, fh_type := mt_cancel, fh_flags := mf_none,
     fh_method_id := 0, fh_payload_length := 0\<rparr>"

definition parse_typed_payload :: "bool \<Rightarrow> rty \<Rightarrow> buffer_view \<Rightarrow> rpc_fault + rval \<times> buffer_view" where
  "parse_typed_payload little t v =
     ebind (deserialize little t v) (\<lambda>(x, v').
       if bv_remaining v' \<noteq> 0 then Inl (Serialization_Error ''rpc: trailing bytes after typed payload'')
       else Inr (x, v'))"

definition parse_request ::
    "bool \<Rightarrow> rty \<Rightarrow> u8 \<Rightarrow> buffer_view \<Rightarrow> rpc_fault + (u32 option \<times> rval) \<times> buffer_view" where
  "parse_request little t flags v =
     (if has_flag flags mf_has_timeout then
        ebind (bv_read little v) (\<lambda>(ms, v1).
        ebind (parse_typed_payload little t v1) (\<lambda>(x, v2). Inr ((Some ms, x), v2)))
      else ebind (parse_typed_payload little t v) (\<lambda>(x, v2). Inr ((None, x), v2)))"

definition parse_response :: "bool \<Rightarrow> rty \<Rightarrow> buffer_view \<Rightarrow> rpc_fault + rval \<times> buffer_view" where
  "parse_response = parse_typed_payload"

definition parse_error :: "bool \<Rightarrow> buffer_view \<Rightarrow> rpc_fault + rval \<times> buffer_view" where
  "parse_error little v = parse_typed_payload little error_payload_ty v"

section \<open>Headers\<close>

definition header_bytes :: "frame_header \<Rightarrow> bytes" where
  "header_bytes h = le_bytes (fh_magic h) @ le_bytes (fh_request_id h) @ [fh_type h, fh_flags h] @
     le_bytes (fh_method_id h) @ le_bytes (fh_payload_length h) @ [fh_version h]"

lemma fh_to_bytes_eq: "fh_to_bytes little h = header_bytes h"
  by (simp add: fh_to_bytes_def header_bytes_def write_le_eq)

lemma length_header_bytes [simp]: "length (header_bytes h) = frame_header_size"
  by (simp add: header_bytes_def frame_header_size_def)

lemma le_bytes_u8: "le_bytes (b :: u8) = [b]"
  by (simp add: le_bytes_def)

lemma fh_serialize_eq: "fh_serialize little h w = w @ header_bytes h"
  by (simp add: fh_serialize_def bw_write_def write_le_eq header_bytes_def le_bytes_u8)

lemma fh_from_to_bytes: "fh_from_bytes little (header_bytes h) = h"
  by (simp add: fh_from_bytes_def header_bytes_def read_le_eq le_word_le_bytes nth_append)

lemma split_header_bytes:
  assumes "length d = 19"
  obtains a b t f m l v where "d = a @ b @ [t, f] @ m @ l @ [v]" "length a = 4" "length b = 4" "length m = 4" "length l = 4"
proof
  show "d = take 4 d @ take 4 (drop 4 d) @ [d ! 8, d ! 9] @ take 4 (drop 10 d) @ take 4 (drop 14 d) @ [d ! 18]"
    by (rule nth_equalityI)
       (auto simp: assms nth_append nth_Cons' less_Suc_eq numeral_eq_Suc)
qed (simp_all add: assms)

lemma fh_to_from_bytes:
  assumes "length d = frame_header_size"
  shows "header_bytes (fh_from_bytes little d) = d"
proof -
  from assms have "length d = 19" by (simp add: frame_header_size_def)
  then obtain a b t f m l v where d: "d = a @ b @ [t, f] @ m @ l @ [v]"
      "length a = 4" "length b = 4" "length m = 4" "length l = 4"
    by (rule split_header_bytes)
  then have "fh_from_bytes little d =
      \<lparr>fh_magic = le_word a, fh_request_id = le_word b, fh_type = t, fh_flags = f,
       fh_method_id = le_word m, fh_payload_length = le_word l, fh_version = v\<rparr>"
    by (simp add: fh_from_bytes_def read_le_eq nth_append)
  with d show ?thesis by (simp add: header_bytes_def le_bytes_le_word)
qed

interpretation header_codec: wire_codec header_bytes "fh_deserialize little" "\<lambda>_. True" for little
proof
  fix h v0 r
  assume v0: "view_ok v0" "rest_of v0 = header_bytes h @ r"
  note rd = bv_read_encoded [where little = little]
  let ?l = "le_bytes (fh_payload_length h) @ le_bytes (fh_version h) @ r"
  let ?m = "le_bytes (fh_method_id h) @ ?l"
  have r0: "rest_of v0 = le_bytes (fh_magic h) @ le_bytes (fh_request_id h) @ le_bytes (fh_type h) @ le_bytes (fh_flags h) @ ?m"
    using v0(2) by (simp add: header_bytes_def le_bytes_u8)
  obtain v1 where v1: "bv_read little v0 = Inr (fh_magic h, v1)" "view_ok v1"
      "rest_of v1 = le_bytes (fh_request_id h) @ le_bytes (fh_type h) @ le_bytes (fh_flags h) @ ?m"
    using rd [OF v0(1) _ r0] by auto
  obtain v2 where v2: "bv_read little v1 = Inr (fh_request_id h, v2)" "view_ok v2"
      "rest_of v2 = le_bytes (fh_type h) @ le_bytes (fh_flags h) @ ?m"
    using rd [OF v1(2) _ v1(3)] by auto
  obtain v3 where v3: "bv_read little v2 = Inr (fh_type h, v3)" "view_ok v3" "rest_of v3 = le_bytes (fh_flags h) @ ?m"
    using rd [OF v2(2) _ v2(3)] by auto
  obtain v4 where v4: "bv_read little v3 = Inr (fh_flags h, v4)" "view_ok v4" "rest_of v4 = ?m"
    using rd [OF v3(2) _ v3(3)] by auto
  obtain v5 where v5: "bv_read little v4 = Inr (fh_method_id h, v5)" "view_ok v5" "rest_of v5 = ?l"
    using rd [OF v4(2) _ v4(3)] by auto
  obtain v6 where v6: "bv_read little v5 = Inr (fh_payload_length h, v6)" "view_ok v6"
      "rest_of v6 = le_bytes (fh_version h) @ r"
    using rd [OF v5(2) _ v5(3)] by auto
  obtain v7 where v7: "bv_read little v6 = Inr (fh_version h, v7)" "view_ok v7" "rest_of v7 = r"
    using rd [OF v6(2) _ v6(3)] by auto
  show "\<exists>v'. fh_deserialize little v0 = Inr (h, v') \<and> view_ok v' \<and> rest_of v' = r"
    using v7 by (simp add: fh_deserialize_def v1 v2 v3 v4 v5 v6)
qed

section \<open>Frames\<close>

lemma frame_crc_eq: "frame_crc little hb p = crc32 little2 a (hb @ p) 0xFFFFFFFF"
  by (simp add: frame_crc_def crc32_update_def crc32_finalize_def crc32_foldl crc32_sw_def crc_sw_foldl Let_def)

definition frame_bytes :: "frame_header \<Rightarrow> bytes \<Rightarrow> bytes" where
  "frame_bytes h p = header_bytes h @ p @
     (if has_flag (fh_flags h) mf_has_checksum
      then le_bytes (crc32 True 0 (header_bytes h @ p) 0xFFFFFFFF) else [])"

lemma frame_iovecs_concat: "concat (frame_iovecs little h p) = frame_bytes h p"
  by (simp add: frame_iovecs_def frame_bytes_def fh_to_bytes_eq write_le_eq frame_crc_eq [of little _ _ True 0] Let_def)

lemma cancellable_frame_eq: "cancellable_frame little h p = frame_bytes h p"
  by (simp add: cancellable_frame_def frame_bytes_def fh_to_bytes_eq write_le_eq bw_write_bytes_def
      frame_crc_eq [of little _ _ True 0] Let_def)

text \<open>The contract of read\_exactly: \<open>content\<close> is what the peer has sent and nobody has read yet.\<close>

locale exact_stream =
  fixes rd :: "'s \<Rightarrow> nat \<Rightarrow> (bytes \<times> 's) option"
    and content :: "'s \<Rightarrow> bytes"
  assumes rd_enough: "n \<le> length (content s) \<Longrightarrow>
      \<exists>s'. rd s n = Some (take n (content s), s') \<and> content s' = drop n (content s)"
    and rd_short: "length (content s) < n \<Longrightarrow> rd s n = None"
begin

lemma rd_Some: "rd s n = Some (bs, s') \<Longrightarrow> content s = bs @ content s' \<and> length bs = n"
  by (cases "n \<le> length (content s)") (use rd_enough [of n s] rd_short [of s n] in auto)

lemma rd_append: "content s = bs @ r \<Longrightarrow> length bs = n \<Longrightarrow> \<exists>s'. rd s n = Some (bs, s') \<and> content s' = r"
  using rd_enough [of n s] by auto

lemma read_payload_written:
  assumes "unat len = length p" "content s = p @ r"
  shows "\<exists>s'. read_payload rd len s = Some (p, s') \<and> content s' = r"
proof (cases "len > 0")
  case True
  then show ?thesis using rd_append [OF assms(2) assms(1) [symmetric]] assms(1) by (simp add: read_payload_def)
next
  case False
  then have "p = []" using assms(1) by (simp add: word_less_nat_alt)
  with False assms show ?thesis by (simp add: read_payload_def)
qed

lemma read_payload_Some:
  "read_payload rd len s = Some (p, s') \<Longrightarrow> content s = p @ content s' \<and> length p = unat len"
  using rd_Some [of s "unat len" p s'] by (auto simp: read_payload_def word_less_nat_alt split: if_splits)

lemma read_checksum_written:
  assumes "content s = le_bytes k @ r"
  shows "\<exists>s'. read_checksum rd little k s = Some s' \<and> content s' = r"
proof -
  obtain s' where "rd s checksum_size = Some (le_bytes k, s')" "content s' = r"
    using rd_append [OF assms, of checksum_size] by (auto simp: checksum_size_def)
  then show ?thesis by (simp add: read_checksum_def read_le_eq le_word_le_bytes)
qed

lemma read_checksum_Some:
  assumes "read_checksum rd little k s = Some s'"
  shows "content s = le_bytes k @ content s'"
proof -
  from assms obtain cb where cb: "rd s checksum_size = Some (cb, s')" "k = read_le little cb"
    by (auto simp: read_checksum_def split: option.splits if_splits)
  with rd_Some [OF cb(1)] show ?thesis by (simp add: read_le_eq le_bytes_le_word checksum_size_def)
qed

text \<open>A frame that was written is read back.\<close>

lemma read_frame_written:
  assumes h: "fh_is_valid h" "unat (fh_payload_length h) = length p" "fh_payload_length h \<le> max_payload"
    and c: "content s = frame_bytes h p @ r"
  shows "\<exists>s'. read_frame_bounded rd little max_payload s = Some (h, p, s') \<and> content s' = r"
proof -
  let ?k = "crc32 True 0 (header_bytes h @ p) 0xFFFFFFFF"
  let ?c = "if has_flag (fh_flags h) mf_has_checksum then le_bytes ?k else []"
  obtain s1 where s1: "rd s frame_header_size = Some (header_bytes h, s1)" "content s1 = p @ ?c @ r"
    using rd_append [of s "header_bytes h" "p @ ?c @ r" frame_header_size] c by (auto simp: frame_bytes_def)
  obtain s2 where s2: "read_payload rd (fh_payload_length h) s1 = Some (p, s2)" "content s2 = ?c @ r"
    using read_payload_written [OF h(2) s1(2)] by blast
  have nl: "\<not> max_payload < fh_payload_length h" using h(3) by (simp add: not_less)
  have e: "read_frame_bounded rd little max_payload s =
      (if has_flag (fh_flags h) mf_has_checksum
       then map_option (\<lambda>s3. (h, p, s3)) (read_checksum rd little ?k s2) else Some (h, p, s2))"
    using h(1) nl s1(1) s2(1)
    by (simp add: read_frame_bounded_def fh_from_to_bytes Let_def frame_crc_eq [of little _ _ True 0])
  show ?thesis
  proof (cases "has_flag (fh_flags h) mf_has_checksum")
    case True
    with read_checksum_written [of s2 ?k r little] s2(2) show ?thesis by (auto simp: e)
  next
    case False
    with s2(2) show ?thesis by (simp add: e)
  qed
qed

text \<open>Whatever is accepted was a well-formed frame.\<close>

lemma read_frame_accepted:
  assumes "read_frame_bounded rd little max_payload s = Some (h, p, s')"
  shows "fh_is_valid h \<and> length p = unat (fh_payload_length h) \<and> fh_payload_length h \<le> max_payload \<and>
    content s = frame_bytes h p @ content s'"
proof -
  from assms obtain hb s1 where s1: "rd s frame_header_size = Some (hb, s1)"
    by (auto simp: read_frame_bounded_def split: option.splits)
  note c1 = rd_Some [OF s1]
  define h0 where "h0 = fh_from_bytes little hb"
  have hb: "hb = header_bytes h0" using fh_to_from_bytes [of hb little] c1 by (simp add: h0_def)
  from assms s1 have v: "fh_is_valid h0" "\<not> fh_payload_length h0 > max_payload"
    by (auto simp: read_frame_bounded_def h0_def Let_def split: if_splits)
  with assms s1 obtain p0 s2 where s2: "read_payload rd (fh_payload_length h0) s1 = Some (p0, s2)"
    by (cases "read_payload rd (fh_payload_length h0) s1") (auto simp: read_frame_bounded_def h0_def [symmetric] Let_def)
  note c2 = read_payload_Some [OF s2]
  have e: "(if has_flag (fh_flags h0) mf_has_checksum
       then map_option (\<lambda>s3. (h0, p0, s3)) (read_checksum rd little (frame_crc little hb p0) s2)
       else Some (h0, p0, s2)) = Some (h, p, s')"
    using assms s1 s2 v by (auto simp: read_frame_bounded_def h0_def Let_def split: if_splits)
  show ?thesis
  proof (cases "has_flag (fh_flags h0) mf_has_checksum")
    case True
    with e have h: "h = h0" "p = p0" "read_checksum rd little (frame_crc little hb p0) s2 = Some s'" by auto
    from read_checksum_Some [OF h(3)] True c1 c2 v hb h(1,2) show ?thesis
      by (simp add: frame_bytes_def frame_crc_eq [of little _ _ True 0])
  next
    case False
    with e have h: "h = h0" "p = p0" "s' = s2" by auto
    with False c1 c2 v hb show ?thesis by (simp add: frame_bytes_def)
  qed
qed

end

text \<open>A list of bytes is such a stream.\<close>

definition list_read :: "bytes \<Rightarrow> nat \<Rightarrow> (bytes \<times> bytes) option" where
  "list_read s n = (if n \<le> length s then Some (take n s, drop n s) else None)"

interpretation list_stream: exact_stream list_read "\<lambda>s. s"
  by unfold_locales (auto simp: list_read_def)

section \<open>The write loop\<close>

lemma concat_advance: "n \<le> length (concat bs) \<Longrightarrow> concat (advance_iovecs n bs) = drop n (concat bs)"
  by (induction n bs rule: advance_iovecs.induct) (auto simp: drop_append)

lemma take_batch: "n \<le> length (concat (take k bs)) \<Longrightarrow> take n (concat (take k bs)) = take n (concat bs)"
  by (metis append_take_drop_id concat_append take_append diff_is_0_eq' take0 append_Nil2)

lemma length_batch_le: "length (concat (take k bs)) \<le> length (concat bs)"
  by (metis append_take_drop_id concat_append length_append le_add1)

text \<open>One response with a byte count.\<close>

lemma writev_loop_Written:
  "iovs \<noteq> [] \<Longrightarrow> n = min k (length (concat (take IOV_MAX iovs))) \<Longrightarrow> n \<noteq> 0 \<Longrightarrow>
   writev_loop iovs (IO_Written k # rs) =
     (take n (concat iovs) @ fst (writev_loop (advance_iovecs n iovs) rs),
      snd (writev_loop (advance_iovecs n iovs) rs)) \<and> n \<le> length (concat iovs)"
  using take_batch [of n IOV_MAX iovs] length_batch_le [of IOV_MAX iovs]
  by (cases iovs) (simp_all only: writev_loop.simps Let_def case_prod_beta if_False list.distinct min.cobounded2, auto)

text \<open>The wire gets a prefix, and everything when the loop is done.\<close>

lemma writev_loop_prefix:
  "(\<exists>rest. concat iovs = fst (writev_loop iovs rs) @ rest) \<and>
   (snd (writev_loop iovs rs) = IO_Done \<longrightarrow> fst (writev_loop iovs rs) = concat iovs)"
proof (induction rs arbitrary: iovs)
  case Nil
  then show ?case by (cases iovs) simp_all
next
  case (Cons r rs)
  show ?case
  proof (cases "iovs = []")
    case True
    then show ?thesis by simp
  next
    case ne: False
    show ?thesis
    proof (cases r)
      case (IO_Written k)
      define n where "n = min k (length (concat (take IOV_MAX iovs)))"
      show ?thesis
      proof (cases "n = 0")
        case True
        with ne IO_Written n_def show ?thesis by (cases iovs) (simp_all add: Let_def del: take_Suc_Cons)
      next
        case False
        note w = writev_loop_Written [OF ne n_def False, of rs]
        let ?l = "writev_loop (advance_iovecs n iovs) rs"
        have "concat iovs = take n (concat iovs) @ concat (advance_iovecs n iovs)"
          using w by (simp add: concat_advance)
        with Cons.IH [of "advance_iovecs n iovs"] w IO_Written show ?thesis by (metis append.assoc fst_conv snd_conv)
      qed
    next
      case (IO_Again poll)
      then show ?thesis using Cons.IH [of iovs] ne by (cases iovs) simp_all
    next
      case IO_Intr
      then show ?thesis using Cons.IH [of iovs] ne by (cases iovs) simp_all
    next
      case (IO_Fail e)
      then show ?thesis using ne by (cases iovs) simp_all
    qed
  qed
qed

lemma advance_head_nonempty:
  "[] \<notin> set bs \<Longrightarrow> [] \<notin> set (advance_iovecs n bs)"
  by (induction n bs rule: advance_iovecs.induct) auto

text \<open>Enough positive responses finish the loop.\<close>

lemma writev_loop_done:
  assumes "[] \<notin> set iovs" and "\<forall>r \<in> set rs. \<exists>k > 0. r = IO_Written k" and "length (concat iovs) \<le> length rs"
  shows "snd (writev_loop iovs rs) = IO_Done"
  using assms
proof (induction rs arbitrary: iovs)
  case Nil
  then have "iovs = []" by (cases iovs) auto
  then show ?case by simp
next
  case (Cons r rs)
  show ?case
  proof (cases iovs)
    case Nil
    then show ?thesis by simp
  next
    case iv: (Cons b bs)
    obtain k where r: "r = IO_Written k" "k > 0" using Cons.prems(2) by auto
    let ?batch = "concat (take IOV_MAX iovs)"
    let ?n = "min k (length ?batch)"
    have "b \<noteq> []" using Cons.prems(1) iv by auto
    then have "?batch \<noteq> []" by (simp add: iv IOV_MAX_def)
    with r have n: "?n > 0" by simp
    have "iovs \<noteq> []" by (simp add: iv)
    note w = writev_loop_Written [OF this refl, of k rs] n
    have "length (concat (advance_iovecs ?n iovs)) \<le> length rs"
      using w Cons.prems(3) by (simp only: concat_advance length_drop length_Cons)
    then have "snd (writev_loop (advance_iovecs ?n iovs) rs) = IO_Done"
      using Cons.prems by (intro Cons.IH advance_head_nonempty) auto
    with w r show ?thesis by simp
  qed
qed

text \<open>An error result is never positive, so write\_frame reports success only when all is written.\<close>

lemma writev_loop_error: "snd (writev_loop iovs rs) = IO_Error e \<Longrightarrow> e \<le> 0"
proof (induction rs arbitrary: iovs)
  case Nil
  then show ?case by (cases iovs) simp_all
next
  case (Cons r rs)
  show ?case
  proof (cases "iovs = []")
    case True
    with Cons.prems show ?thesis by simp
  next
    case ne: False
    show ?thesis
    proof (cases r)
      case (IO_Written k)
      define n where "n = min k (length (concat (take IOV_MAX iovs)))"
      show ?thesis
      proof (cases "n = 0")
        case True
        with ne IO_Written n_def Cons.prems show ?thesis by (cases iovs) (simp_all add: Let_def del: take_Suc_Cons)
      next
        case False
        with writev_loop_Written [OF ne n_def False, of rs] Cons IO_Written show ?thesis by auto
      qed
    qed (use Cons ne in \<open>cases iovs; auto split: if_splits\<close>)+
  qed
qed

lemma write_frame_True:
  assumes "write_frame little h p rs = (out, Some True)"
  shows "out = frame_bytes h p"
proof -
  let ?l = "writev_loop (frame_iovecs little h p) rs"
  have "snd ?l = IO_Done"
  proof (cases "snd ?l")
    case (IO_Error e)
    with writev_loop_error [OF this] assms show ?thesis
      by (simp add: write_frame_def writev_exact_def Let_def case_prod_beta)
  qed (use assms in \<open>simp_all add: write_frame_def writev_exact_def Let_def case_prod_beta\<close>)
  with writev_loop_prefix [of "frame_iovecs little h p" rs] assms show ?thesis
    by (simp add: write_frame_def writev_exact_def Let_def case_prod_beta frame_iovecs_concat)
qed

lemma frame_iovecs_nonempty: "[] \<notin> set (frame_iovecs little h p)"
proof -
  have "fh_to_bytes little h \<noteq> []"
    by (simp add: fh_to_bytes_def)
  moreover have "[] \<noteq> write_le little (k :: u32)" for k
    by (simp add: write_le_eq le_bytes_def)
  ultimately show ?thesis by (auto simp: frame_iovecs_def Let_def)
qed

lemma write_frame_complete:
  assumes "\<forall>r \<in> set rs. \<exists>k > 0. r = IO_Written k" "length (frame_bytes h p) \<le> length rs"
    "length (frame_bytes h p) \<le> 2147483647"
  shows "write_frame little h p rs = (frame_bytes h p, Some True)"
proof -
  have d: "snd (writev_loop (frame_iovecs little h p) rs) = IO_Done"
    by (rule writev_loop_done [OF frame_iovecs_nonempty assms(1)]) (simp add: frame_iovecs_concat assms(2))
  with writev_loop_prefix [of "frame_iovecs little h p" rs]
  have f: "fst (writev_loop (frame_iovecs little h p) rs) = frame_bytes h p" by (simp add: frame_iovecs_concat)
  have "length (frame_bytes h p) > 0" by (simp add: frame_bytes_def frame_header_size_def)
  with d f assms(3) show ?thesis
    by (simp add: write_frame_def writev_exact_def Let_def case_prod_beta frame_iovecs_concat del: length_greater_0_conv)
qed

section \<open>Properties of frames\<close>

text \<open>
  C21: a frame that write\_frame reports as written, whatever partial writes, EAGAIN and EINTR
  happened on the way, is read by read\_frame at the other end as the same header and payload,
  between hosts of either byte order, and the reader is then right behind the frame.
  The reader's stream must deliver exactly the bytes asked for or fail, and the header must be valid
  with the length of the payload, within the reader's limit.
\<close>

theorem rpc_frame_roundtrip:
  assumes "exact_stream rd content" and "fh_is_valid h" and "unat (fh_payload_length h) = length p"
    and "fh_payload_length h \<le> max_payload"
    and "write_frame l1 h p rs = (out, Some True)" and "content s = out @ r"
  shows "\<exists>s'. read_frame_bounded rd l2 max_payload s = Some (h, p, s') \<and> content s' = r"
  using exact_stream.read_frame_written [OF assms(1-4)] assms(6) write_frame_True [OF assms(5)] by blast

theorem rpc_frame_roundtrip_witness:
  "\<exists>s'. read_frame_bounded list_read False 100
       (fst (write_frame True (build_ping 7\<lparr>fh_type := mt_response, fh_flags := mf_has_checksum, fh_payload_length := 2\<rparr>)
              [1, 2] (replicate 40 (IO_Written 1))) @ [9]) =
     Some (build_ping 7\<lparr>fh_type := mt_response, fh_flags := mf_has_checksum, fh_payload_length := 2\<rparr>, [1, 2], s') \<and> s' = [9]"
proof -
  let ?h = "build_ping 7\<lparr>fh_type := mt_response, fh_flags := mf_has_checksum, fh_payload_length := 2\<rparr>"
  have v: "fh_is_valid ?h"
    by (simp add: fh_is_valid_def build_ping_def default_header_def rpc_consts is_valid_message_type_def
        has_only_supported_message_flags_def has_allowed_flags_for_type_def has_valid_shape_def has_flag_def
        max_message_size_def)
  have w: "write_frame True ?h [1, 2] (replicate 40 (IO_Written 1)) = (frame_bytes ?h [1, 2], Some True)"
    by (rule write_frame_complete) (auto simp: frame_bytes_def frame_header_size_def)
  show ?thesis
    using rpc_frame_roundtrip [OF list_stream.exact_stream_axioms v _ _ w, of 100 _ "[9]" False] w by simp
qed

text \<open>
  C22: whatever a peer sends, a frame that read\_frame accepts has a valid header, a payload of the
  announced length within the limit, and the stream really held the encoding of
  this frame, with the CRC-32 of header and payload behind it when the header announces a checksum.
\<close>

theorem rpc_frame_accepted_wellformed:
  assumes "exact_stream rd content" and "read_frame_bounded rd little max_payload s = Some (h, p, s')"
  shows "fh_is_valid h \<and> length p = unat (fh_payload_length h) \<and> fh_payload_length h \<le> max_payload \<and>
    content s = frame_bytes h p @ content s'"
  by (rule exact_stream.read_frame_accepted [OF assms])

theorem rpc_frame_accepted_wellformed_witness:
  "read_frame_bounded list_read True 0 (header_bytes (build_ping 7) @ [5]) = Some (build_ping 7, [], [5]) \<and>
   header_bytes (build_ping 7) @ [5] = frame_bytes (build_ping 7) [] @ [5]"
proof -
  have v: "fh_is_valid (build_ping 7)"
    by (simp add: fh_is_valid_def build_ping_def default_header_def rpc_consts is_valid_message_type_def
        has_only_supported_message_flags_def has_allowed_flags_for_type_def has_valid_shape_def has_flag_def
        max_message_size_def)
  have c: "header_bytes (build_ping 7) @ [5] = frame_bytes (build_ping 7) [] @ [5]"
    by (simp add: frame_bytes_def build_ping_def has_flag_def rpc_consts)
  have "read_frame_bounded list_read True 0 (header_bytes (build_ping 7) @ [5]) = Some (build_ping 7, [], [5])"
    using list_stream.read_frame_written [OF v _ _ c, of 0 True] by (simp add: build_ping_def)
  with rpc_frame_accepted_wellformed [OF list_stream.exact_stream_axioms this] show ?thesis by simp
qed

text \<open>
  C23: the scatter-gather writer never sends anything but a prefix of the frame, reports success only for
  the whole frame, and sends the same bytes as the cancellable writer; a stream that
  takes at least one byte per call makes it finish with success (for frames up to INT32\_MAX bytes).
\<close>

theorem rpc_write_frame_exact:
  "(\<exists>rest. cancellable_frame l2 h p = fst (write_frame l1 h p rs) @ rest) \<and>
   (snd (write_frame l1 h p rs) = Some True \<longrightarrow> fst (write_frame l1 h p rs) = cancellable_frame l2 h p) \<and>
   ((\<forall>r \<in> set rs. \<exists>k > 0. r = IO_Written k) \<and> length (cancellable_frame l2 h p) \<le> length rs \<and>
      length (cancellable_frame l2 h p) \<le> 2147483647
    \<longrightarrow> snd (write_frame l1 h p rs) = Some True)"
proof (intro conjI impI)
  let ?l = "writev_loop (frame_iovecs l1 h p) rs"
  have f: "fst (write_frame l1 h p rs) = fst ?l"
    by (simp add: write_frame_def writev_exact_def Let_def case_prod_beta)
  show "\<exists>rest. cancellable_frame l2 h p = fst (write_frame l1 h p rs) @ rest"
    using writev_loop_prefix [of "frame_iovecs l1 h p" rs] by (simp add: f cancellable_frame_eq frame_iovecs_concat)
  show "fst (write_frame l1 h p rs) = cancellable_frame l2 h p" if "snd (write_frame l1 h p rs) = Some True"
    using write_frame_True [of l1 h p rs] that by (cases "write_frame l1 h p rs") (simp add: cancellable_frame_eq)
  assume a: "(\<forall>r \<in> set rs. \<exists>k > 0. r = IO_Written k) \<and> length (cancellable_frame l2 h p) \<le> length rs \<and>
      length (cancellable_frame l2 h p) \<le> 2147483647"
  then show "snd (write_frame l1 h p rs) = Some True"
    using write_frame_complete [of rs h p l1] by (simp add: cancellable_frame_eq)
qed

theorem rpc_write_frame_exact_witness:
  "snd (write_frame True (build_ping 7) [] (replicate 19 (IO_Written 1))) = Some True"
proof -
  let ?h = "build_ping 7"
  have "length (cancellable_frame False ?h []) = 19"
    by (simp add: cancellable_frame_eq frame_bytes_def frame_header_size_def build_ping_def has_flag_def rpc_consts)
  then show ?thesis using rpc_write_frame_exact [of False ?h "[]" True "replicate 19 (IO_Written 1)"] by auto
qed

section \<open>Request ids\<close>

lemma request_id_next_unat:
  "unat (fst (request_id_next c)) = unat c mod 4294967295 + 1"
proof -
  have "unat (c mod 0xFFFFFFFF + 1) = unat c mod 4294967295 + 1"
    by (simp add: unat_word_ariths unat_mod_distrib)
  moreover have "unat c mod 4294967295 + 1 < 2 ^ 32" by simp
  ultimately show ?thesis by (simp add: request_id_next_def unsigned_ucast_eq take_bit_nat_eq_self)
qed

lemma map_unat_request_ids:
  "unat c + n \<le> 2 ^ 64 \<Longrightarrow>
   map unat (request_ids n c) = map (\<lambda>i. (unat c + i) mod 4294967295 + 1) [0..<n]"
proof (induction n arbitrary: c)
  case (Suc n)
  have u: "n > 0 \<Longrightarrow> unat (c + 1) = unat c + 1" using Suc.prems by (simp add: unat_word_ariths)
  have "map unat (request_ids n (c + 1)) = map (\<lambda>i. (unat c + Suc i) mod 4294967295 + 1) [0..<n]"
    using Suc u by (cases n) simp_all
  then show ?case
    using request_id_next_unat [of c]
    by (simp add: request_id_next_def upt_conv_Cons map_Suc_upt [symmetric] o_def del: upt_Suc)
qed simp

lemma mod_window_inj:
  fixes a i j m :: nat
  assumes "(a + i) mod m = (a + j) mod m" "i < m" "j < m"
  shows "i = j"
proof -
  have "i = j" if "i \<le> j" "(a + j) mod m = (a + i) mod m" "j < m" for i j
  proof -
    have "m dvd (a + j) - (a + i)" using that by (subst mod_eq_dvd_iff_nat [symmetric]) simp_all
    then have "m dvd j - i" by simp
    with that show ?thesis by (auto dest: dvd_imp_le)
  qed
  from this [of i j] this [of j i] assms show ?thesis by (cases "i \<le> j") auto
qed

text \<open>
  Request ids. The generator never issues the reserved id 0, and any 2\^{}32 - 1 consecutive ids
  are pairwise different, as long as the 64-bit counter itself does not wrap.
\<close>

theorem rpc_request_ids_distinct:
  assumes "unat c + n \<le> 2 ^ 64" and "n \<le> 4294967295"
  shows "distinct (request_ids n c) \<and> 0 \<notin> set (request_ids n c)"
proof -
  note m = map_unat_request_ids [OF assms(1)]
  have "inj_on (\<lambda>i. (unat c + i) mod 4294967295 + 1) {0..<n}"
    by (rule inj_onI) (use assms(2) in \<open>auto dest!: mod_window_inj\<close>)
  then have d: "distinct (map unat (request_ids n c))" by (simp add: m distinct_map)
  have "0 \<notin> set (map unat (request_ids n c))" by (auto simp: m)
  with d show ?thesis by (auto simp: distinct_map image_iff)
qed

theorem rpc_request_ids_distinct_witness:
  "request_ids 3 0xFFFFFFFE = [4294967295, 1, 2] \<and> distinct (request_ids 3 0xFFFFFFFE)"
  using rpc_request_ids_distinct [where c = "0xFFFFFFFE" and n = 3] by (simp add: numeral_3_eq_3 request_id_next_def)

section \<open>Messages\<close>

lemmas header_checks = fh_is_valid_def default_header_def rpc_consts is_valid_message_type_def
  has_only_supported_message_flags_def has_allowed_flags_for_type_def has_valid_shape_def has_flag_def

lemma payload_length_unat: "n \<le> max_message_size \<Longrightarrow> unat (of_nat n :: u32) = n"
  by (simp add: unat_of_nat max_message_size_def)

lemma validate_payload_size_Inr [simp]: "validate_payload_size n = Inr u \<longleftrightarrow> n \<le> max_message_size"
  by (auto simp: validate_payload_size_def max_message_size_def)

text \<open>The payload of a request, and when one can be built.\<close>

definition request_payload :: "u32 option \<Rightarrow> rval \<Rightarrow> bytes" where
  "request_payload timeout x = (case timeout of None \<Rightarrow> [] | Some ms \<Rightarrow> le_bytes ms) @ enc_val x"

definition request_flags :: "u32 option \<Rightarrow> bool \<Rightarrow> u8" where
  "request_flags timeout checksum =
     (if timeout = None then 0 else 1) OR (if checksum then 2 else 0)"

lemma build_request_Inr:
  assumes "well_typed t x" "build_request little i m x timeout ck = Inr (h, p)"
  shows "p = request_payload timeout x \<and> length p \<le> max_message_size \<and>
    h = default_header\<lparr>fh_request_id := i, fh_type := mt_request, fh_flags := request_flags timeout ck,
          fh_method_id := m, fh_payload_length := of_nat (length p)\<rparr>"
  using assms(2)
  by (cases timeout)
     (auto simp: build_request_def Let_def request_payload_def request_flags_def serialize_enc [OF assms(1)]
        rpc_consts bw_write_def write_le_eq ebind_Inr_iff split: if_splits)

lemma request_header_valid:
  assumes "length p \<le> max_message_size" "timeout \<noteq> None \<longrightarrow> 4 \<le> length p"
    "h = default_header\<lparr>fh_request_id := i, fh_type := mt_request, fh_flags := request_flags timeout ck,
          fh_method_id := m, fh_payload_length := of_nat (length p)\<rparr>"
  shows "fh_is_valid h \<and> unat (fh_payload_length h) = length p \<and> fh_payload_length h \<le> of_nat max_message_size"
  using assms(1,2) payload_length_unat [OF assms(1)] payload_length_unat [of max_message_size]
  by (simp add: assms(3) header_checks request_flags_def word_le_nat_alt)

lemma parse_typed_payload_enc:
  assumes "well_typed t x" "counts_ok t" "view_ok v" "rest_of v = enc_val x"
  shows "\<exists>v'. parse_typed_payload little t v = Inr (x, v')"
proof -
  obtain v' where v': "deserialize little t v = Inr (x, v')" "view_ok v'" "rest_of v' = []"
    using wire_codec.dec_enc [OF deserialize_codec [OF assms(2), of little] assms(1,3), of "[]"] assms(4) by auto
  have "bv_remaining v' = 0" using bv_remaining_unat [OF v'(2)] v'(3) by (simp add: unat_eq_0)
  with v'(1) show ?thesis by (simp add: parse_typed_payload_def)
qed

lemma parse_request_payload:
  assumes "well_typed t x" "counts_ok t" "length (request_payload timeout x) < 2 ^ 63"
  shows "\<exists>v'. parse_request little t (request_flags timeout ck) (mk_view (request_payload timeout x)) = Inr ((timeout, x), v')"
proof -
  note v = view_ok_mk_view [OF assms(3)]
  show ?thesis
  proof (cases timeout)
    case None
    then have "rest_of (mk_view (request_payload timeout x)) = enc_val x" using v by (simp add: request_payload_def)
    with parse_typed_payload_enc [OF assms(1,2) conjunct1 [OF v], of little] None show ?thesis
      by (auto simp: parse_request_def request_flags_def has_flag_def rpc_consts)
  next
    case (Some ms)
    then have "rest_of (mk_view (request_payload timeout x)) = le_bytes ms @ enc_val x" using v by (simp add: request_payload_def)
    then obtain v1 where v1: "bv_read little (mk_view (request_payload timeout x)) = Inr (ms, v1)" "view_ok v1" "rest_of v1 = enc_val x"
      using bv_read_encoded [OF conjunct1 [OF v], where little = little] by force
    from parse_typed_payload_enc [OF assms(1,2) v1(2,3), of little] v1(1) Some show ?thesis
      by (auto simp: parse_request_def request_flags_def has_flag_def rpc_consts)
  qed
qed

lemma build_reply_valid:
  assumes "well_typed t x" "counts_ok t" "mt \<in> {mt_response, mt_error}" "build_reply mt l1 i x ck = Inr (h, p)"
  shows "fh_is_valid h \<and> unat (fh_payload_length h) = length p \<and> fh_request_id h = i \<and>
    (\<exists>v'. parse_typed_payload l2 t (mk_view p) = Inr (x, v'))"
proof -
  have p: "p = enc_val x" "length p \<le> max_message_size"
    and h: "h = default_header\<lparr>fh_request_id := i, fh_type := mt,
              fh_flags := (if ck then mf_has_checksum else mf_none),
              fh_method_id := 0, fh_payload_length := of_nat (length p)\<rparr>"
    using assms(4) by (auto simp: build_reply_def serialize_enc [OF assms(1)] ebind_Inr_iff)
  have "length p < 2 ^ 63" using p(2) by (simp add: max_message_size_def)
  from view_ok_mk_view [OF this] parse_typed_payload_enc [OF assms(1,2), of "mk_view p" l2]
  have "\<exists>v'. parse_typed_payload l2 t (mk_view p) = Inr (x, v')" by (simp add: p(1))
  moreover have "fh_is_valid h \<and> unat (fh_payload_length h) = length p"
    using assms(3) p(2) payload_length_unat [OF p(2)] by (auto simp: h header_checks)
  ultimately show ?thesis by (simp add: h)
qed

text \<open>
  C24: a request goes through. A request value of any supported schema that build\_request accepts and
  write\_frame reports as sent is, at the other end, read by read\_frame with the same header
  and payload, and parse\_request returns the very request and the very timeout; the
  request is never dropped as an invalid frame.
\<close>

theorem rpc_request_delivered:
  assumes "exact_stream rd content" and "well_typed t x" and "counts_ok t"
    and "build_request l1 i m x timeout ck = Inr (h, p)"
    and "write_frame l1 h p rs = (out, Some True)" and "content s = out @ r"
  shows "\<exists>s' v'. read_frame rd l2 s = Some (h, p, s') \<and> content s' = r \<and> fh_request_id h = i \<and> fh_method_id h = m \<and>
    parse_request l2 t (fh_flags h) (mk_view p) = Inr ((timeout, x), v')"
proof -
  have b: "p = request_payload timeout x" "length p \<le> max_message_size"
      "h = default_header\<lparr>fh_request_id := i, fh_type := mt_request, fh_flags := request_flags timeout ck,
          fh_method_id := m, fh_payload_length := of_nat (length p)\<rparr>"
    using build_request_Inr [OF assms(2,4)] by blast+
  have "timeout \<noteq> None \<longrightarrow> 4 \<le> length p" by (auto simp: b(1) request_payload_def)
  note hv = request_header_valid [OF b(2) this b(3)]
  obtain s' where "read_frame rd l2 s = Some (h, p, s')" "content s' = r"
    using exact_stream.read_frame_written [OF assms(1), of h p "of_nat max_message_size" s r l2] hv assms(6)
      write_frame_True [OF assms(5)]
    by (auto simp: read_frame_def)
  moreover have "length (request_payload timeout x) < 2 ^ 63" using b(1,2) by (simp add: max_message_size_def)
  from parse_request_payload [OF assms(2,3) this, of l2 ck]
  obtain v' where "parse_request l2 t (fh_flags h) (mk_view p) = Inr ((timeout, x), v')" by (auto simp: b(1,3))
  ultimately show ?thesis by (auto simp: b(3))
qed

theorem rpc_request_delivered_witness:
  "\<exists>h p v'. build_request True 5 9 (VString [104, 105]) (Some 250) True = Inr (h, p) \<and>
     read_frame list_read False (fst (write_frame True h p (replicate 64 (IO_Written 1)))) = Some (h, p, []) \<and>
     parse_request False TString (fh_flags h) (mk_view p) = Inr ((Some 250, VString [104, 105]), v')"
proof -
  let ?x = "VString [104, 105]"
  have w: "well_typed TString ?x" by (simp add: max_message_size_def)
  have "build_request True 5 9 ?x (Some 250) True =
      Inr (default_header\<lparr>fh_request_id := 5, fh_type := mt_request, fh_flags := request_flags (Some 250) True,
             fh_method_id := 9, fh_payload_length := 10\<rparr>, request_payload (Some 250) ?x)"
    by (simp add: build_request_def Let_def request_payload_def request_flags_def serialize_enc [OF w]
        rpc_consts bw_write_def write_le_eq validate_payload_size_def counted_bytes_def max_message_size_def
        del: serialize.simps)
  then obtain h p where b: "build_request True 5 9 ?x (Some 250) True = Inr (h, p)" "length p = 10"
    by (auto simp: request_payload_def counted_bytes_def)
  have f: "write_frame True h p (replicate 64 (IO_Written 1)) = (frame_bytes h p, Some True)"
    by (rule write_frame_complete) (auto simp: frame_bytes_def frame_header_size_def b(2))
  from rpc_request_delivered [OF list_stream.exact_stream_axioms w _ b(1) f, of _ "[]" False] b f show ?thesis by auto
qed

lemma length_error_payload: "length (enc_val (error_payload code msg)) = 8 + length msg"
  by (simp add: error_payload_def counted_bytes_def)

text \<open>
  Replies go through. The header that build\_response or build\_error\_response makes
  passes the reader's validation with the length of the payload, keeps the request id, and the payload parses back to
  the same response value, or to the same error code and message; ping, pong and cancel frames are
  valid with an empty payload. Hosts may differ in byte order.
\<close>

theorem rpc_replies_valid:
  "(well_typed t x \<and> counts_ok t \<and> build_response l1 i x ck = Inr (h, p) \<longrightarrow>
      fh_is_valid h \<and> unat (fh_payload_length h) = length p \<and> fh_request_id h = i \<and>
      (\<exists>v'. parse_response l2 t (mk_view p) = Inr (x, v'))) \<and>
   (length msg < max_message_size - 8 \<longrightarrow>
      (\<exists>h p v'. build_error_response l1 i code msg ck = Inr (h, p) \<and>
        fh_is_valid h \<and> unat (fh_payload_length h) = length p \<and> fh_request_id h = i \<and>
        parse_error l2 (mk_view p) = Inr (error_payload code msg, v'))) \<and>
   (\<forall>b \<in> {build_ping, build_pong, build_cancel}.
      fh_is_valid (b i) \<and> fh_payload_length (b i) = 0 \<and> fh_request_id (b i) = i)"
proof (intro conjI impI)
  show "\<forall>b \<in> {build_ping, build_pong, build_cancel}.
      fh_is_valid (b i) \<and> fh_payload_length (b i) = 0 \<and> fh_request_id (b i) = i"
    by (simp add: build_ping_def build_pong_def build_cancel_def header_checks)
next
  assume "well_typed t x \<and> counts_ok t \<and> build_response l1 i x ck = Inr (h, p)"
  with build_reply_valid [of t x mt_response l1 i ck h p l2]
  show "fh_is_valid h" "unat (fh_payload_length h) = length p" "fh_request_id h = i"
    "\<exists>v'. parse_response l2 t (mk_view p) = Inr (x, v')"
    by (auto simp: build_response_def parse_response_def)
next
  assume m: "length msg < max_message_size - 8"
  have "unat (ucast code :: u64) < 2 ^ 32"
    using unsigned_less [of code, where ?'a = nat] take_bit_nat_less_eq_self [of 64 "unat code"]
    by (simp add: unsigned_ucast_eq del: take_bit_nat_less_eq_self)
  then have w: "well_typed error_payload_ty (error_payload code msg)" "counts_ok error_payload_ty"
    using m by (simp_all add: error_payload_ty_def error_payload_def max_message_size_def)
  have "\<exists>h p. build_error_response l1 i code msg ck = Inr (h, p)"
    using m by (simp add: build_error_response_def build_reply_def serialize_enc [OF w(1)] validate_payload_size_def
        length_error_payload max_message_size_def del: serialize.simps)
  then obtain h p where b: "build_error_response l1 i code msg ck = Inr (h, p)" by blast
  with build_reply_valid [of error_payload_ty "error_payload code msg" mt_error l1 i ck h p l2] w
  show "\<exists>h p v'. build_error_response l1 i code msg ck = Inr (h, p) \<and>
        fh_is_valid h \<and> unat (fh_payload_length h) = length p \<and> fh_request_id h = i \<and>
        parse_error l2 (mk_view p) = Inr (error_payload code msg, v')"
    by (auto simp: build_error_response_def parse_error_def)
qed

theorem rpc_replies_valid_witness:
  "\<exists>h p v'. build_error_response True 3 2 [110, 111] False = Inr (h, p) \<and> fh_is_valid h \<and>
     parse_error False (mk_view p) = Inr (error_payload 2 [110, 111], v')"
  using rpc_replies_valid [where msg = "[110, 111]" and code = 2 and i = 3 and ?l1.0 = True and ?l2.0 = False
      and ck = False and t = TBool and x = "VBool True" and h = default_header and p = "[]"]
  by (auto simp: max_message_size_def)

end
