(* ===== verification/Websocket_Utf8.thy ===== *)
theory Websocket_Utf8
  imports Bytes
begin

text \<open>
  UTF-8 validation (is\_valid\_utf8 of src/include/elio/http/websocket\_frame.hpp), and the
  reference it is compared with: the encoding of Unicode scalar values.
\<close>

section \<open>The validator\<close>

text \<open>The sequence length the lead byte announces; 0 when it is no lead byte.\<close>

definition utf8_len :: "u8 \<Rightarrow> nat" where
  "utf8_len c =
     (if c \<le> 0x7F then 1
      else if c AND 0xE0 = 0xC0 then 2
      else if c AND 0xF0 = 0xE0 then 3
      else if c AND 0xF8 = 0xF0 then 4
      else 0)"

text \<open>The tests on one sequence, which starts at the head of \<open>s\<close> and has \<open>len\<close> bytes.\<close>

definition utf8_seq_ok :: "bytes \<Rightarrow> nat \<Rightarrow> bool" where
  "utf8_seq_ok s len =
     (let c = s ! 0 in
      if \<exists>b \<in> set (take (len - 1) (drop 1 s)). b AND 0xC0 \<noteq> 0x80 then False
      else if len = 2 \<and> c < 0xC2 then False
      else if len = 3 \<and> c = 0xE0 \<and> s ! 1 < 0xA0 then False
      else if len = 3 \<and> c = 0xED \<and> s ! 1 \<ge> 0xA0 then False
      else if len = 4 \<and> c = 0xF0 \<and> s ! 1 < 0x90 then False
      else if len = 4 \<and> c = 0xF4 \<and> s ! 1 > 0x8F then False
      else if len = 4 \<and> c > 0xF4 then False
      else True)"

text \<open>The loop; \<open>s\<close> is what is left of the string.\<close>

function is_valid_utf8 :: "bytes \<Rightarrow> bool" where
  "is_valid_utf8 s =
     (if s = [] then True
      else
        let len = utf8_len (s ! 0) in
        if len = 0 \<or> len > length s then False
        else if \<not> utf8_seq_ok s len then False
        else is_valid_utf8 (drop len s))"
  by pat_completeness auto
termination
  by (relation "measure length") auto

declare is_valid_utf8.simps [simp del]

section \<open>The reference\<close>

definition is_scalar :: "nat \<Rightarrow> bool" where
  "is_scalar c \<longleftrightarrow> c < 0xD800 \<or> 0xE000 \<le> c \<and> c < 0x110000"

definition utf8_encode :: "nat \<Rightarrow> bytes" where
  "utf8_encode c =
     (if c < 0x80 then [of_nat c]
      else if c < 0x800 then [of_nat (0xC0 + c div 64), of_nat (0x80 + c mod 64)]
      else if c < 0x10000 then
        [of_nat (0xE0 + c div 4096), of_nat (0x80 + c div 64 mod 64), of_nat (0x80 + c mod 64)]
      else
        [of_nat (0xF0 + c div 262144), of_nat (0x80 + c div 4096 mod 64),
         of_nat (0x80 + c div 64 mod 64), of_nat (0x80 + c mod 64)])"

section \<open>Byte classes as intervals\<close>

lemma unat_u8_less: "unat (c :: u8) < 256"
  using unsigned_less [of c, where ?'a = nat] by simp

lemma unat_and_not_mask: "unat ((c :: u8) AND NOT (mask n)) = (unat c div 2 ^ n) * 2 ^ n"
proof -
  have e: "c AND NOT (mask n) = push_bit n (drop_bit n c)"
    by (simp add: bit_eq_iff bit_simps) (auto dest: bit_imp_le_length)
  have "unat c div 2 ^ n * 2 ^ n < 256"
    by (rule le_less_trans [OF div_times_less_eq_dividend unat_u8_less])
  moreover have "unat (push_bit n (drop_bit n c)) = take_bit 8 (unat c div 2 ^ n * 2 ^ n)"
    unfolding unsigned_push_bit_eq unsigned_drop_bit_eq
    by (simp add: push_bit_eq_mult drop_bit_eq_div take_bit_nat_eq_self unat_u8_less)
  ultimately show ?thesis by (simp add: e take_bit_nat_eq_self)
qed

lemma byte_masks:
  "(0xE0 :: u8) = NOT (mask 5)" "(0xF0 :: u8) = NOT (mask 4)"
  "(0xF8 :: u8) = NOT (mask 3)" "(0xC0 :: u8) = NOT (mask 6)"
  by (simp_all add: mask_eq_exp_minus_1)

lemma byte_classes:
  fixes c :: u8
  shows "c AND 0xE0 = 0xC0 \<longleftrightarrow> 192 \<le> unat c \<and> unat c < 224"
    and "c AND 0xF0 = 0xE0 \<longleftrightarrow> 224 \<le> unat c \<and> unat c < 240"
    and "c AND 0xF8 = 0xF0 \<longleftrightarrow> 240 \<le> unat c \<and> unat c < 248"
    and "c AND 0xC0 = 0x80 \<longleftrightarrow> 128 \<le> unat c \<and> unat c < 192"
proof -
  have m: "c AND m = v \<longleftrightarrow> (unat c div 2 ^ n) * 2 ^ n = unat v" if "m = NOT (mask n)" for m v n
    using unat_and_not_mask [of c n] that by (metis unsigned_word_eqI)
  show "c AND 0xE0 = 0xC0 \<longleftrightarrow> 192 \<le> unat c \<and> unat c < 224"
    and "c AND 0xF0 = 0xE0 \<longleftrightarrow> 224 \<le> unat c \<and> unat c < 240"
    and "c AND 0xF8 = 0xF0 \<longleftrightarrow> 240 \<le> unat c \<and> unat c < 248"
    and "c AND 0xC0 = 0x80 \<longleftrightarrow> 128 \<le> unat c \<and> unat c < 192"
    unfolding m [OF byte_masks(1)] m [OF byte_masks(2)] m [OF byte_masks(3)] m [OF byte_masks(4)]
    by (simp_all, arith+)
qed

lemma lead_eqs:
  fixes c :: u8
  shows "c = 0xE0 \<longleftrightarrow> unat c = 224" "c = 0xED \<longleftrightarrow> unat c = 237" "c = 0xF0 \<longleftrightarrow> unat c = 240" "c = 0xF4 \<longleftrightarrow> unat c = 244"
  by (simp_all add: word_unat_eq_iff)

lemmas byte_nat = word_less_nat_alt word_le_nat_alt

text \<open>A continuation byte.\<close>

abbreviation cont :: "u8 \<Rightarrow> bool" where
  "cont b \<equiv> 128 \<le> unat b \<and> unat b < 192"

lemma utf8_len_nat:
  "utf8_len c =
     (if unat c < 128 then 1 else if unat c < 192 then 0 else if unat c < 224 then 2
      else if unat c < 240 then 3 else if unat c < 248 then 4 else 0)"
proof -
  consider "unat c < 128" | "128 \<le> unat c" "unat c < 192" | "192 \<le> unat c" "unat c < 224"
    | "224 \<le> unat c" "unat c < 240" | "240 \<le> unat c" "unat c < 248" | "248 \<le> unat c" by linarith
  then show ?thesis by cases (simp_all add: utf8_len_def byte_nat byte_classes)
qed

text \<open>The tests on a sequence of each length.\<close>

lemma utf8_seq_ok_conj:
  "utf8_seq_ok s len \<longleftrightarrow>
     (\<forall>b \<in> set (take (len - 1) (drop 1 s)). cont b) \<and> \<not> (len = 2 \<and> unat (s ! 0) < 194) \<and>
     \<not> (len = 3 \<and> unat (s ! 0) = 224 \<and> unat (s ! 1) < 160) \<and> \<not> (len = 3 \<and> unat (s ! 0) = 237 \<and> 160 \<le> unat (s ! 1)) \<and>
     \<not> (len = 4 \<and> unat (s ! 0) = 240 \<and> unat (s ! 1) < 144) \<and> \<not> (len = 4 \<and> unat (s ! 0) = 244 \<and> 143 < unat (s ! 1)) \<and>
     \<not> (len = 4 \<and> 244 < unat (s ! 0))"
proof -
  have i: "(if P then False else Q) \<longleftrightarrow> \<not> P \<and> Q" for P Q by simp
  show ?thesis
    unfolding utf8_seq_ok_def Let_def i byte_nat byte_classes(4) lead_eqs by simp
qed

lemma utf8_seq_ok_nat:
  "utf8_seq_ok (a # s) (Suc 0)"
  "utf8_seq_ok (a # b # s) 2 \<longleftrightarrow> cont b \<and> 194 \<le> unat a"
  "utf8_seq_ok (a # b # c # s) 3 \<longleftrightarrow>
     cont b \<and> cont c \<and> (unat a = 224 \<longrightarrow> 160 \<le> unat b) \<and> (unat a = 237 \<longrightarrow> unat b < 160)"
  "utf8_seq_ok (a # b # c # d # s) 4 \<longleftrightarrow>
     cont b \<and> cont c \<and> cont d \<and> (unat a = 240 \<longrightarrow> 144 \<le> unat b) \<and> (unat a = 244 \<longrightarrow> unat b < 144) \<and> unat a \<le> 244"
  unfolding utf8_seq_ok_conj by (simp_all add: not_less not_le conj_ac, linarith+)

text \<open>One iteration, by the lead byte.\<close>

lemma utf8_iter:
  "is_valid_utf8 (a # s) \<longleftrightarrow>
     utf8_len a \<noteq> 0 \<and> utf8_len a \<le> length (a # s) \<and> utf8_seq_ok (a # s) (utf8_len a) \<and>
     is_valid_utf8 (drop (utf8_len a) (a # s))"
  by (subst is_valid_utf8.simps) (auto simp: Let_def)

lemma utf8_ascii: "unat a < 128 \<Longrightarrow> is_valid_utf8 (a # s) = is_valid_utf8 s"
  by (simp add: utf8_iter utf8_len_nat utf8_seq_ok_nat)

lemma utf8_no_lead: "128 \<le> unat a \<Longrightarrow> unat a < 192 \<or> 248 \<le> unat a \<Longrightarrow> \<not> is_valid_utf8 (a # s)"
  by (subst utf8_iter) (auto simp: utf8_len_nat)

lemma utf8_two:
  assumes "192 \<le> unat a" "unat a < 224"
  shows "is_valid_utf8 (a # s) \<longleftrightarrow> (\<exists>b r. s = b # r \<and> cont b \<and> 194 \<le> unat a \<and> is_valid_utf8 r)"
proof -
  have l: "utf8_len a = 2" using assms by (simp add: utf8_len_nat)
  show ?thesis by (cases s) (auto simp: utf8_iter l utf8_seq_ok_nat)
qed

lemma utf8_three:
  assumes "224 \<le> unat a" "unat a < 240"
  shows "is_valid_utf8 (a # s) \<longleftrightarrow>
     (\<exists>b c r. s = b # c # r \<and> cont b \<and> cont c \<and> (unat a = 224 \<longrightarrow> 160 \<le> unat b) \<and>
        (unat a = 237 \<longrightarrow> unat b < 160) \<and> is_valid_utf8 r)"
proof -
  have l: "utf8_len a = 3" using assms by (simp add: utf8_len_nat)
  show ?thesis
  proof (cases "length s < 2")
    case True
    then have "\<not> is_valid_utf8 (a # s)" by (subst utf8_iter) (simp add: l)
    with True show ?thesis by auto
  next
    case False
    then obtain b c r where "s = b # c # r" by (auto simp: not_less numeral_2_eq_2 Suc_le_length_iff)
    then show ?thesis by (simp, subst utf8_iter) (simp add: l utf8_seq_ok_nat)
  qed
qed

lemma utf8_four:
  assumes "240 \<le> unat a" "unat a < 248"
  shows "is_valid_utf8 (a # s) \<longleftrightarrow>
     (\<exists>b c d r. s = b # c # d # r \<and> cont b \<and> cont c \<and> cont d \<and> (unat a = 240 \<longrightarrow> 144 \<le> unat b) \<and>
        (unat a = 244 \<longrightarrow> unat b < 144) \<and> unat a \<le> 244 \<and> is_valid_utf8 r)"
proof -
  have l: "utf8_len a = 4" using assms by (simp add: utf8_len_nat)
  show ?thesis
  proof (cases "length s < 3")
    case True
    then have "\<not> is_valid_utf8 (a # s)" by (subst utf8_iter) (simp add: l)
    with True show ?thesis by auto
  next
    case False
    then obtain b c d r where "s = b # c # d # r" by (auto simp: not_less numeral_3_eq_3 Suc_le_length_iff)
    then show ?thesis by (simp, subst utf8_iter) (simp add: l utf8_seq_ok_nat)
  qed
qed

section \<open>Equivalence\<close>

lemma unat_byte: "n < 256 \<Longrightarrow> unat (of_nat n :: u8) = n"
  by (simp add: unat_of_nat)

text \<open>Encoding of the digits of a code point.\<close>

lemma digits:
  fixes q k w :: nat
  assumes "w < k"
  shows "(q * k + w) div k = q" "(q * k + w) mod k = w"
  using assms by simp_all

lemma utf8_encode_two:
  assumes "2 \<le> x" "x < 32" "y < 64"
  shows "is_scalar (x * 64 + y) \<and> utf8_encode (x * 64 + y) = [of_nat (192 + x), of_nat (128 + y)]"
proof -
  have "(x * 64 + y) div 64 = x" "(x * 64 + y) mod 64 = y" using assms by simp_all
  moreover have "128 \<le> x * 64 + y" "x * 64 + y < 2048" using assms by linarith+
  ultimately show ?thesis by (simp add: utf8_encode_def is_scalar_def del: of_nat_add)
qed

lemma utf8_encode_three:
  assumes "x < 16" "y < 64" "z < 64" "x = 0 \<longrightarrow> 32 \<le> y" "x = 13 \<longrightarrow> y < 32"
  shows "is_scalar (x * 4096 + (y * 64 + z)) \<and>
    utf8_encode (x * 4096 + (y * 64 + z)) = [of_nat (224 + x), of_nat (128 + y), of_nat (128 + z)]"
proof -
  let ?c = "x * 4096 + (y * 64 + z)"
  have c: "?c = (x * 64 + y) * 64 + z" by simp
  have "(y * 64 + z) div 4096 = 0" using assms by simp
  then have "?c div 4096 = x" by simp
  moreover have "?c div 64 = x * 64 + y" "?c mod 64 = z" unfolding c using assms by (simp_all only: digits)
  moreover have "(x * 64 + y) mod 64 = y" using assms by simp
  moreover have "2048 \<le> ?c" using assms(4) by (cases "x = 0") auto
  moreover have "?c < 65536" using assms by linarith
  moreover have "is_scalar ?c"
    unfolding is_scalar_def using assms by (cases "x < 13"; cases "x = 13") auto
  ultimately show ?thesis by (simp add: utf8_encode_def del: of_nat_add)
qed

lemma utf8_encode_four:
  assumes "x \<le> 4" "y < 64" "z < 64" "w < 64" "x = 0 \<longrightarrow> 16 \<le> y" "x = 4 \<longrightarrow> y < 16"
  shows "is_scalar (x * 262144 + (y * 4096 + (z * 64 + w))) \<and>
    utf8_encode (x * 262144 + (y * 4096 + (z * 64 + w))) =
      [of_nat (240 + x), of_nat (128 + y), of_nat (128 + z), of_nat (128 + w)]"
proof -
  let ?c = "x * 262144 + (y * 4096 + (z * 64 + w))"
  have c: "?c = (x * 4096 + y * 64 + z) * 64 + w" "?c = (x * 64 + y) * 4096 + (z * 64 + w)" by simp_all
  have "(y * 4096 + (z * 64 + w)) div 262144 = 0" using assms by simp
  then have "?c div 262144 = x" by simp
  moreover have "(z * 64 + w) div 4096 = 0" using assms by simp
  then have "?c div 4096 = x * 64 + y" unfolding c(2) by simp
  moreover have "?c div 64 = x * 4096 + y * 64 + z" "?c mod 64 = w" unfolding c(1) using assms by (simp_all only: digits)
  moreover have "(x * 64 + y) mod 64 = y" "(x * 4096 + y * 64 + z) mod 64 = z"
    using assms digits(2) [of z 64 "x * 64 + y"] by (simp_all add: algebra_simps)
  moreover have "65536 \<le> ?c" using assms(5) by (cases "x = 0") auto
  moreover have "?c < 1114112" using assms by linarith
  ultimately show ?thesis by (simp add: utf8_encode_def is_scalar_def del: of_nat_add)
qed

lemma split_digits: "\<exists>x y. c = x * k + y \<and> (0 < k \<longrightarrow> y < (k::nat))"
  by (rule exI [of _ "c div k"], rule exI [of _ "c mod k"]) simp

lemma utf8_encode_step:
  assumes c: "is_scalar c"
  shows "is_valid_utf8 (utf8_encode c @ r) = is_valid_utf8 r"
proof -
  obtain q z where q: "c = q * 64 + z" "z < 64" using split_digits [of c 64] by auto
  obtain p y where p: "q = p * 64 + y" "y < 64" using split_digits [of q 64] by auto
  obtain o' x where o': "p = o' * 64 + x" "x < 64" using split_digits [of p 64] by auto
  have lt: "c < 1114112" using c by (auto simp: is_scalar_def)
  consider "c < 128" | "128 \<le> c" "c < 2048" | "2048 \<le> c" "c < 65536" | "65536 \<le> c" using lt by linarith
  then show ?thesis
  proof cases
    case 1
    then show ?thesis by (simp add: utf8_encode_def utf8_ascii unat_byte del: of_nat_add)
  next
    case 2
    then have "2 \<le> q" "q < 32" using q by linarith+
    with utf8_encode_two [of q z] q show ?thesis by (simp add: utf8_two unat_byte del: of_nat_add)
  next
    case 3
    have c3: "c = p * 4096 + (y * 64 + z)" using q p by simp
    have x: "p < 16" using 3 c3 by linarith
    moreover have y0: "p = 0 \<longrightarrow> 32 \<le> y" using 3 c3 q(2) by auto
    moreover have y13: "p = 13 \<longrightarrow> y < 32" using c c3 p(2) q(2) by (auto simp: is_scalar_def)
    ultimately have e: "utf8_encode c = [of_nat (224 + p), of_nat (128 + y), of_nat (128 + z)]"
      using utf8_encode_three [of p y z] p(2) q(2) c3 by simp
    show ?thesis using x y0 y13 p(2) q(2) by (simp add: e utf8_three unat_byte del: of_nat_add)
  next
    case 4
    have c4: "c = o' * 262144 + (x * 4096 + (y * 64 + z))" using q p o' by simp
    have o: "o' \<le> 4" using lt c4 by linarith
    moreover have x0: "o' = 0 \<longrightarrow> 16 \<le> x" using 4 c4 q(2) p(2) by auto
    moreover have x4: "o' = 4 \<longrightarrow> x < 16" using lt c4 by auto
    ultimately have e: "utf8_encode c = [of_nat (240 + o'), of_nat (128 + x), of_nat (128 + y), of_nat (128 + z)]"
      using utf8_encode_four [of o' x y z] o'(2) p(2) q(2) c4 by simp
    show ?thesis using o x0 x4 o'(2) p(2) q(2) by (simp add: e utf8_four unat_byte del: of_nat_add)
  qed
qed

lemma utf8_encodes: "\<forall>c \<in> set cs. is_scalar c \<Longrightarrow> is_valid_utf8 (concat (map utf8_encode cs))"
  by (induction cs) (simp_all add: utf8_encode_step is_valid_utf8.simps [of "[]"])

lemma cont_digit: "cont b \<Longrightarrow> \<exists>y. y < 64 \<and> b = of_nat (128 + y) \<and> unat b = 128 + y"
  by (rule exI [of _ "unat b - 128"]) (auto simp del: of_nat_add)

lemma lead_digit: "n \<le> unat a \<Longrightarrow> unat a < n + k \<Longrightarrow> \<exists>x. x < k \<and> a = (of_nat (n + x) :: u8) \<and> unat a = n + x"
  by (rule exI [of _ "unat a - n"]) (auto simp del: of_nat_add)

lemma utf8_decode:
  assumes "is_valid_utf8 s" "s \<noteq> []"
  shows "\<exists>c r. is_scalar c \<and> s = utf8_encode c @ r \<and> is_valid_utf8 r"
proof -
  obtain a t where s: "s = a # t" using assms(2) by (cases s) auto
  have "\<not> (128 \<le> unat a \<and> (unat a < 192 \<or> 248 \<le> unat a))" using utf8_no_lead [of a t] assms(1) s by auto
  then consider "unat a < 128" | "192 \<le> unat a" "unat a < 192 + 32" | "224 \<le> unat a" "unat a < 224 + 16"
    | "240 \<le> unat a" "unat a < 240 + 8" by linarith
  then show ?thesis
  proof cases
    case 1
    then have "is_scalar (unat a) \<and> s = utf8_encode (unat a) @ t \<and> is_valid_utf8 t"
      using assms(1) s by (simp add: is_scalar_def utf8_encode_def utf8_ascii)
    then show ?thesis by blast
  next
    case 2
    obtain x where x: "x < 32" "a = of_nat (192 + x)" "unat a = 192 + x" using lead_digit [OF 2] by blast
    obtain b r where t: "t = b # r" "cont b" "194 \<le> unat a" "is_valid_utf8 r"
      using utf8_two [of a t] assms(1) s 2 by auto
    obtain y where y: "y < 64" "b = of_nat (128 + y)" using cont_digit [OF t(2)] by blast
    have "2 \<le> x" using t(3) x(3) by simp
    from utf8_encode_two [OF this x(1) y(1)] t(1,4) x(2) y(2) s
    have "is_scalar (x * 64 + y) \<and> s = utf8_encode (x * 64 + y) @ r \<and> is_valid_utf8 r" by (simp del: of_nat_add)
    then show ?thesis by blast
  next
    case 3
    obtain x where x: "x < 16" "a = of_nat (224 + x)" "unat a = 224 + x" using lead_digit [OF 3] by blast
    obtain b d r where t: "t = b # d # r" "cont b" "cont d" "unat a = 224 \<longrightarrow> 160 \<le> unat b"
        "unat a = 237 \<longrightarrow> unat b < 160" "is_valid_utf8 r"
      using utf8_three [of a t] assms(1) s 3 by auto
    obtain y where y: "y < 64" "b = of_nat (128 + y)" "unat b = 128 + y" using cont_digit [OF t(2)] by blast
    obtain z where z: "z < 64" "d = of_nat (128 + z)" using cont_digit [OF t(3)] by blast
    have "x = 0 \<longrightarrow> 32 \<le> y" "x = 13 \<longrightarrow> y < 32" using t(4,5) x(3) y(3) by simp_all
    from utf8_encode_three [OF x(1) y(1) z(1) this] t(1,6) x(2) y(2) z(2) s
    have "is_scalar (x * 4096 + (y * 64 + z)) \<and> s = utf8_encode (x * 4096 + (y * 64 + z)) @ r \<and> is_valid_utf8 r"
      by (simp del: of_nat_add)
    then show ?thesis by blast
  next
    case 4
    obtain x where x: "x < 8" "a = of_nat (240 + x)" "unat a = 240 + x" using lead_digit [OF 4] by blast
    obtain b d e r where t: "t = b # d # e # r" "cont b" "cont d" "cont e" "unat a = 240 \<longrightarrow> 144 \<le> unat b"
        "unat a = 244 \<longrightarrow> unat b < 144" "unat a \<le> 244" "is_valid_utf8 r"
      using utf8_four [of a t] assms(1) s 4 by auto
    obtain y where y: "y < 64" "b = of_nat (128 + y)" "unat b = 128 + y" using cont_digit [OF t(2)] by blast
    obtain z where z: "z < 64" "d = of_nat (128 + z)" using cont_digit [OF t(3)] by blast
    obtain w where w: "w < 64" "e = of_nat (128 + w)" using cont_digit [OF t(4)] by blast
    have "x \<le> 4" "x = 0 \<longrightarrow> 16 \<le> y" "x = 4 \<longrightarrow> y < 16" using t(5,6,7) x(3) y(3) by simp_all
    from utf8_encode_four [OF this(1) y(1) z(1) w(1) this(2,3)] t(1,8) x(2) y(2) z(2) w(2) s
    have "is_scalar (x * 262144 + (y * 4096 + (z * 64 + w))) \<and>
        s = utf8_encode (x * 262144 + (y * 4096 + (z * 64 + w))) @ r \<and> is_valid_utf8 r"
      by (simp del: of_nat_add)
    then show ?thesis by blast
  qed
qed

lemma utf8_encode_nonempty: "utf8_encode c \<noteq> []"
  by (simp add: utf8_encode_def)

lemma utf8_decodes: "is_valid_utf8 s \<Longrightarrow> \<exists>cs. (\<forall>c \<in> set cs. is_scalar c) \<and> s = concat (map utf8_encode cs)"
proof (induction "length s" arbitrary: s rule: less_induct)
  case less
  show ?case
  proof (cases "s = []")
    case True
    then show ?thesis by (intro exI [of _ "[]"]) simp
  next
    case False
    obtain c r where c: "is_scalar c" "s = utf8_encode c @ r" "is_valid_utf8 r"
      using utf8_decode [OF less.prems False] by blast
    then have "length r < length s" using utf8_encode_nonempty [of c] by simp
    from less.hyps [OF this c(3)] obtain cs where "\<forall>c \<in> set cs. is_scalar c" "r = concat (map utf8_encode cs)" by blast
    with c show ?thesis by (intro exI [of _ "c # cs"]) simp
  qed
qed

text \<open>
  C25: the validator of text messages accepts exactly the UTF-8 encodings of sequences of Unicode scalar values
  (RFC 3629): no overlong form, no surrogate, nothing above U+10FFFF and no truncated sequence passes, and
  every well-formed text does.
\<close>

theorem ws_utf8_exact:
  "is_valid_utf8 s \<longleftrightarrow> (\<exists>cs. list_all is_scalar cs \<and> s = concat (map utf8_encode cs))"
  using utf8_decodes [of s] utf8_encodes by (auto simp: list_all_iff)

end
