(* ===== verification/Websocket_Frame.thy ===== *)
theory Websocket_Frame
  imports Websocket_Utf8
begin

text \<open>
  WebSocket framing (src/include/elio/http/websocket\_frame.hpp): the header parser, masking, the
  frame encoders, the close payload, and the incremental frame\_parser with its message assembly.

  The key that generate\_mask\_key draws from the system is a parameter (\<open>None\<close> when it throws
  because there is no entropy source).
\<close>

section \<open>Opcodes and close codes\<close>

datatype opcode = Op_continuation | Op_text | Op_binary | Op_close | Op_ping | Op_pong

fun opcode_byte :: "opcode \<Rightarrow> u8" where
  "opcode_byte Op_continuation = 0x0"
| "opcode_byte Op_text = 0x1"
| "opcode_byte Op_binary = 0x2"
| "opcode_byte Op_close = 0x8"
| "opcode_byte Op_ping = 0x9"
| "opcode_byte Op_pong = 0xA"

definition is_control_frame :: "opcode \<Rightarrow> bool" where
  "is_control_frame op \<longleftrightarrow> opcode_byte op \<ge> 0x8"

definition is_valid_opcode :: "u8 \<Rightarrow> bool" where
  "is_valid_opcode op \<longleftrightarrow> op \<le> 0x2 \<or> (op \<ge> 0x8 \<and> op \<le> 0xA)"

text \<open>The cast of a valid raw opcode to the enumeration.\<close>

definition opcode_cast :: "u8 \<Rightarrow> opcode" where
  "opcode_cast b =
     (if b = 0x0 then Op_continuation else if b = 0x1 then Op_text else if b = 0x2 then Op_binary
      else if b = 0x8 then Op_close else if b = 0x9 then Op_ping else Op_pong)"

type_synonym close_code = u16

definition cc_normal :: close_code where "cc_normal = 1000"
definition cc_protocol_error :: close_code where "cc_protocol_error = 1002"
definition cc_no_status :: close_code where "cc_no_status = 1005"
definition cc_invalid_data :: close_code where "cc_invalid_data = 1007"
definition cc_too_large :: close_code where "cc_too_large = 1009"

definition close_reason :: "close_code \<Rightarrow> string" where
  "close_reason code =
     (if code = 1000 then ''Normal closure''
      else if code = 1001 then ''Going away''
      else if code = 1002 then ''Protocol error''
      else if code = 1003 then ''Unsupported data''
      else if code = 1005 then ''No status received''
      else if code = 1006 then ''Abnormal closure''
      else if code = 1007 then ''Invalid data''
      else if code = 1008 then ''Policy violation''
      else if code = 1009 then ''Message too big''
      else if code = 1010 then ''Extension required''
      else if code = 1011 then ''Unexpected condition''
      else ''Unknown'')"

section \<open>Frame header\<close>

record ws_header =
  wh_fin :: bool
  wh_rsv1 :: bool
  wh_rsv2 :: bool
  wh_rsv3 :: bool
  wh_op :: opcode
  wh_masked :: bool
  wh_payload_len :: u64
  wh_mask_key :: bytes

definition default_ws_header :: ws_header where
  "default_ws_header =
     \<lparr>wh_fin = True, wh_rsv1 = False, wh_rsv2 = False, wh_rsv3 = False, wh_op = Op_text,
      wh_masked = False, wh_payload_len = 0, wh_mask_key = [0, 0, 0, 0]\<rparr>"

text \<open>
  A frame\_parse\_result that is not complete: more bytes are needed, or an error with its
  message. A complete one carries the header, the header size and the frame size.
\<close>

datatype hdr_stop = Hdr_Incomplete | Hdr_Error string

type_synonym hdr_result = "hdr_stop + ws_header \<times> nat \<times> size_t"

text \<open>The first byte, the payload length, and the whole header.\<close>

definition parse_first_byte :: "u8 \<Rightarrow> hdr_stop + ws_header" where
  "parse_first_byte b0 =
     (let h = default_ws_header\<lparr>wh_fin := b0 AND 0x80 \<noteq> 0, wh_rsv1 := b0 AND 0x40 \<noteq> 0,
                wh_rsv2 := b0 AND 0x20 \<noteq> 0, wh_rsv3 := b0 AND 0x10 \<noteq> 0\<rparr>;
          raw_opcode = b0 AND 0x0F
      in if \<not> is_valid_opcode raw_opcode then Inl (Hdr_Error ''Invalid opcode'')
         else
           let h' = h\<lparr>wh_op := opcode_cast raw_opcode\<rparr> in
           if wh_rsv1 h' \<or> wh_rsv2 h' \<or> wh_rsv3 h' then Inl (Hdr_Error ''Reserved bits must be 0'')
           else Inr h')"

text \<open>The two extended lengths, most significant byte first.\<close>

definition ext_len16 :: "bytes \<Rightarrow> u64" where
  "ext_len16 d = push_bit 8 (ucast (d ! 2)) OR ucast (d ! 3)"

definition ext_len64 :: "bytes \<Rightarrow> u64" where
  "ext_len64 d =
     push_bit 56 (ucast (d ! 2)) OR push_bit 48 (ucast (d ! 3)) OR
     push_bit 40 (ucast (d ! 4)) OR push_bit 32 (ucast (d ! 5)) OR
     push_bit 24 (ucast (d ! 6)) OR push_bit 16 (ucast (d ! 7)) OR
     push_bit 8 (ucast (d ! 8)) OR ucast (d ! 9)"

definition parse_payload_len :: "bytes \<Rightarrow> hdr_stop + u64 \<times> nat" where
  "parse_payload_len d =
     (let len7 = d ! 1 AND 0x7F in
      if len7 = 126 then
        if length d < 4 then Inl Hdr_Incomplete
        else
          let len = ext_len16 d in
          if len < 126 then Inl (Hdr_Error ''Non-minimal payload length encoding'')
          else Inr (len, 4)
      else if len7 = 127 then
        if length d < 10 then Inl Hdr_Incomplete
        else
          let len = ext_len64 d in
          if len AND 0x8000000000000000 \<noteq> 0 then Inl (Hdr_Error ''Invalid payload length'')
          else if len \<le> 65535 then Inl (Hdr_Error ''Non-minimal payload length encoding'')
          else Inr (len, 10)
      else Inr (ucast len7, 2))"

definition parse_mask_key :: "bytes \<Rightarrow> ws_header \<Rightarrow> nat \<Rightarrow> hdr_result" where
  "parse_mask_key d h header_size =
     (if wh_masked h then
        if length d < header_size + 4 then Inl Hdr_Incomplete
        else Inr (h\<lparr>wh_mask_key := take 4 (drop header_size d)\<rparr>, header_size + 4,
                  of_nat (header_size + 4) + wh_payload_len h)
      else Inr (h, header_size, of_nat header_size + wh_payload_len h))"

definition parse_frame_header :: "bytes \<Rightarrow> hdr_result" where
  "parse_frame_header d =
     (if length d < 1 then Inl Hdr_Incomplete
      else ebind (parse_first_byte (d ! 0)) (\<lambda>h.
        if length d < 2 then Inl Hdr_Incomplete
        else ebind (parse_payload_len d) (\<lambda>(len, header_size).
          let h' = h\<lparr>wh_masked := d ! 1 AND 0x80 \<noteq> 0, wh_payload_len := len\<rparr> in
          if is_control_frame (wh_op h') \<and> len > 125 then Inl (Hdr_Error ''Control frame payload too large'')
          else if is_control_frame (wh_op h') \<and> \<not> wh_fin h' then Inl (Hdr_Error ''Control frame cannot be fragmented'')
          else parse_mask_key d h' header_size)))"

section \<open>Masking and encoding\<close>

fun apply_mask :: "bytes \<Rightarrow> bytes \<Rightarrow> nat \<Rightarrow> bytes" where
  "apply_mask [] key offset = []"
| "apply_mask (b # bs) key offset = (b XOR key ! (offset mod 4)) # apply_mask bs key (Suc offset)"

datatype ws_fault = Invalid_Argument string | No_Entropy

text \<open>generate\_mask\_key with the outcome of the entropy source given.\<close>

definition generate_mask_key :: "bytes option \<Rightarrow> ws_fault + bytes" where
  "generate_mask_key gen = (case gen of None \<Rightarrow> Inl No_Entropy | Some k \<Rightarrow> Inr k)"

definition first_byte :: "ws_header \<Rightarrow> u8" where
  "first_byte h =
     (let b = opcode_byte (wh_op h);
          b = (if wh_fin h then b OR 0x80 else b);
          b = (if wh_rsv1 h then b OR 0x40 else b);
          b = (if wh_rsv2 h then b OR 0x20 else b)
      in if wh_rsv3 h then b OR 0x10 else b)"

definition length_bytes :: "bool \<Rightarrow> nat \<Rightarrow> bytes" where
  "length_bytes masked n =
     (let byte2 = (if masked then 0x80 else 0x00) in
      if n \<le> 125 then [byte2 OR of_nat n]
      else if n \<le> 65535 then [byte2 OR 126, ucast (drop_bit 8 (of_nat n :: size_t)), ucast (of_nat n :: size_t)]
      else (byte2 OR 127) # map (\<lambda>i. ucast (drop_bit (i * 8) (of_nat n :: size_t))) [7, 6, 5, 4, 3, 2, 1, 0])"

definition encode_frame :: "bytes option \<Rightarrow> ws_header \<Rightarrow> bytes \<Rightarrow> ws_fault + bytes" where
  "encode_frame gen h payload =
     (if is_control_frame (wh_op h) \<and> \<not> wh_fin h
      then Inl (Invalid_Argument ''websocket: control frame cannot be fragmented'')
      else if is_control_frame (wh_op h) \<and> length payload > 125
      then Inl (Invalid_Argument ''websocket: control frame payload too large'')
      else
        let head = first_byte h # length_bytes (wh_masked h) (length payload) in
        if wh_masked h then
          ebind (if wh_mask_key h = [0, 0, 0, 0] then generate_mask_key gen else Inr (wh_mask_key h)) (\<lambda>key.
            Inr (head @ key @ apply_mask payload key 0))
        else Inr (head @ payload))"

text \<open>
  The encoders of one kind of frame. With masking they draw a key (\<open>gen1\<close>); encode\_frame draws
  another one (\<open>gen2\<close>) when the first is all zero.
\<close>

definition encode_simple :: "opcode \<Rightarrow> bytes option \<Rightarrow> bytes option \<Rightarrow> bytes \<Rightarrow> bool \<Rightarrow> ws_fault + bytes" where
  "encode_simple op gen1 gen2 payload masked =
     (let h = default_ws_header\<lparr>wh_op := op, wh_fin := True, wh_masked := masked\<rparr> in
      if masked then ebind (generate_mask_key gen1) (\<lambda>k. encode_frame gen2 (h\<lparr>wh_mask_key := k\<rparr>) payload)
      else encode_frame gen2 h payload)"

definition encode_text_frame :: "bytes option \<Rightarrow> bytes option \<Rightarrow> bytes \<Rightarrow> bool \<Rightarrow> ws_fault + bytes" where
  "encode_text_frame = encode_simple Op_text"

definition encode_binary_frame :: "bytes option \<Rightarrow> bytes option \<Rightarrow> bytes \<Rightarrow> bool \<Rightarrow> ws_fault + bytes" where
  "encode_binary_frame = encode_simple Op_binary"

definition encode_ping_frame :: "bytes option \<Rightarrow> bytes option \<Rightarrow> bytes \<Rightarrow> bool \<Rightarrow> ws_fault + bytes" where
  "encode_ping_frame = encode_simple Op_ping"

definition encode_pong_frame :: "bytes option \<Rightarrow> bytes option \<Rightarrow> bytes \<Rightarrow> bool \<Rightarrow> ws_fault + bytes" where
  "encode_pong_frame = encode_simple Op_pong"

definition encode_close_frame ::
    "bytes option \<Rightarrow> bytes option \<Rightarrow> close_code \<Rightarrow> bytes \<Rightarrow> bool \<Rightarrow> ws_fault + bytes" where
  "encode_close_frame gen1 gen2 code reason masked =
     (let code' = (if code = 1005 \<or> code = 1006 \<or> code = 1015 then cc_protocol_error else code);
          payload = [ucast (drop_bit 8 code'), ucast code'] @ (if reason \<noteq> [] then reason else [])
      in encode_simple Op_close gen1 gen2 payload masked)"

section \<open>The frame parser\<close>

record ws_message =
  msg_type :: opcode
  msg_data :: bytes
  msg_complete :: bool

definition default_message :: ws_message where
  "default_message = \<lparr>msg_type = Op_text, msg_data = [], msg_complete = False\<rparr>"

datatype endpoint_role = Role_unspecified | Role_server | Role_client

datatype queued_frame_kind = Queued_message | Queued_control

record frame_parser =
  fp_buffer :: bytes
  fp_current :: ws_message
  fp_messages :: "ws_message list"
  fp_controls :: "(opcode \<times> bytes) list"
  fp_queued :: "queued_frame_kind list"
  fp_max :: size_t
  fp_has_error :: bool
  fp_has_initial :: bool
  fp_error_msg :: string
  fp_error_close :: close_code
  fp_role :: endpoint_role

definition default_max_message_size :: size_t where
  "default_max_message_size = 16 * 1024 * 1024"

definition frame_parser_ctor :: frame_parser where
  "frame_parser_ctor =
     \<lparr>fp_buffer = [], fp_current = default_message, fp_messages = [], fp_controls = [], fp_queued = [],
      fp_max = default_max_message_size, fp_has_error = False, fp_has_initial = False, fp_error_msg = [],
      fp_error_close = cc_protocol_error, fp_role = Role_unspecified\<rparr>"

definition set_max_message_size :: "size_t \<Rightarrow> frame_parser \<Rightarrow> frame_parser" where
  "set_max_message_size n p = p\<lparr>fp_max := n\<rparr>"

definition set_role :: "endpoint_role \<Rightarrow> frame_parser \<Rightarrow> frame_parser" where
  "set_role r p = p\<lparr>fp_role := r\<rparr>"

definition fp_reset :: "frame_parser \<Rightarrow> frame_parser" where
  "fp_reset p =
     p\<lparr>fp_buffer := [], fp_current := default_message, fp_messages := [], fp_controls := [], fp_queued := [],
       fp_has_error := False, fp_has_initial := False, fp_error_msg := [], fp_error_close := cc_protocol_error\<rparr>"

text \<open>The failing returns: the error flag, its message and the close code to answer with.\<close>

definition fp_fail :: "string \<Rightarrow> close_code \<Rightarrow> frame_parser \<Rightarrow> frame_parser" where
  "fp_fail msg code p = p\<lparr>fp_has_error := True, fp_error_msg := msg, fp_error_close := code\<rparr>"

text \<open>The checks between the complete header and the payload.\<close>

definition frame_checks :: "frame_parser \<Rightarrow> ws_header \<Rightarrow> (string \<times> close_code) option" where
  "frame_checks p h =
     (if fp_role p = Role_server \<and> \<not> wh_masked h
      then Some (''Unmasked frame received from client'', cc_protocol_error)
      else if fp_role p = Role_client \<and> wh_masked h
      then Some (''Masked frame received from server'', cc_protocol_error)
      else if is_control_frame (wh_op h) then None
      else if wh_op h = Op_continuation \<and> \<not> fp_has_initial p
      then Some (''Continuation frame without initial frame'', cc_protocol_error)
      else if wh_op h \<noteq> Op_continuation \<and> fp_has_initial p
      then Some (''New message started before previous completed'', cc_protocol_error)
      else
        let current_size = of_nat (length (msg_data (fp_current p))) in
        if fp_max p > 0 \<and> (current_size > fp_max p \<or> wh_payload_len h > fp_max p - current_size)
        then Some (''Message exceeds maximum size'', cc_too_large)
        else None)"

definition extract_payload :: "bytes \<Rightarrow> ws_header \<Rightarrow> nat \<Rightarrow> bytes" where
  "extract_payload d h header_size =
     (let payload = take (unat (wh_payload_len h)) (drop header_size d)
      in if wh_masked h then apply_mask payload (wh_mask_key h) 0 else payload)"

text \<open>A frame whose payload is there: \<open>Inl\<close> when a text message is no UTF-8.\<close>

definition accept_data :: "frame_parser \<Rightarrow> ws_header \<Rightarrow> bytes \<Rightarrow> frame_parser + frame_parser" where
  "accept_data p h payload =
     (let p1 = (if wh_op h \<noteq> Op_continuation
                then p\<lparr>fp_current := default_message\<lparr>msg_type := wh_op h\<rparr>, fp_has_initial := True\<rparr> else p);
          cur = (fp_current p1)\<lparr>msg_data := msg_data (fp_current p1) @ payload\<rparr>;
          p2 = p1\<lparr>fp_current := cur\<rparr>
      in if wh_fin h then
           if msg_type cur = Op_text \<and> \<not> is_valid_utf8 (msg_data cur)
           then Inl (fp_fail ''Text message contains invalid UTF-8'' cc_invalid_data p2)
           else Inr (p2\<lparr>fp_messages := fp_messages p2 @ [cur\<lparr>msg_complete := True\<rparr>],
                      fp_queued := fp_queued p2 @ [Queued_message],
                      fp_current := default_message, fp_has_initial := False\<rparr>)
         else Inr p2)"

definition accept_frame :: "frame_parser \<Rightarrow> ws_header \<Rightarrow> bytes \<Rightarrow> frame_parser + frame_parser" where
  "accept_frame p h payload =
     (if is_control_frame (wh_op h)
      then Inr (p\<lparr>fp_controls := fp_controls p @ [(wh_op h, payload)], fp_queued := fp_queued p @ [Queued_control]\<rparr>)
      else accept_data p h payload)"

text \<open>One iteration of process\_buffer: more bytes are needed, failure, or a frame of that size was taken.\<close>

datatype fp_step = Step_More | Step_Fail frame_parser | Step_Next frame_parser size_t

definition process_step :: "frame_parser \<Rightarrow> fp_step" where
  "process_step p =
     (case parse_frame_header (fp_buffer p) of
        Inl (Hdr_Error msg) \<Rightarrow> Step_Fail (fp_fail msg cc_protocol_error p)
      | Inl Hdr_Incomplete \<Rightarrow> Step_More
      | Inr (h, header_size, frame_size) \<Rightarrow>
          (case frame_checks p h of
             Some (msg, code) \<Rightarrow> Step_Fail (fp_fail msg code p)
           | None \<Rightarrow>
               if length (fp_buffer p) < unat frame_size then Step_More
               else case accept_frame p h (extract_payload (fp_buffer p) h header_size) of
                      Inl p' \<Rightarrow> Step_Fail p'
                    | Inr p' \<Rightarrow> Step_Next (p'\<lparr>fp_buffer := drop (unat frame_size) (fp_buffer p')\<rparr>) frame_size))"

section \<open>Sizes\<close>

lemma unat_no_top_bit:
  fixes w :: u64
  assumes "\<not> bit w 63"
  shows "unat w < 2 ^ 63"
proof -
  have "bit w i \<longleftrightarrow> i < 63 \<and> bit w i" for i
    using assms bit_imp_le_length [of w i] by (cases "i = 63") (auto intro: ccontr)
  then have "w = take_bit 63 w" by (simp add: bit_eq_iff bit_take_bit_iff)
  then have "unat w = take_bit 63 (unat w)" by (metis unsigned_take_bit_eq)
  then show ?thesis by (metis take_bit_nat_less_exp)
qed

lemma top_bit_clear:
  fixes w :: u64
  assumes "w AND 0x8000000000000000 = 0"
  shows "unat w < 2 ^ 63"
proof -
  have "w AND 2 ^ 63 = 0" using assms by simp
  then have "\<not> bit w 63" by (simp only: and_exp_eq_0_iff_not_bit not_False_eq_True)
  then show ?thesis by (rule unat_no_top_bit)
qed

lemma unat_ucast_u8: "unat (ucast (b :: u8) :: u64) = unat b"
  by (simp add: unsigned_ucast_eq take_bit_nat_eq_self less_trans [OF unat_u8_less])

lemma parse_payload_len_Inr:
  assumes "parse_payload_len d = Inr (len, hs)"
  shows "(hs = 2 \<or> hs = 4 \<or> hs = 10) \<and> (2 \<le> length d \<longrightarrow> hs \<le> length d) \<and> unat len < 2 ^ 63"
proof -
  have s: "unat (ext_len16 d) < 2 ^ 63"
    unfolding ext_len16_def by (rule unat_no_top_bit) (auto simp: bit_simps dest: bit_imp_le_length)
  have t: "unat (ucast (a :: u8) :: u64) < 2 ^ 63" for a
    using unat_u8_less [of a] by (simp add: unat_ucast_u8)
  show ?thesis
    using assms s t by (auto simp: parse_payload_len_def Let_def dest!: top_bit_clear split: if_splits)
qed

lemma parse_mask_key_Inr:
  assumes "parse_mask_key d h hs = Inr (h', hs', fs)" "hs \<le> length d" "hs \<le> 10" "unat (wh_payload_len h) < 2 ^ 63"
  shows "hs \<le> hs' \<and> hs' \<le> length d \<and> hs' \<le> 14 \<and> wh_payload_len h' = wh_payload_len h \<and>
    unat fs = hs' + unat (wh_payload_len h)"
proof -
  have "unat (of_nat n + wh_payload_len h :: size_t) = n + unat (wh_payload_len h)" if "n \<le> 14" for n
    using that assms(4) by (subst unat_add_small) (simp_all add: unat_of_nat)
  with assms show ?thesis by (auto simp: parse_mask_key_def simp del: of_nat_add split: if_splits)
qed

lemma parse_frame_header_Inr:
  assumes "parse_frame_header d = Inr (h, hs, fs)"
  shows "2 \<le> hs \<and> hs \<le> length d \<and> hs \<le> 14 \<and> unat fs = hs + unat (wh_payload_len h)"
proof -
  from assms obtain h0 len hs0 where p: "2 \<le> length d" "parse_payload_len d = Inr (len, hs0)"
      "parse_mask_key d (h0\<lparr>wh_masked := d ! 1 AND 0x80 \<noteq> 0, wh_payload_len := len\<rparr>) hs0 = Inr (h, hs, fs)"
    by (auto simp: parse_frame_header_def Let_def ebind_Inr_iff split: if_splits)
  from parse_payload_len_Inr [OF p(2)] p(1) parse_mask_key_Inr [OF p(3)] show ?thesis by auto
qed

section \<open>The loop\<close>

lemma process_step_Next:
  assumes "process_step p = Step_Next p' n"
  shows "2 \<le> unat n \<and> unat n \<le> length (fp_buffer p) \<and> fp_buffer p' = drop (unat n) (fp_buffer p)"
proof -
  from assms obtain h hs where h: "parse_frame_header (fp_buffer p) = Inr (h, hs, n)"
      "\<not> length (fp_buffer p) < unat n"
    by (auto simp: process_step_def split: sum.splits hdr_stop.splits option.splits if_splits)
  have b: "accept_frame p h x = Inr q \<Longrightarrow> fp_buffer q = fp_buffer p" for x q
    by (auto simp: accept_frame_def accept_data_def Let_def split: if_splits)
  from assms h have "fp_buffer p' = drop (unat n) (fp_buffer p)"
    by (auto simp: process_step_def b split: sum.splits hdr_stop.splits option.splits if_splits)
  with parse_frame_header_Inr [OF h(1)] h(2) show ?thesis by simp
qed

text \<open>process\_buffer; \<open>consumed\<close> is total\_consumed, -1 the error return.\<close>

function process_buffer :: "nat \<Rightarrow> frame_parser \<Rightarrow> int \<times> frame_parser" where
  "process_buffer consumed p =
     (if fp_buffer p = [] then (int consumed, p)
      else case process_step p of
             Step_More \<Rightarrow> (int consumed, p)
           | Step_Fail p' \<Rightarrow> (- 1, p')
           | Step_Next p' n \<Rightarrow> process_buffer (consumed + unat n) p')"
  by pat_completeness auto
termination
  by (relation "measure (\<lambda>(consumed, p). length (fp_buffer p))") (auto dest!: process_step_Next)

declare process_buffer.simps [simp del]

definition fp_parse :: "bytes \<Rightarrow> frame_parser \<Rightarrow> int \<times> frame_parser" where
  "fp_parse d p =
     (if d = [] then (0, p) else process_buffer 0 (p\<lparr>fp_buffer := fp_buffer p @ d\<rparr>))"

section \<open>The queues\<close>

definition has_message :: "frame_parser \<Rightarrow> bool" where
  "has_message p \<longleftrightarrow> fp_messages p \<noteq> []"

definition has_control_frame :: "frame_parser \<Rightarrow> bool" where
  "has_control_frame p \<longleftrightarrow> fp_controls p \<noteq> []"

fun remove_first_queued_kind :: "queued_frame_kind \<Rightarrow> queued_frame_kind list \<Rightarrow> queued_frame_kind list" where
  "remove_first_queued_kind k [] = []"
| "remove_first_queued_kind k (q # qs) = (if q = k then qs else q # remove_first_queued_kind k qs)"

definition get_message :: "frame_parser \<Rightarrow> ws_message option \<times> frame_parser" where
  "get_message p =
     (case fp_messages p of
        [] \<Rightarrow> (None, p)
      | m # ms \<Rightarrow> (Some m, p\<lparr>fp_messages := ms, fp_queued := remove_first_queued_kind Queued_message (fp_queued p)\<rparr>))"

definition get_control_frame :: "frame_parser \<Rightarrow> (opcode \<times> bytes) option \<times> frame_parser" where
  "get_control_frame p =
     (case fp_controls p of
        [] \<Rightarrow> (None, p)
      | c # cs \<Rightarrow> (Some c, p\<lparr>fp_controls := cs, fp_queued := remove_first_queued_kind Queued_control (fp_queued p)\<rparr>))"

definition next_frame_is_message :: "frame_parser \<Rightarrow> bool" where
  "next_frame_is_message p \<longleftrightarrow> fp_queued p \<noteq> [] \<and> hd (fp_queued p) = Queued_message"

definition next_frame_is_control_frame :: "frame_parser \<Rightarrow> bool" where
  "next_frame_is_control_frame p \<longleftrightarrow> fp_queued p \<noteq> [] \<and> hd (fp_queued p) = Queued_control"

definition get_next_message :: "frame_parser \<Rightarrow> ws_message option \<times> frame_parser" where
  "get_next_message p =
     (if \<not> next_frame_is_message p \<or> fp_messages p = [] then (None, p)
      else (Some (hd (fp_messages p)), p\<lparr>fp_queued := tl (fp_queued p), fp_messages := tl (fp_messages p)\<rparr>))"

definition get_next_control_frame :: "frame_parser \<Rightarrow> (opcode \<times> bytes) option \<times> frame_parser" where
  "get_next_control_frame p =
     (if \<not> next_frame_is_control_frame p \<or> fp_controls p = [] then (None, p)
      else (Some (hd (fp_controls p)), p\<lparr>fp_queued := tl (fp_queued p), fp_controls := tl (fp_controls p)\<rparr>))"

section \<open>Close payloads\<close>

definition is_valid_close_code :: "u16 \<Rightarrow> bool" where
  "is_valid_close_code code \<longleftrightarrow>
     (code \<ge> 1000 \<and> code \<le> 1003) \<or> (code \<ge> 1007 \<and> code \<le> 1014) \<or> (code \<ge> 3000 \<and> code \<le> 4999)"

definition parse_close_payload :: "bytes \<Rightarrow> close_code \<times> bytes" where
  "parse_close_payload payload =
     (if payload = [] then (cc_no_status, [])
      else if length payload = 1 then (cc_protocol_error, [])
      else
        let code = push_bit 8 (ucast (payload ! 0)) OR ucast (payload ! 1) in
        if \<not> is_valid_close_code code then (cc_protocol_error, [])
        else if length payload > 2 then
          let reason = drop 2 payload in
          if \<not> is_valid_utf8 reason then (cc_protocol_error, []) else (code, reason)
        else (code, []))"

end
