(* ===== verification/Websocket_Parser.thy ===== *)
theory Websocket_Parser
  imports Websocket_Frame
begin

text \<open>
  Properties of the WebSocket frame parser: it does not matter how the network cuts the byte
  stream; what one endpoint encodes the other delivers; and an invariant of the queues and
  of the message under assembly for arbitrary input.
\<close>

section \<open>More input does not change what was decided\<close>

lemma parse_payload_len_append:
  assumes "parse_payload_len d \<noteq> Inl Hdr_Incomplete" "2 \<le> length d"
  shows "parse_payload_len (d @ e) = parse_payload_len d"
proof -
  have n: "(d @ e) ! 1 = d ! 1" using assms(2) by (simp add: nth_append)
  have a: "ext_len16 (d @ e) = ext_len16 d" if "4 \<le> length d" using that by (simp add: ext_len16_def nth_append)
  have b: "ext_len64 (d @ e) = ext_len64 d" if "10 \<le> length d" using that by (simp add: ext_len64_def nth_append)
  show ?thesis using assms a b unfolding parse_payload_len_def n Let_def by (auto split: if_splits)
qed

lemma parse_mask_key_append:
  assumes "parse_mask_key d h hs \<noteq> Inl Hdr_Incomplete"
  shows "parse_mask_key (d @ e) h hs = parse_mask_key d h hs"
  using assms by (auto simp: parse_mask_key_def split: if_splits)

lemma parse_frame_header_append:
  assumes "parse_frame_header d \<noteq> Inl Hdr_Incomplete"
  shows "parse_frame_header (d @ e) = parse_frame_header d"
proof (cases "parse_first_byte (d ! 0)")
  case (Inl s)
  from assms have "\<not> length d < 1" by (auto simp: parse_frame_header_def)
  with Inl show ?thesis by (simp add: parse_frame_header_def nth_append)
next
  case (Inr h)
  from assms have l1: "d \<noteq> []" by (auto simp: parse_frame_header_def)
  with assms Inr have "\<not> length d < 2" by (simp add: parse_frame_header_def split: if_splits)
  with l1 have l: "\<not> length d < 1" "\<not> length d < 2" by simp_all
  have n: "(d @ e) ! 0 = d ! 0" "(d @ e) ! 1 = d ! 1" using l by (simp_all add: nth_append)
  from assms Inr l have "parse_payload_len d \<noteq> Inl Hdr_Incomplete" by (auto simp: parse_frame_header_def)
  then have p: "parse_payload_len (d @ e) = parse_payload_len d" using parse_payload_len_append l by simp
  show ?thesis
  proof (cases "parse_payload_len d")
    case (Inl s)
    with Inr l p n show ?thesis by (simp add: parse_frame_header_def)
  next
    case ll: (Inr lh)
    obtain len hs where lh: "lh = (len, hs)" by (cases lh)
    show ?thesis
      using assms Inr l p n ll parse_mask_key_append
      by (auto simp: parse_frame_header_def Let_def lh)
  qed
qed

text \<open>The checks and the delivery do not read the buffer.\<close>

lemma frame_checks_buffer [simp]: "frame_checks (p\<lparr>fp_buffer := d\<rparr>) h = frame_checks p h"
  by (simp add: frame_checks_def)

lemma extract_payload_append:
  "hs + unat (wh_payload_len h) \<le> length d \<Longrightarrow> extract_payload (d @ e) h hs = extract_payload d h hs"
  by (simp add: extract_payload_def)

text \<open>One iteration of the loop with more bytes behind the buffer.\<close>

definition more :: "bytes \<Rightarrow> frame_parser \<Rightarrow> frame_parser" where
  "more e p = p\<lparr>fp_buffer := fp_buffer p @ e\<rparr>"

fun step_more :: "bytes \<Rightarrow> fp_step \<Rightarrow> fp_step" where
  "step_more e Step_More = Step_More"
| "step_more e (Step_Fail p) = Step_Fail (more e p)"
| "step_more e (Step_Next p n) = Step_Next (more e p) n"

lemma accept_frame_more:
  "accept_frame (more e p) h x = map_sum (more e) (more e) (accept_frame p h x)"
  by (auto simp: accept_frame_def accept_data_def fp_fail_def more_def Let_def)

lemma accept_frame_keeps_buffer:
  "accept_frame p h x = Inl q \<Longrightarrow> fp_buffer q = fp_buffer p"
  "accept_frame p h x = Inr q \<Longrightarrow> fp_buffer q = fp_buffer p"
  by (auto simp: accept_frame_def accept_data_def fp_fail_def Let_def split: if_splits)

lemma process_step_more:
  assumes "process_step p \<noteq> Step_More"
  shows "process_step (more e p) = step_more e (process_step p)"
proof -
  let ?d = "fp_buffer p"
  from assms have h: "parse_frame_header ?d \<noteq> Inl Hdr_Incomplete"
    by (auto simp: process_step_def)
  have h': "parse_frame_header (?d @ e) = parse_frame_header ?d" by (rule parse_frame_header_append [OF h])
  show ?thesis
  proof (cases "parse_frame_header ?d")
    case (Inl s)
    with h h' show ?thesis by (cases s) (simp_all add: process_step_def more_def fp_fail_def)
  next
    case (Inr r)
    obtain hd hs fs where r: "r = (hd, hs, fs)" by (cases r)
    have fs: "unat fs = hs + unat (wh_payload_len hd)" using parse_frame_header_Inr Inr r by blast
    show ?thesis
    proof (cases "frame_checks p hd")
      case (Some a)
      with Inr r h' show ?thesis by (simp add: process_step_def more_def fp_fail_def split: prod.splits)
    next
      case None
      with assms Inr r have l: "\<not> length ?d < unat fs" by (auto simp: process_step_def)
      then have x: "extract_payload (?d @ e) hd hs = extract_payload ?d hd hs"
        using fs by (intro extract_payload_append) simp
      show ?thesis
      proof (cases "accept_frame p hd (extract_payload ?d hd hs)")
        case (Inl q)
        then show ?thesis
          using None Inr r h' l x accept_frame_more [of e p hd]
          by (simp add: process_step_def more_def)
      next
        case q: (Inr q)
        then show ?thesis
          using None Inr r h' l x accept_frame_more [of e p hd] accept_frame_keeps_buffer(2) [OF q]
          by (simp add: process_step_def more_def)
      qed
    qed
  qed
qed

text \<open>How one iteration continues.\<close>

lemma process_buffer_cases:
  "fp_buffer p = [] \<or> process_step p = Step_More \<Longrightarrow> process_buffer k p = (int k, p)"
  "fp_buffer p \<noteq> [] \<Longrightarrow> process_step p = Step_Fail q \<Longrightarrow> process_buffer k p = (- 1, q)"
  "fp_buffer p \<noteq> [] \<Longrightarrow> process_step p = Step_Next q n \<Longrightarrow> process_buffer k p = process_buffer (k + unat n) q"
  by (auto simp: process_buffer.simps [of k p])

lemma process_buffer_induct [case_names stop fail taken]:
  assumes "\<And>k p. fp_buffer p = [] \<or> process_step p = Step_More \<Longrightarrow> P k p"
    and "\<And>k p q. fp_buffer p \<noteq> [] \<Longrightarrow> process_step p = Step_Fail q \<Longrightarrow> P k p"
    and "\<And>k p q n. fp_buffer p \<noteq> [] \<Longrightarrow> process_step p = Step_Next q n \<Longrightarrow> P (k + unat n) q \<Longrightarrow> P k p"
  shows "P k p"
proof (induction k p rule: process_buffer.induct)
  case (1 k p)
  show ?case
  proof (cases "fp_buffer p = []")
    case True
    then show ?thesis using assms(1) by blast
  next
    case False
    then show ?thesis using assms 1 by (cases "process_step p") auto
  qed
qed

lemma process_buffer_more:
  "process_buffer k (more e p) =
     (let (n, q) = process_buffer k p in
      if n < 0 then (n, more e q) else process_buffer (nat n) (more e q))"
proof (induction k p rule: process_buffer_induct)
  case (stop k p)
  then show ?case by (simp add: process_buffer_cases(1))
next
  case (fail k p q)
  then have "fp_buffer (more e p) \<noteq> []" "process_step (more e p) = Step_Fail (more e q)"
    by (simp_all add: more_def [of e p] process_step_more [of p e, unfolded more_def [of e p]])
  with fail show ?case by (simp add: process_buffer_cases(2))
next
  case (taken k p q n)
  then have "fp_buffer (more e p) \<noteq> []" "process_step (more e p) = Step_Next (more e q) n"
    by (simp_all add: more_def [of e p] process_step_more [of p e, unfolded more_def [of e p]])
  with taken show ?case by (simp add: process_buffer_cases(3))
qed

text \<open>The start value of the consumed count only adds to the result.\<close>

lemma process_buffer_add:
  "process_buffer (j + k) p = (let (n, q) = process_buffer k p in if n < 0 then (n, q) else (int j + n, q))"
proof (induction k p rule: process_buffer_induct)
  case (stop k p)
  then show ?case by (simp add: process_buffer_cases(1))
next
  case (fail k p q)
  then show ?case by (simp add: process_buffer_cases(2))
next
  case (taken k p q n)
  then show ?case by (simp add: process_buffer_cases(3) add.assoc)
qed

lemma process_buffer_result: "fst (process_buffer k p) = - 1 \<or> int k \<le> fst (process_buffer k p)"
proof (induction k p rule: process_buffer_induct)
  case (stop k p)
  then show ?case by (simp add: process_buffer_cases(1))
next
  case (fail k p q)
  then show ?case by (simp add: process_buffer_cases(2))
next
  case (taken k p q n)
  have "int k \<le> int (k + unat n)" by simp
  with taken show ?case unfolding process_buffer_cases(3) [OF taken(1,2)] by linarith
qed

text \<open>Two calls of parse and one call on the concatenation.\<close>

lemma fp_parse_result:
  assumes "fp_parse a p = (n, q)" "n < 0"
  shows "n = - 1"
  using assms process_buffer_result [of 0 "p\<lparr>fp_buffer := fp_buffer p @ a\<rparr>"]
  by (auto simp: fp_parse_def split: if_splits)

lemma more_Nil [simp]: "more [] p = p"
  by (simp add: more_def)

lemma fp_parse_append:
  assumes n: "fp_parse a p = (n, q)"
  shows "fp_parse (a @ b) p =
    (if n < 0 then (- 1, more b q)
     else let (m, r) = fp_parse b q in if m < 0 then (- 1, r) else (n + m, r))"
proof -
  consider "a = []" | "b = []" | "a \<noteq> []" "b \<noteq> []" by blast
  then show ?thesis
  proof cases
    case 1
    then have q: "n = 0" "q = p" using n by (simp_all add: fp_parse_def)
    obtain m r where m: "fp_parse b p = (m, r)" by (cases "fp_parse b p")
    show ?thesis using fp_parse_result [OF m] by (simp add: 1 q m)
  next
    case 2
    show ?thesis using fp_parse_result [OF n] n by (simp add: 2 fp_parse_def [of "[]"])
  next
    case 3
    let ?pa = "p\<lparr>fp_buffer := fp_buffer p @ a\<rparr>"
    have pa: "process_buffer 0 ?pa = (n, q)" using n 3 by (simp add: fp_parse_def)
    have m: "p\<lparr>fp_buffer := fp_buffer p @ a @ b\<rparr> = more b ?pa" by (simp add: more_def)
    have whole: "fp_parse (a @ b) p = (if n < 0 then (n, more b q) else process_buffer (nat n) (more b q))"
      unfolding fp_parse_def m using 3 pa by (simp add: process_buffer_more)
    show ?thesis
    proof (cases "n < 0")
      case True
      then show ?thesis using whole fp_parse_result [OF n] by simp
    next
      case False
      obtain k r where k: "fp_parse b q = (k, r)" by (cases "fp_parse b q")
      then have "process_buffer 0 (more b q) = (k, r)" using 3 by (simp add: fp_parse_def more_def)
      then show ?thesis
        using whole False k fp_parse_result [OF k] process_buffer_add [of "nat n" 0 "more b q"] by simp
    qed
  qed
qed

text \<open>Feeding chunks until an error is reported.\<close>

fun fp_feed :: "bytes list \<Rightarrow> frame_parser \<Rightarrow> int \<times> frame_parser" where
  "fp_feed [] p = (0, p)"
| "fp_feed (c # cs) p =
     (let (n, q) = fp_parse c p in
      if n < 0 then (- 1, q)
      else let (m, r) = fp_feed cs q in if m < 0 then (- 1, r) else (n + m, r))"

lemma fp_feed_nonneg: "fst (fp_feed cs p) < 0 \<Longrightarrow> fst (fp_feed cs p) = - 1"
  by (cases cs) (auto simp: Let_def case_prod_beta split: if_splits)

lemma fp_feed_concat:
  "\<exists>e. fst (fp_parse (concat cs) p) = fst (fp_feed cs p) \<and> snd (fp_parse (concat cs) p) = more e (snd (fp_feed cs p)) \<and>
     (fst (fp_feed cs p) \<ge> 0 \<longrightarrow> e = [])"
proof (induction cs arbitrary: p)
  case Nil
  show ?case by (intro exI [of _ "[]"]) (simp add: fp_parse_def more_def)
next
  case (Cons c cs)
  obtain n q where n: "fp_parse c p = (n, q)" by (cases "fp_parse c p")
  show ?case
  proof (cases "n < 0")
    case True
    then show ?thesis by (intro exI [of _ "concat cs"]) (simp add: n fp_parse_append [OF n])
  next
    case False
    obtain m r where m: "fp_feed cs q = (m, r)" by (cases "fp_feed cs q")
    obtain e where e: "fst (fp_parse (concat cs) q) = m" "snd (fp_parse (concat cs) q) = more e r" "m \<ge> 0 \<longrightarrow> e = []"
      using Cons.IH [of q] m by auto
    then have "fp_parse (concat cs) q = (m, more e r)" by (metis prod.collapse)
    with False n m e(3) show ?thesis by (intro exI [of _ e]) (simp add: fp_parse_append [OF n])
  qed
qed

text \<open>
  C26: the parser does not depend on how the network cuts the stream. Feeding any chunks one after the other, until an
  error is reported, returns the same consumed count or error as one call on the concatenation, and leaves the
  same messages, control frames, order, assembly state and error; without an error the buffers agree too.
\<close>

theorem ws_chunking_independent:
  "fst (fp_feed cs p) = fst (fp_parse (concat cs) p) \<and>
   (snd (fp_feed cs p))\<lparr>fp_buffer := []\<rparr> = (snd (fp_parse (concat cs) p))\<lparr>fp_buffer := []\<rparr> \<and>
   (fst (fp_feed cs p) < 0 \<or> snd (fp_feed cs p) = snd (fp_parse (concat cs) p))"
  using fp_feed_concat [of cs p] by (auto simp: more_def)

section \<open>Encoded frames are parsed back\<close>

lemma parse_first_byte_encoded:
  assumes "\<not> wh_rsv1 h" "\<not> wh_rsv2 h" "\<not> wh_rsv3 h"
  shows "parse_first_byte (first_byte h) = Inr (default_ws_header\<lparr>wh_fin := wh_fin h, wh_op := wh_op h\<rparr>)"
  using assms
  by (cases "wh_fin h"; cases "wh_op h")
     (simp_all add: first_byte_def parse_first_byte_def Let_def is_valid_opcode_def opcode_cast_def default_ws_header_def)

lemma and_7F: "(b :: u8) AND 0x7F = take_bit 7 b"
  by (simp add: take_bit_eq_mask mask_eq_exp_minus_1)

lemma and_80: "(b :: u8) AND 0x80 \<noteq> 0 \<longleftrightarrow> bit b 7"
proof -
  have "(b AND 2 ^ 7 = 0) = (\<not> bit b 7)" by (rule and_exp_eq_0_iff_not_bit)
  then show ?thesis by simp
qed

lemma small_byte:
  assumes "n \<le> 127"
  shows "take_bit 7 (of_nat n :: u8) = of_nat n" "\<not> bit (of_nat n :: u8) 7"
proof -
  have "take_bit 7 (of_nat n :: u8) = of_nat (take_bit 7 n)" by (simp add: take_bit_of_nat)
  then show t: "take_bit 7 (of_nat n :: u8) = of_nat n" using assms by (simp add: take_bit_nat_eq_self)
  show "\<not> bit (of_nat n :: u8) 7"
    by (subst t [symmetric]) (simp add: bit_take_bit_iff)
qed

lemma be_bytes_u64: "map (\<lambda>i. ucast (drop_bit (i * 8) w)) [7, 6, 5, 4, 3, 2, 1, 0] = be_bytes (w :: u64)"
  by (simp add: be_bytes_def le_bytes_def upt_rec mult.commute)

lemma ext_len64_be: "length bs = 8 \<Longrightarrow> ext_len64 (a # b # bs @ r) = be_word bs"
proof -
  assume "length bs = 8"
  then obtain b0 b1 b2 b3 b4 b5 b6 b7 where "bs = [b0, b1, b2, b3, b4, b5, b6, b7]"
    by (auto simp: length_Suc_conv numeral_eq_Suc)
  then show ?thesis
    by (simp add: ext_len64_def be_word_def push_bit_or or.assoc or.commute or.left_commute del: push_bit_numeral)
qed

lemma small_take_bit:
  fixes w :: u64
  assumes "unat w < 2 ^ k"
  shows "w = take_bit k w"
proof -
  have "unat (take_bit k w) = take_bit k (unat w)" by (rule unsigned_take_bit_eq)
  also have "\<dots> = unat w" using assms by (rule take_bit_nat_eq_self)
  finally show ?thesis by (simp add: word_unat_eq_iff)
qed

lemma ext_len16_be:
  assumes "unat (w :: u64) \<le> 65535"
  shows "ext_len16 (a # b # ucast (drop_bit 8 w) # ucast w # r) = w"
proof -
  have "unat w < 2 ^ 16" using assms by simp
  then have "w = take_bit 16 w" by (rule small_take_bit)
  then have b: "bit w i \<Longrightarrow> i < 16" for i by (metis bit_take_bit_iff)
  show ?thesis
    unfolding ext_len16_def by (intro bit_word_eqI) (auto simp: bit_simps dest: b)
qed

lemma length_bytes_parsed:
  assumes "n < 2 ^ 63"
  shows "parse_payload_len (a # length_bytes m n @ r) = Inr (of_nat n, Suc (length (length_bytes m n)))"
    and "hd (length_bytes m n) AND 0x80 \<noteq> 0 \<longleftrightarrow> m"
proof -
  let ?w = "of_nat n :: u64"
  have w: "unat ?w = n" using assms by (simp add: unat_of_nat)
  consider "n \<le> 125" | "125 < n" "n \<le> 65535" | "65535 < n" by linarith
  then have "parse_payload_len (a # length_bytes m n @ r) = Inr (of_nat n, Suc (length (length_bytes m n))) \<and>
      (hd (length_bytes m n) AND 0x80 \<noteq> 0 \<longleftrightarrow> m)"
  proof cases
    case 1
    let ?b = "(if m then 0x80 else 0) OR of_nat n :: u8"
    have t: "take_bit 7 ?b = of_nat n" using 1 by (simp add: small_byte)
    have u: "unat (of_nat n :: u8) = n" using 1 by (simp add: unat_byte)
    then have "of_nat n \<noteq> (126 :: u8)" "of_nat n \<noteq> (127 :: u8)" using 1 by (auto simp: word_unat_eq_iff)
    moreover have "ucast (of_nat n :: u8) = ?w"
      using u w by (simp add: word_unat_eq_iff unat_ucast_u8)
    moreover have "bit ?b 7 \<longleftrightarrow> m" using small_byte [of n] 1 by (auto simp: bit_or_iff)
    ultimately show ?thesis using 1 t by (simp add: length_bytes_def parse_payload_len_def and_7F and_80 Let_def)
  next
    case 2
    have "ext_len16 (a # b # ucast (drop_bit 8 ?w) # ucast ?w # r) = ?w" for b
      by (rule ext_len16_be) (simp add: w 2)
    moreover have "\<not> ?w < 126" using 2 w by (simp add: word_less_nat_alt)
    ultimately show ?thesis using 2 by (simp add: length_bytes_def parse_payload_len_def Let_def)
  next
    case 3
    have "ext_len64 (a # b # be_bytes ?w @ r) = ?w" for b
      by (simp add: ext_len64_be be_word_be_bytes)
    moreover have "\<not> ?w \<le> 65535" using 3 w by (simp add: word_le_nat_alt)
    moreover have "?w AND 0x8000000000000000 = 0"
    proof -
      have "?w = take_bit 63 ?w" using assms w by (intro small_take_bit) simp
      then have "\<not> bit ?w 63" by (metis bit_take_bit_iff less_irrefl)
      then have "?w AND 2 ^ 63 = 0" by (simp only: and_exp_eq_0_iff_not_bit not_False_eq_True)
      then show ?thesis by simp
    qed
    ultimately show ?thesis using 3 unfolding length_bytes_def be_bytes_u64
      by (simp add: parse_payload_len_def Let_def)
  qed
  then show "parse_payload_len (a # length_bytes m n @ r) = Inr (of_nat n, Suc (length (length_bytes m n)))"
    and "hd (length_bytes m n) AND 0x80 \<noteq> 0 \<longleftrightarrow> m" by blast+
qed

lemma length_apply_mask [simp]: "length (apply_mask d k i) = length d"
  by (induction d k i rule: apply_mask.induct) simp_all

lemma apply_mask_twice [simp]: "apply_mask (apply_mask d k i) k i = d"
  by (induction d k i rule: apply_mask.induct) (simp_all add: xor.assoc)

text \<open>What the peer sees of a header it can receive.\<close>

definition wire_header :: "ws_header \<Rightarrow> bytes \<Rightarrow> bytes \<Rightarrow> ws_header" where
  "wire_header h key payload =
     default_ws_header\<lparr>wh_fin := wh_fin h, wh_op := wh_op h, wh_masked := wh_masked h,
       wh_payload_len := of_nat (length payload), wh_mask_key := (if wh_masked h then key else [0, 0, 0, 0])\<rparr>"

definition sendable :: "bytes option \<Rightarrow> ws_header \<Rightarrow> bytes \<Rightarrow> bool" where
  "sendable gen h payload \<longleftrightarrow>
     \<not> wh_rsv1 h \<and> \<not> wh_rsv2 h \<and> \<not> wh_rsv3 h \<and> length (wh_mask_key h) = 4 \<and>
     (case gen of None \<Rightarrow> True | Some k \<Rightarrow> length k = 4) \<and> length payload < 2 ^ 63"

lemma encoded_form:
  assumes "encode_frame gen h payload = Inr bs" "sendable gen h payload"
  shows "\<exists>key. length key = 4 \<and> (is_control_frame (wh_op h) \<longrightarrow> wh_fin h \<and> length payload \<le> 125) \<and>
    bs = first_byte h # length_bytes (wh_masked h) (length payload) @
      (if wh_masked h then key @ apply_mask payload key 0 else payload)"
proof -
  have g: "generate_mask_key gen = Inr k \<Longrightarrow> length k = 4" for k
    using assms(2) by (auto simp: generate_mask_key_def sendable_def split: option.splits)
  show ?thesis
    using assms g
    by (cases "wh_masked h")
       (auto simp: encode_frame_def sendable_def Let_def ebind_Inr_iff split: if_splits intro: exI [of _ "[0, 0, 0, 0]"])
qed

lemma length_bytes_Cons: "\<exists>b bs. length_bytes m n = b # bs"
  by (simp add: length_bytes_def Let_def)

lemma control_len:
  assumes "length payload \<le> 125"
  shows "\<not> (125 :: u64) < of_nat (length payload)"
  using assms by (simp add: word_less_nat_alt unat_of_nat)

lemma encoded_frame_parsed:
  assumes enc: "encode_frame gen h payload = Inr bs" and s: "sendable gen h payload"
  shows "\<exists>key hs fs. parse_frame_header (bs @ r) = Inr (wire_header h key payload, hs, fs) \<and>
    unat fs = length bs \<and> extract_payload (bs @ r) (wire_header h key payload) hs = payload"
proof -
  obtain key where key: "length key = 4" "is_control_frame (wh_op h) \<longrightarrow> wh_fin h \<and> length payload \<le> 125"
      and bs: "bs = first_byte h # length_bytes (wh_masked h) (length payload) @
        (if wh_masked h then key @ apply_mask payload key 0 else payload)"
    using encoded_form [OF enc s] by blast
  let ?L = "length_bytes (wh_masked h) (length payload)" and ?rest = "if wh_masked h then key @ apply_mask payload key 0 else payload"
  have n: "length payload < 2 ^ 63" using s by (simp add: sendable_def)
  have pl: "unat (of_nat (length payload) :: u64) = length payload" using n by (simp add: unat_of_nat)
  have d: "bs @ r = first_byte h # ?L @ (?rest @ r)" by (simp add: bs)
  obtain b L' where L: "?L = b # L'" using length_bytes_Cons by blast
  have d1: "(bs @ r) ! 0 = first_byte h" "(bs @ r) ! 1 = b" "\<not> length (bs @ r) < 2" by (simp_all add: d L)
  have m: "b AND 0x80 \<noteq> 0 \<longleftrightarrow> wh_masked h" using length_bytes_parsed(2) [OF n, of "wh_masked h"] L by simp
  have fb: "parse_first_byte (first_byte h) = Inr (default_ws_header\<lparr>wh_fin := wh_fin h, wh_op := wh_op h\<rparr>)"
    using s by (intro parse_first_byte_encoded) (auto simp: sendable_def)
  have len: "parse_payload_len (bs @ r) = Inr (of_nat (length payload), Suc (length ?L))"
    unfolding d by (rule length_bytes_parsed(1) [OF n])
  let ?h0 = "default_ws_header\<lparr>wh_fin := wh_fin h, wh_op := wh_op h, wh_masked := wh_masked h, wh_payload_len := of_nat (length payload)\<rparr>"
  have ph: "parse_frame_header (bs @ r) = parse_mask_key (bs @ r) ?h0 (Suc (length ?L))"
    using d1 m fb len key(2) control_len [of payload] by (auto simp: parse_frame_header_def Let_def)
  let ?hs = "Suc (length ?L) + (if wh_masked h then 4 else 0)"
  have "\<exists>fs. parse_mask_key (bs @ r) ?h0 (Suc (length ?L)) = Inr (wire_header h key payload, ?hs, fs)"
    using key(1) by (cases "wh_masked h") (simp_all add: parse_mask_key_def wire_header_def default_ws_header_def d)
  then obtain fs where mk: "parse_mask_key (bs @ r) ?h0 (Suc (length ?L)) = Inr (wire_header h key payload, ?hs, fs)" by blast
  have x: "extract_payload (bs @ r) (wire_header h key payload) ?hs = payload"
    using pl key(1) by (simp add: extract_payload_def wire_header_def d)
  have "unat fs = ?hs + length payload"
    using parse_frame_header_Inr [of "bs @ r" "wire_header h key payload" ?hs fs] ph mk pl by (simp add: wire_header_def)
  also have "\<dots> = length bs" using key(1) by (simp add: bs)
  finally show ?thesis using ph mk x by auto
qed

section \<open>Messages go through\<close>

lemma is_control_frame_simps [simp]:
  "\<not> is_control_frame Op_continuation" "\<not> is_control_frame Op_text" "\<not> is_control_frame Op_binary"
  "is_control_frame Op_close" "is_control_frame Op_ping" "is_control_frame Op_pong"
  by (simp_all add: is_control_frame_def word_le_nat_alt)

text \<open>
  What a sender emits for one message: its fragments in order, with control frames in between
  and behind. The last fragment carries FIN; fragments after the first are continuations. Each
  frame has its own masking key.
\<close>

datatype ws_item = Frag bytes | Ctrl opcode bytes

fun frags :: "(bytes \<times> ws_item) list \<Rightarrow> bytes list" where
  "frags [] = []"
| "frags ((k, Frag x) # is) = x # frags is"
| "frags ((k, Ctrl c x) # is) = frags is"

fun ctrls :: "(bytes \<times> ws_item) list \<Rightarrow> (opcode \<times> bytes) list" where
  "ctrls [] = []"
| "ctrls ((k, Frag x) # is) = ctrls is"
| "ctrls ((k, Ctrl c x) # is) = (c, x) # ctrls is"

fun kinds :: "(bytes \<times> ws_item) list \<Rightarrow> queued_frame_kind list" where
  "kinds [] = []"
| "kinds ((k, Frag x) # is) = (if frags is = [] then Queued_message # kinds is else kinds is)"
| "kinds ((k, Ctrl c x) # is) = Queued_control # kinds is"

definition item_header :: "opcode \<Rightarrow> bool \<Rightarrow> bool \<Rightarrow> bytes \<Rightarrow> ws_header" where
  "item_header op fin m key = default_ws_header\<lparr>wh_op := op, wh_fin := fin, wh_masked := m, wh_mask_key := key\<rparr>"

fun send_items :: "opcode \<Rightarrow> bool \<Rightarrow> bytes option \<Rightarrow> (bytes \<times> ws_item) list \<Rightarrow> ws_fault + bytes" where
  "send_items op m gen [] = Inr []"
| "send_items op m gen ((k, Frag x) # is) =
     ebind (encode_frame gen (item_header op (frags is = []) m k) x) (\<lambda>b.
     ebind (send_items Op_continuation m gen is) (\<lambda>bs. Inr (b @ bs)))"
| "send_items op m gen ((k, Ctrl c x) # is) =
     ebind (encode_frame gen (item_header c True m k) x) (\<lambda>b.
     ebind (send_items op m gen is) (\<lambda>bs. Inr (b @ bs)))"

fun item_ok :: "bytes \<times> ws_item \<Rightarrow> bool" where
  "item_ok (k, Frag x) \<longleftrightarrow> length k = 4 \<and> length x < 2 ^ 63"
| "item_ok (k, Ctrl c x) \<longleftrightarrow> length k = 4 \<and> length x < 2 ^ 63 \<and> is_control_frame c"

definition key_ok :: "bytes option \<Rightarrow> bool" where
  "key_ok gen \<longleftrightarrow> (case gen of None \<Rightarrow> True | Some k \<Rightarrow> length k = 4)"

lemma sendable_item: "length k = 4 \<Longrightarrow> key_ok gen \<Longrightarrow> length x < 2 ^ 63 \<Longrightarrow> sendable gen (item_header op fin m k) x"
  by (auto simp: sendable_def item_header_def key_ok_def default_ws_header_def split: option.splits)

text \<open>The parser takes one encoded frame.\<close>

lemma process_buffer_encoded:
  assumes enc: "encode_frame gen h x = Inr bs" and s: "sendable gen h x" and b: "fp_buffer p = bs @ r"
    and c: "\<And>key. frame_checks p (wire_header h key x) = None"
    and a: "accept_frame p h x = Inr q"
  shows "process_buffer k p = process_buffer (k + length bs) (q\<lparr>fp_buffer := r\<rparr>)"
proof -
  obtain key hs fs where h: "parse_frame_header (bs @ r) = Inr (wire_header h key x, hs, fs)" "unat fs = length bs"
      "extract_payload (bs @ r) (wire_header h key x) hs = x"
    using encoded_frame_parsed [OF enc s] by blast
  have "wh_op (wire_header h key x) = wh_op h" "wh_fin (wire_header h key x) = wh_fin h"
    by (simp_all add: wire_header_def)
  then have "accept_frame p (wire_header h key x) x = Inr q"
    using a unfolding accept_frame_def accept_data_def by (simp only:)
  then have "process_step p = Step_Next (q\<lparr>fp_buffer := r\<rparr>) fs"
    using h b c [of key] accept_frame_keeps_buffer(2) [OF a] by (simp add: process_step_def)
  moreover have "fp_buffer p \<noteq> []" using parse_frame_header_Inr [OF h(1)] b by auto
  ultimately show ?thesis using process_buffer_cases(3) [of p _ fs k] h(2) by simp
qed

definition msg_so_far :: "opcode \<Rightarrow> frame_parser \<Rightarrow> ws_message" where
  "msg_so_far op p = (if op = Op_continuation then fp_current p else default_message\<lparr>msg_type := op\<rparr>)"

text \<open>The parser can take the rest of the message.\<close>

definition expects :: "opcode \<Rightarrow> bool \<Rightarrow> (bytes \<times> ws_item) list \<Rightarrow> frame_parser \<Rightarrow> bool" where
  "expects op m is p \<longleftrightarrow>
     (fp_role p = Role_server \<longrightarrow> m) \<and> (fp_role p = Role_client \<longrightarrow> \<not> m) \<and>
     (frags is \<noteq> [] \<longrightarrow>
        \<not> is_control_frame op \<and> (op = Op_continuation \<longleftrightarrow> fp_has_initial p) \<and>
        (op \<noteq> Op_continuation \<longrightarrow> fp_current p = default_message) \<and>
        (fp_max p = 0 \<or> length (msg_data (msg_so_far op p) @ concat (frags is)) \<le> unat (fp_max p)) \<and>
        (msg_type (msg_so_far op p) = Op_text \<longrightarrow> is_valid_utf8 (msg_data (msg_so_far op p) @ concat (frags is))))"

definition received :: "opcode \<Rightarrow> (bytes \<times> ws_item) list \<Rightarrow> frame_parser \<Rightarrow> frame_parser" where
  "received op is p =
     (let q = p\<lparr>fp_buffer := [], fp_controls := fp_controls p @ ctrls is, fp_queued := fp_queued p @ kinds is\<rparr> in
      if frags is = [] then q
      else q\<lparr>fp_messages := fp_messages p @
               [(msg_so_far op p)\<lparr>msg_data := msg_data (msg_so_far op p) @ concat (frags is), msg_complete := True\<rparr>],
             fp_current := default_message, fp_has_initial := False\<rparr>)"

lemma checks_ctrl:
  assumes "expects op m is p" "is_control_frame c"
  shows "frame_checks p (wire_header (item_header c fin m k) key x) = None"
  using assms by (auto simp: frame_checks_def expects_def wire_header_def item_header_def)

lemma checks_frag:
  assumes "expects op m ((k, Frag x) # is) p" "length x < 2 ^ 63"
  shows "frame_checks p (wire_header (item_header op fin m k') key x) = None"
proof -
  let ?n = "length (msg_data (fp_current p))"
  have cur: "msg_data (msg_so_far op p) = msg_data (fp_current p)"
    using assms(1) by (auto simp: expects_def msg_so_far_def default_message_def)
  have sz: "fp_max p = 0 \<or> ?n + length x \<le> unat (fp_max p)"
    using assms(1) cur by (auto simp: expects_def)
  have "\<not> (fp_max p > 0 \<and> (of_nat ?n > fp_max p \<or> of_nat (length x) > fp_max p - of_nat ?n))"
  proof (cases "fp_max p = 0")
    case False
    then have le: "?n + length x \<le> unat (fp_max p)" using sz by blast
    have "unat (fp_max p) < 2 ^ 64" using unsigned_less [of "fp_max p", where ?'a = nat] by simp
    with le have u: "unat (of_nat ?n :: size_t) = ?n" "unat (of_nat (length x) :: size_t) = length x"
      by (simp_all add: unat_of_nat)
    then have "of_nat ?n \<le> fp_max p" using le by (simp add: word_le_nat_alt)
    then have "unat (fp_max p - of_nat ?n) = unat (fp_max p) - ?n" using u by (simp add: unat_sub)
    with u le show ?thesis by (auto simp: word_less_nat_alt)
  qed simp
  with assms(1) show ?thesis
    by (auto simp: frame_checks_def expects_def wire_header_def item_header_def Let_def)
qed

lemma accept_ctrl:
  "is_control_frame c \<Longrightarrow> accept_frame p (item_header c fin m k) x =
     Inr (p\<lparr>fp_controls := fp_controls p @ [(c, x)], fp_queued := fp_queued p @ [Queued_control]\<rparr>)"
  by (simp add: accept_frame_def item_header_def)

text \<open>A fragment that is not the last, and the last one.\<close>

lemma accept_frag_more:
  assumes "\<not> is_control_frame op" "op \<noteq> Op_continuation \<or> fp_has_initial p"
  shows "accept_frame p (item_header op False m k) x =
    Inr (p\<lparr>fp_current := (msg_so_far op p)\<lparr>msg_data := msg_data (msg_so_far op p) @ x\<rparr>, fp_has_initial := True\<rparr>)"
  using assms by (auto simp: accept_frame_def accept_data_def item_header_def msg_so_far_def Let_def)

lemma accept_frag_last:
  assumes "\<not> is_control_frame op"
    and "msg_type (msg_so_far op p) = Op_text \<longrightarrow> is_valid_utf8 (msg_data (msg_so_far op p) @ x)"
  shows "accept_frame p (item_header op True m k) x =
    Inr (p\<lparr>fp_messages := fp_messages p @ [(msg_so_far op p)\<lparr>msg_data := msg_data (msg_so_far op p) @ x, msg_complete := True\<rparr>],
           fp_queued := fp_queued p @ [Queued_message], fp_current := default_message, fp_has_initial := False\<rparr>)"
  using assms by (auto simp: accept_frame_def accept_data_def item_header_def msg_so_far_def Let_def)

lemma send_items_received:
  assumes "send_items op m gen is = Inr bs" "list_all item_ok is" "key_ok gen" "expects op m is p" "fp_buffer p = bs"
  shows "process_buffer k p = (int (k + length bs), received op is p)"
  using assms
proof (induction op m gen "is" arbitrary: bs p k rule: send_items.induct)
  case (1 op m gen)
  then show ?case by (simp add: process_buffer_cases(1) received_def)
next
  case (2 op m gen key x "is")
  from "2.prems"(1) obtain b bs' where b: "encode_frame gen (item_header op (frags is = []) m key) x = Inr b"
      "send_items Op_continuation m gen is = Inr bs'" "bs = b @ bs'"
    by (auto simp: ebind_Inr_iff)
  have ok: "length key = 4" "length x < 2 ^ 63" "list_all item_ok is" using "2.prems"(2) by auto
  have e: "\<not> is_control_frame op" "op = Op_continuation \<longleftrightarrow> fp_has_initial p"
      "msg_type (msg_so_far op p) = Op_text \<longrightarrow> is_valid_utf8 (msg_data (msg_so_far op p) @ x @ concat (frags is))"
    using "2.prems"(4) by (auto simp: expects_def)
  let ?cur = "(msg_so_far op p)\<lparr>msg_data := msg_data (msg_so_far op p) @ x\<rparr>"
  let ?q = "if frags is = []
    then p\<lparr>fp_messages := fp_messages p @ [?cur\<lparr>msg_complete := True\<rparr>], fp_queued := fp_queued p @ [Queued_message],
           fp_current := default_message, fp_has_initial := False\<rparr>
    else p\<lparr>fp_current := ?cur, fp_has_initial := True\<rparr>"
  have "accept_frame p (item_header op (frags is = []) m key) x = Inr ?q"
    using accept_frag_more [of op p m key x] accept_frag_last [of op p x m key] e by auto
  then have st: "process_buffer k p = process_buffer (k + length b) (?q\<lparr>fp_buffer := bs'\<rparr>)"
    using process_buffer_encoded [OF b(1) sendable_item [OF ok(1) "2.prems"(3) ok(2)], of p bs']
      checks_frag [OF "2.prems"(4) ok(2)] "2.prems"(5) b(3)
    by blast
  have "expects Op_continuation m is (?q\<lparr>fp_buffer := bs'\<rparr>)"
    using "2.prems"(4) by (auto simp: expects_def msg_so_far_def)
  moreover have "received Op_continuation is (?q\<lparr>fp_buffer := bs'\<rparr>) = received op ((key, Frag x) # is) p"
    by (auto simp: received_def msg_so_far_def Let_def)
  ultimately show ?case using "2.IH" [OF b(2) ok(3) "2.prems"(3), of "?q\<lparr>fp_buffer := bs'\<rparr>" "k + length b"] st b(3) by simp
next
  case (3 op m gen key c x "is")
  from "3.prems"(1) obtain b bs' where b: "encode_frame gen (item_header c True m key) x = Inr b"
      "send_items op m gen is = Inr bs'" "bs = b @ bs'"
    by (auto simp: ebind_Inr_iff)
  have ok: "length key = 4" "length x < 2 ^ 63" "is_control_frame c" "list_all item_ok is" using "3.prems"(2) by auto
  let ?q = "p\<lparr>fp_controls := fp_controls p @ [(c, x)], fp_queued := fp_queued p @ [Queued_control], fp_buffer := bs'\<rparr>"
  have st: "process_buffer k p = process_buffer (k + length b) ?q"
    using process_buffer_encoded [OF b(1) sendable_item [OF ok(1) "3.prems"(3) ok(2)], of p bs']
      checks_ctrl [OF "3.prems"(4) ok(3)] accept_ctrl [OF ok(3)] "3.prems"(5) b(3)
    by simp
  have e: "expects op m is ?q" using "3.prems"(4) by (auto simp: expects_def msg_so_far_def)
  have "received op is ?q = received op ((key, Ctrl c x) # is) p"
    by (simp add: received_def msg_so_far_def Let_def)
  with "3.IH" [OF b(2) ok(4) "3.prems"(3) e, of "k + length b"] st b(3) show ?case by simp
qed

text \<open>
  C27: a WebSocket message goes through. A text or binary message sent as any number of fragments, masked or
  not as the receiver's role demands, with any control frames between and behind the fragments, is
  delivered by an idle parser as one complete message with exactly the concatenated data; the control frames
  are delivered too, in the order of the wire, and all input is consumed. The message must be within
  the receiver's limit, and valid UTF-8 when it is text.
\<close>

theorem ws_message_delivered:
  assumes "send_items op m gen is = Inr bs" and "op = Op_text \<or> op = Op_binary" and "list_all item_ok is" and "key_ok gen"
    and "frags is \<noteq> []" and "fp_buffer p = []" and "fp_current p = default_message" and "\<not> fp_has_initial p"
    and "fp_role p = Role_server \<longrightarrow> m" and "fp_role p = Role_client \<longrightarrow> \<not> m"
    and "fp_max p = 0 \<or> length (concat (frags is)) \<le> unat (fp_max p)"
    and "op = Op_text \<longrightarrow> is_valid_utf8 (concat (frags is))"
  shows "fp_parse bs p =
    (int (length bs),
     p\<lparr>fp_messages := fp_messages p @ [\<lparr>msg_type = op, msg_data = concat (frags is), msg_complete = True\<rparr>],
       fp_controls := fp_controls p @ ctrls is, fp_queued := fp_queued p @ kinds is\<rparr>)"
proof -
  let ?p = "p\<lparr>fp_buffer := bs\<rparr>"
  have op: "op \<noteq> Op_continuation" "\<not> is_control_frame op" using assms(2) by auto
  have "expects op m is ?p"
    using assms op by (auto simp: expects_def msg_so_far_def default_message_def)
  from send_items_received [OF assms(1,3,4) this, of 0]
  have r: "process_buffer 0 ?p = (int (length bs), received op is ?p)" by simp
  have "received op is ?p =
      p\<lparr>fp_messages := fp_messages p @ [\<lparr>msg_type = op, msg_data = concat (frags is), msg_complete = True\<rparr>],
       fp_controls := fp_controls p @ ctrls is, fp_queued := fp_queued p @ kinds is\<rparr>"
    using assms(5-8) op by (simp add: received_def msg_so_far_def default_message_def)
  moreover have "bs \<noteq> []"
  proof
    assume "bs = []"
    with r have "received op is ?p = ?p" by (simp add: process_buffer_cases(1))
    then have "fp_messages (received op is ?p) = fp_messages p" by simp
    with assms(5) show False by (simp add: received_def Let_def)
  qed
  ultimately show ?thesis using r assms(6) by (simp add: fp_parse_def)
qed

theorem ws_message_delivered_witness:
  "\<exists>bs. send_items Op_text True None
          [([1, 2, 3, 4], Frag [104]), ([5, 6, 7, 8], Ctrl Op_ping [9]), ([1, 1, 1, 1], Frag [105])] = Inr bs \<and>
     fp_parse bs (set_role Role_server frame_parser_ctor) =
       (int (length bs),
        (set_role Role_server frame_parser_ctor)
          \<lparr>fp_messages := [\<lparr>msg_type = Op_text, msg_data = [104, 105], msg_complete = True\<rparr>],
           fp_controls := [(Op_ping, [9])], fp_queued := [Queued_control, Queued_message]\<rparr>)"
proof -
  let ?is = "[([1, 2, 3, 4], Frag [104]), ([5, 6, 7, 8], Ctrl Op_ping [9]), ([1, 1, 1, 1], Frag [105])]"
  let ?p = "set_role Role_server frame_parser_ctor"
  obtain bs where bs: "send_items Op_text True None ?is = Inr bs"
    by (simp add: encode_frame_def item_header_def)
  have "is_valid_utf8 [104, 105]" by (simp add: utf8_ascii is_valid_utf8.simps [of "[]"])
  then have "fp_parse bs ?p =
      (int (length bs),
       ?p\<lparr>fp_messages := fp_messages ?p @ [\<lparr>msg_type = Op_text, msg_data = concat (frags ?is), msg_complete = True\<rparr>],
         fp_controls := fp_controls ?p @ ctrls ?is, fp_queued := fp_queued ?p @ kinds ?is\<rparr>)"
    by (intro ws_message_delivered [OF bs])
       (simp_all add: set_role_def frame_parser_ctor_def default_max_message_size_def key_ok_def)
  with bs show ?thesis by (simp add: set_role_def frame_parser_ctor_def)
qed

section \<open>An invariant for arbitrary input\<close>

definition within :: "size_t \<Rightarrow> bytes \<Rightarrow> bool" where
  "within limit d \<longleftrightarrow> limit = 0 \<or> length d \<le> unat limit"

definition good_message :: "size_t \<Rightarrow> ws_message \<Rightarrow> bool" where
  "good_message limit x \<longleftrightarrow>
     msg_complete x \<and> (msg_type x = Op_text \<or> msg_type x = Op_binary) \<and> within limit (msg_data x) \<and>
     (msg_type x = Op_text \<longrightarrow> is_valid_utf8 (msg_data x))"

definition good_control :: "opcode \<times> bytes \<Rightarrow> bool" where
  "good_control c \<longleftrightarrow> is_control_frame (fst c) \<and> length (snd c) \<le> 125"

definition fp_inv :: "frame_parser \<Rightarrow> bool" where
  "fp_inv p \<longleftrightarrow>
     list_all (good_message (fp_max p)) (fp_messages p) \<and> list_all good_control (fp_controls p) \<and>
     length (filter (\<lambda>q. q = Queued_message) (fp_queued p)) = length (fp_messages p) \<and>
     length (filter (\<lambda>q. q = Queued_control) (fp_queued p)) = length (fp_controls p) \<and>
     within (fp_max p) (msg_data (fp_current p)) \<and>
     (if fp_has_initial p then msg_type (fp_current p) = Op_text \<or> msg_type (fp_current p) = Op_binary
      else fp_current p = default_message)"

lemma within_Nil [simp]: "within n []"
  by (simp add: within_def)

text \<open>The header is parsed with its length bound for control frames.\<close>

lemma parse_control_len:
  assumes "parse_frame_header d = Inr (h, hs, fs)" "is_control_frame (wh_op h)"
  shows "unat (wh_payload_len h) \<le> 125"
proof -
  from assms(1) obtain h0 len hs0 where p:
      "\<not> (is_control_frame (wh_op h0) \<and> len > 125)"
      "parse_mask_key d (h0\<lparr>wh_masked := d ! 1 AND 0x80 \<noteq> 0, wh_payload_len := len\<rparr>) hs0 = Inr (h, hs, fs)"
    by (auto simp: parse_frame_header_def Let_def ebind_Inr_iff split: if_splits)
  then have "wh_op h = wh_op h0" "wh_payload_len h = len" by (auto simp: parse_mask_key_def split: if_splits)
  with p(1) assms(2) show ?thesis by (simp add: word_less_nat_alt not_less)
qed

lemma length_extract_payload: "length (extract_payload d h hs) \<le> unat (wh_payload_len h)"
  by (simp add: extract_payload_def Let_def)

text \<open>What the checks guarantee to the delivery of a data frame.\<close>

lemma checks_within:
  assumes "frame_checks p h = None" "\<not> is_control_frame (wh_op h)" "length x \<le> unat (wh_payload_len h)"
    "within (fp_max p) (msg_data (fp_current p))"
  shows "within (fp_max p) (msg_data (fp_current p) @ x) \<and> (wh_op h = Op_continuation \<longleftrightarrow> fp_has_initial p)"
proof -
  let ?n = "length (msg_data (fp_current p))"
  from assms(1,2) have c: "fp_max p > 0 \<longrightarrow> \<not> of_nat ?n > fp_max p \<and> \<not> wh_payload_len h > fp_max p - of_nat ?n"
    and i: "wh_op h = Op_continuation \<longleftrightarrow> fp_has_initial p"
    by (auto simp: frame_checks_def Let_def split: if_splits)
  have "within (fp_max p) (msg_data (fp_current p) @ x)"
  proof (cases "fp_max p = 0")
    case False
    then have "fp_max p > 0" by (simp add: word_gt_0)
    have "?n < 2 ^ 64"
      using assms(4) False unsigned_less [of "fp_max p", where ?'a = nat] by (simp add: within_def)
    then have u: "unat (of_nat ?n :: size_t) = ?n" by (simp add: unat_of_nat)
    from c \<open>fp_max p > 0\<close> have le: "of_nat ?n \<le> fp_max p" "wh_payload_len h \<le> fp_max p - of_nat ?n" by auto
    then have "unat (wh_payload_len h) \<le> unat (fp_max p) - ?n" "?n \<le> unat (fp_max p)"
      using u by (simp_all add: word_le_nat_alt unat_sub)
    with assms(3) show ?thesis unfolding within_def length_append by linarith
  qed (simp add: within_def)
  with i show ?thesis by blast
qed

lemma accept_frame_inv:
  assumes "fp_inv p" "frame_checks p h = None" "length x \<le> unat (wh_payload_len h)"
    "is_control_frame (wh_op h) \<longrightarrow> length x \<le> 125"
  shows "fp_inv (case accept_frame p h x of Inl q \<Rightarrow> q | Inr q \<Rightarrow> q)"
proof (cases "is_control_frame (wh_op h)")
  case True
  with assms(1,4) show ?thesis by (simp add: accept_frame_def fp_inv_def good_control_def)
next
  case False
  let ?c = "fp_current p"
  have w: "within (fp_max p) (msg_data ?c @ x)" and i: "wh_op h = Op_continuation \<longleftrightarrow> fp_has_initial p"
    using checks_within [OF assms(2) False assms(3)] assms(1) by (auto simp: fp_inv_def)
  show ?thesis
  proof (cases "fp_has_initial p")
    case True
    with i assms(1) False w show ?thesis
      by (auto simp: accept_frame_def accept_data_def fp_inv_def good_message_def fp_fail_def default_message_def Let_def)
  next
    case n: False
    then have d: "?c = default_message" using assms(1) by (simp add: fp_inv_def)
    have "wh_op h = Op_text \<or> wh_op h = Op_binary" using False n i by (cases "wh_op h") auto
    with n i assms(1) False w show ?thesis
      unfolding d by (auto simp: accept_frame_def accept_data_def fp_inv_def good_message_def fp_fail_def default_message_def Let_def)
  qed
qed

lemma process_step_inv:
  assumes "fp_inv p"
  shows "case process_step p of Step_More \<Rightarrow> True | Step_Fail q \<Rightarrow> fp_inv q \<and> fp_max q = fp_max p | Step_Next q n \<Rightarrow> fp_inv q \<and> fp_max q = fp_max p"
proof -
  have f: "fp_inv (fp_fail msg code p)" for msg code using assms by (simp add: fp_inv_def fp_fail_def)
  have b: "fp_inv (q\<lparr>fp_buffer := d\<rparr>) = fp_inv q" for q d by (simp add: fp_inv_def)
  have mx: "accept_frame p h x = Inl q \<Longrightarrow> fp_max q = fp_max p" "accept_frame p h x = Inr q \<Longrightarrow> fp_max q = fp_max p" for h x q
    by (auto simp: accept_frame_def accept_data_def fp_fail_def Let_def split: if_splits)
  show ?thesis
  proof (cases "parse_frame_header (fp_buffer p)")
    case (Inl s)
    then show ?thesis using f by (cases s) (simp_all add: process_step_def fp_fail_def)
  next
    case (Inr r)
    obtain h hs fs where r: "r = (h, hs, fs)" by (cases r)
    let ?x = "extract_payload (fp_buffer p) h hs"
    have "is_control_frame (wh_op h) \<longrightarrow> length ?x \<le> 125"
      using parse_control_len [of "fp_buffer p" h hs fs] Inr r length_extract_payload [of "fp_buffer p" h hs] by force
    note a = accept_frame_inv [OF assms _ length_extract_payload this]
    show ?thesis
    proof (cases "frame_checks p h")
      case (Some c)
      then show ?thesis using Inr r f by (cases c) (simp add: process_step_def fp_fail_def)
    next
      case None
      with a have "fp_inv (case accept_frame p h ?x of Inl q \<Rightarrow> q | Inr q \<Rightarrow> q)" by blast
      then show ?thesis
        using None Inr r mx by (cases "accept_frame p h ?x") (simp_all add: process_step_def b)
    qed
  qed
qed

lemma process_buffer_inv:
  "fp_inv p \<Longrightarrow> fp_inv (snd (process_buffer k p)) \<and> fp_max (snd (process_buffer k p)) = fp_max p"
proof (induction k p rule: process_buffer_induct)
  case (stop k p)
  then show ?case by (simp add: process_buffer_cases(1))
next
  case (fail k p q)
  then show ?case using process_step_inv [of p] by (simp add: process_buffer_cases(2))
next
  case (taken k p q n)
  then show ?case using process_step_inv [of p] by (simp add: process_buffer_cases(3))
qed

lemma fp_parse_inv: "fp_inv p \<Longrightarrow> fp_inv (snd (fp_parse d p)) \<and> fp_max (snd (fp_parse d p)) = fp_max p"
proof -
  assume "fp_inv p"
  then have "fp_inv (p\<lparr>fp_buffer := fp_buffer p @ d\<rparr>)" by (simp add: fp_inv_def)
  from process_buffer_inv [OF this, of 0] \<open>fp_inv p\<close> show ?thesis by (simp add: fp_parse_def)
qed

lemma remove_first_counts:
  "length (filter (\<lambda>q. q = j) (remove_first_queued_kind k qs)) =
     length (filter (\<lambda>q. q = j) qs) - (if j = k then 1 else 0)"
  by (induction qs) (auto simp: filter_empty_conv)

section \<open>The parser and its client\<close>

datatype ws_label = Feed bytes | Get_message | Get_control | Next_message | Next_control | Reset_parser

fun ws_exec :: "frame_parser \<Rightarrow> ws_label \<Rightarrow> frame_parser" where
  "ws_exec p (Feed d) = snd (fp_parse d p)"
| "ws_exec p Get_message = snd (get_message p)"
| "ws_exec p Get_control = snd (get_control_frame p)"
| "ws_exec p Next_message = snd (get_next_message p)"
| "ws_exec p Next_control = snd (get_next_control_frame p)"
| "ws_exec p Reset_parser = fp_reset p"

definition ws_start :: "size_t \<Rightarrow> endpoint_role \<Rightarrow> frame_parser \<Rightarrow> bool" where
  "ws_start n r p \<longleftrightarrow> p = set_max_message_size n (set_role r frame_parser_ctor)"

definition ws_step :: "frame_parser \<Rightarrow> ws_label \<Rightarrow> frame_parser \<Rightarrow> bool" where
  "ws_step p l q \<longleftrightarrow> q = ws_exec p l"

lemma ws_exec_inv: "fp_inv p \<Longrightarrow> fp_inv (ws_exec p l) \<and> fp_max (ws_exec p l) = fp_max p"
proof (cases l)
  case (Feed d)
  then show "fp_inv p \<Longrightarrow> ?thesis" by (simp add: fp_parse_inv)
qed (auto simp: get_message_def get_control_frame_def get_next_message_def get_next_control_frame_def fp_reset_def
       fp_inv_def remove_first_counts next_frame_is_message_def next_frame_is_control_frame_def neq_Nil_conv
       default_message_def split: list.splits)

interpretation ws: invariant_system "ws_start n r" ws_step "\<lambda>p. fp_inv p \<and> fp_max p = n" for n r
proof
  show "ws_start n r s \<Longrightarrow> fp_inv s \<and> fp_max s = n" for s
    by (simp add: ws_start_def set_max_message_size_def set_role_def frame_parser_ctor_def fp_inv_def default_message_def)
  show "fp_inv s \<and> fp_max s = n \<Longrightarrow> ws_step s a t \<Longrightarrow> fp_inv t \<and> fp_max t = n" for s a t
    using ws_exec_inv [of s a] by (simp add: ws_step_def)
qed

text \<open>
  C28: a peer cannot corrupt the parser. Whatever bytes arrive in whatever pieces, and however the client takes
  results and resets, also after errors: every message handed out is complete, text or binary, within the configured limit
  and valid UTF-8 if it is text; every control frame is one and has at most 125 bytes; the message under assembly never
  exceeds the limit; and while anything is queued, exactly one of get\_next\_message and
  get\_next\_control\_frame hands out the oldest frame.
\<close>

theorem ws_parser_safe:
  assumes "reach (ws_start n r) ws_step p"
  shows "list_all (good_message n) (fp_messages p) \<and> list_all good_control (fp_controls p) \<and>
    within n (msg_data (fp_current p)) \<and>
    (fp_queued p \<noteq> [] \<longrightarrow> (fst (get_next_message p) \<noteq> None) \<noteq> (fst (get_next_control_frame p) \<noteq> None))"
proof -
  have inv: "fp_inv p" "fp_max p = n" using ws.reach_inv [OF assms] by auto
  have "(fst (get_next_message p) \<noteq> None) \<noteq> (fst (get_next_control_frame p) \<noteq> None)" if q: "fp_queued p = k # qs" for k qs
  proof (cases k)
    case Queued_message
    then have "fp_messages p \<noteq> []" using inv q by (auto simp: fp_inv_def)
    with q Queued_message show ?thesis
      by (simp add: get_next_message_def get_next_control_frame_def next_frame_is_message_def next_frame_is_control_frame_def)
  next
    case Queued_control
    then have "fp_controls p \<noteq> []" using inv q by (auto simp: fp_inv_def)
    with q Queued_control show ?thesis
      by (simp add: get_next_message_def get_next_control_frame_def next_frame_is_message_def next_frame_is_control_frame_def)
  qed
  with inv show ?thesis by (cases "fp_queued p") (auto simp: fp_inv_def)
qed

theorem ws_parser_safe_witness:
  "list_all (good_message 1000) (fp_messages (ws_exec (set_max_message_size 1000 (set_role Role_client frame_parser_ctor)) (Feed [0x81, 0x01, 0x41])))"
proof -
  let ?p = "set_max_message_size 1000 (set_role Role_client frame_parser_ctor)"
  have "reach (ws_start 1000 Role_client) ws_step ?p" by (rule reach_init) (simp add: ws_start_def)
  then have "reach (ws_start 1000 Role_client) ws_step (ws_exec ?p (Feed [0x81, 0x01, 0x41]))"
    by (rule reach_step [where a = "Feed [0x81, 0x01, 0x41]"]) (simp add: ws_step_def)
  from ws_parser_safe [OF this] show ?thesis by blast
qed

section \<open>Close frames\<close>

lemma close_code_bytes: "push_bit 8 (ucast (ucast (drop_bit 8 (c :: u16)) :: u8)) OR ucast (ucast c :: u8) = c"
  by (rule bit_word_eqI) (auto simp: bit_simps)



end
