(* ===== verification/Mpmc_Ring.thy ===== *)
theory Mpmc_Ring
  imports Bytes "HOL-Library.Multiset"
begin

text \<open>
  The lock-free bounded multi-producer multi-consumer ring (src/include/elio/sync/lockfree\_ring.hpp).
  Every access to an atomic or to a slot's value is a step of its own, so any number of threads
  interleave at that grain. The counters and sequence numbers are 64-bit words and
  the comparisons are the signed ones of the source.
\<close>

section \<open>The ring\<close>

record 'a ring_slot =
  sl_seq :: u64
  sl_val :: "'a option"

record 'a ring =
  r_capacity :: size_t
  r_mask :: size_t
  r_slots :: "'a ring_slot list"
  r_head :: u64
  r_tail :: u64

definition next_power_of_2 :: "size_t \<Rightarrow> size_t" where
  "next_power_of_2 n =
     (if n = 0 then 1
      else
        let n = n - 1;
            n = n OR drop_bit 1 n;
            n = n OR drop_bit 2 n;
            n = n OR drop_bit 4 n;
            n = n OR drop_bit 8 n;
            n = n OR drop_bit 16 n;
            n = n OR drop_bit 32 n
        in n + 1)"

definition ring_ctor :: "size_t \<Rightarrow> 'a ring" where
  "ring_ctor capacity =
     (let cap = next_power_of_2 (max capacity 2) in
      \<lparr>r_capacity = cap, r_mask = cap - 1,
       r_slots = map (\<lambda>i. \<lparr>sl_seq = of_nat i, sl_val = None\<rparr>) [0..<unat cap],
       r_head = 0, r_tail = 0\<rparr>)"

definition ring_index :: "'a ring \<Rightarrow> u64 \<Rightarrow> nat" where
  "ring_index r pos = unat (pos AND r_mask r)"

definition ring_slot_at :: "'a ring \<Rightarrow> u64 \<Rightarrow> 'a ring_slot" where
  "ring_slot_at r pos = r_slots r ! ring_index r pos"

definition set_slot_val :: "u64 \<Rightarrow> 'a option \<Rightarrow> 'a ring \<Rightarrow> 'a ring" where
  "set_slot_val pos v r = r\<lparr>r_slots := (r_slots r)[ring_index r pos := (ring_slot_at r pos)\<lparr>sl_val := v\<rparr>]\<rparr>"

definition set_slot_seq :: "u64 \<Rightarrow> u64 \<Rightarrow> 'a ring \<Rightarrow> 'a ring" where
  "set_slot_seq pos q r = r\<lparr>r_slots := (r_slots r)[ring_index r pos := (ring_slot_at r pos)\<lparr>sl_seq := q\<rparr>]\<rparr>"

section \<open>Steps of try\_push and try\_pop\<close>

text \<open>Where a thread stands; the arguments are its local variables.\<close>

datatype 'a ring_pc =
    Ring_Idle
  | Push_Check 'a u64
  | Push_Reload 'a
  | Push_Cas 'a u64
  | Push_Write 'a u64
  | Push_Publish u64
  | Pop_Check u64
  | Pop_Reload
  | Pop_Cas u64
  | Pop_Take u64
  | Pop_Release u64 'a

text \<open>The outcome of a slot check: claim it, give up, or reload the counter.\<close>

datatype ring_verdict = Slot_Ready | Slot_Refused | Slot_Stale

definition verdict :: "int \<Rightarrow> ring_verdict" where
  "verdict diff = (if diff = 0 then Slot_Ready else if diff < 0 then Slot_Refused else Slot_Stale)"

definition push_verdict :: "'a ring \<Rightarrow> u64 \<Rightarrow> ring_verdict" where
  "push_verdict r head = verdict (sint (sl_seq (ring_slot_at r head)) - sint head)"

definition pop_verdict :: "'a ring \<Rightarrow> u64 \<Rightarrow> ring_verdict" where
  "pop_verdict r tail = verdict (sint (sl_seq (ring_slot_at r tail)) - sint (tail + 1))"

definition push_check :: "'a ring \<Rightarrow> 'a \<Rightarrow> u64 \<Rightarrow> 'a ring_pc" where
  "push_check r v head =
     (case push_verdict r head of
        Slot_Ready \<Rightarrow> Push_Cas v head | Slot_Refused \<Rightarrow> Ring_Idle | Slot_Stale \<Rightarrow> Push_Reload v)"

definition pop_check :: "'a ring \<Rightarrow> u64 \<Rightarrow> 'a ring_pc" where
  "pop_check r tail =
     (case pop_verdict r tail of
        Slot_Ready \<Rightarrow> Pop_Cas tail | Slot_Refused \<Rightarrow> Ring_Idle | Slot_Stale \<Rightarrow> Pop_Reload)"

definition can_push :: "'a ring \<Rightarrow> bool" where
  "can_push r \<longleftrightarrow> sint (sl_seq (ring_slot_at r (r_head r))) - sint (r_head r) = 0"

definition ring_empty :: "'a ring \<Rightarrow> bool" where
  "ring_empty r \<longleftrightarrow> r_head r = r_tail r"

definition ring_size :: "'a ring \<Rightarrow> size_t" where
  "ring_size r = (if r_head r \<ge> r_tail r then r_head r - r_tail r else 0)"

section \<open>Interleavings\<close>

text \<open>
  All threads on one ring. \<open>rs_hist\<close> records the values in the order of their claims by producers,
  \<open>rs_out\<close> what try\_pop returned, with the claimed position; neither is read by the code.
\<close>

record 'a ring_sys =
  rs_ring :: "'a ring"
  rs_pc :: "nat \<Rightarrow> 'a ring_pc"
  rs_hist :: "'a list"
  rs_out :: "(nat \<times> 'a) list"

datatype 'a ring_label = Call_push nat 'a | Call_pop nat | Ring_Go nat bool

text \<open>One step of a thread; \<open>weak\<close> is whether a compare-exchange fails spuriously.\<close>

definition ring_go :: "'a ring_sys \<Rightarrow> nat \<Rightarrow> bool \<Rightarrow> 'a ring_sys" where
  "ring_go s i weak =
     (let r = rs_ring s; at = (\<lambda>pc. (rs_pc s)(i := pc)) in
      case rs_pc s i of
        Ring_Idle \<Rightarrow> s
      | Push_Check v h \<Rightarrow> s\<lparr>rs_pc := at (push_check r v h)\<rparr>
      | Push_Reload v \<Rightarrow> s\<lparr>rs_pc := at (Push_Check v (r_head r))\<rparr>
      | Push_Cas v h \<Rightarrow>
          if r_head r = h \<and> \<not> weak
          then s\<lparr>rs_ring := r\<lparr>r_head := h + 1\<rparr>, rs_pc := at (Push_Write v h), rs_hist := rs_hist s @ [v]\<rparr>
          else s\<lparr>rs_pc := at (Push_Check v (r_head r))\<rparr>
      | Push_Write v h \<Rightarrow> s\<lparr>rs_ring := set_slot_val h (Some v) r, rs_pc := at (Push_Publish h)\<rparr>
      | Push_Publish h \<Rightarrow> s\<lparr>rs_ring := set_slot_seq h (h + 1) r, rs_pc := at Ring_Idle\<rparr>
      | Pop_Check t \<Rightarrow> s\<lparr>rs_pc := at (pop_check r t)\<rparr>
      | Pop_Reload \<Rightarrow> s\<lparr>rs_pc := at (Pop_Check (r_tail r))\<rparr>
      | Pop_Cas t \<Rightarrow>
          if r_tail r = t \<and> \<not> weak
          then s\<lparr>rs_ring := r\<lparr>r_tail := t + 1\<rparr>, rs_pc := at (Pop_Take t)\<rparr>
          else s\<lparr>rs_pc := at (Pop_Check (r_tail r))\<rparr>
      | Pop_Take t \<Rightarrow>
          (case sl_val (ring_slot_at r t) of
             None \<Rightarrow> s
           | Some v \<Rightarrow> s\<lparr>rs_ring := set_slot_val t None r, rs_pc := at (Pop_Release t v)\<rparr>)
      | Pop_Release t v \<Rightarrow>
          s\<lparr>rs_ring := set_slot_seq t (t + r_capacity r) r, rs_pc := at Ring_Idle,
            rs_out := rs_out s @ [(unat t, v)]\<rparr>)"

definition ring_enabled :: "'a ring_sys \<Rightarrow> 'a ring_label \<Rightarrow> bool" where
  "ring_enabled s l =
     (case l of Call_push i v \<Rightarrow> rs_pc s i = Ring_Idle | Call_pop i \<Rightarrow> rs_pc s i = Ring_Idle | Ring_Go i weak \<Rightarrow> True)"

definition ring_exec :: "'a ring_sys \<Rightarrow> 'a ring_label \<Rightarrow> 'a ring_sys option" where
  "ring_exec s l =
     Some (case l of
             Call_push i v \<Rightarrow> s\<lparr>rs_pc := (rs_pc s)(i := Push_Check v (r_head (rs_ring s)))\<rparr>
           | Call_pop i \<Rightarrow> s\<lparr>rs_pc := (rs_pc s)(i := Pop_Check (r_tail (rs_ring s)))\<rparr>
           | Ring_Go i weak \<Rightarrow> ring_go s i weak)"

definition ring_step :: "'a ring_sys \<Rightarrow> 'a ring_label \<Rightarrow> 'a ring_sys \<Rightarrow> bool" where
  "ring_step = exec_step ring_enabled ring_exec"

definition ring_start :: "size_t \<Rightarrow> 'a ring_sys" where
  "ring_start n = \<lparr>rs_ring = ring_ctor n, rs_pc = (\<lambda>_. Ring_Idle), rs_hist = [], rs_out = []\<rparr>"

definition ring_init :: "size_t \<Rightarrow> 'a ring_sys \<Rightarrow> bool" where
  "ring_init n s \<longleftrightarrow> s = ring_start n"

section \<open>The capacity is a power of two\<close>

definition smear :: "nat \<Rightarrow> size_t \<Rightarrow> size_t" where
  "smear k n = n OR drop_bit k n"

text \<open>After smearing by 1, 2, 4, ... every bit below a set bit is set.\<close>

definition covers :: "nat \<Rightarrow> size_t \<Rightarrow> size_t \<Rightarrow> bool" where
  "covers d n m \<longleftrightarrow> (\<forall>i. bit m i \<longleftrightarrow> (\<exists>j \<ge> i. j < i + d \<and> bit n j))"

lemma covers_smear:
  assumes "covers d n m"
  shows "covers (d + d) n (smear d m)"
  unfolding covers_def
proof
  fix i
  have "bit (smear d m) i \<longleftrightarrow> bit m i \<or> bit m (d + i)"
    by (simp add: smear_def bit_or_iff bit_drop_bit_eq)
  also have "\<dots> \<longleftrightarrow> (\<exists>j \<ge> i. j < i + (d + d) \<and> bit n j)"
    using assms unfolding covers_def
    by (auto simp: add.assoc) (metis add.commute add.left_commute add_leE leI le_add1 less_add_eq_less nat_add_left_cancel_less not_less)+
  finally show "bit (smear d m) i \<longleftrightarrow> (\<exists>j \<ge> i. j < i + (d + d) \<and> bit n j)" .
qed

lemma next_power_of_2_smear:
  "n \<noteq> 0 \<Longrightarrow> next_power_of_2 n =
     smear 32 (smear 16 (smear 8 (smear 4 (smear 2 (smear 1 (n - 1)))))) + 1"
  by (simp add: next_power_of_2_def smear_def Let_def)

lemma covers_64: "covers 64 n (smear 32 (smear 16 (smear 8 (smear 4 (smear 2 (smear 1 n))))))"
proof -
  have "covers 1 n n" by (auto simp: covers_def) (metis le_less_Suc_eq)
  from covers_smear [OF this] have "covers 2 n (smear 1 n)" by (simp add: numeral_2_eq_2)
  from covers_smear [OF this] have "covers 4 n (smear 2 (smear 1 n))" by simp
  from covers_smear [OF this] have "covers 8 n (smear 4 (smear 2 (smear 1 n)))" by simp
  from covers_smear [OF this] have "covers 16 n (smear 8 (smear 4 (smear 2 (smear 1 n))))" by simp
  from covers_smear [OF this] have "covers 32 n (smear 16 (smear 8 (smear 4 (smear 2 (smear 1 n)))))" by simp
  from covers_smear [OF this] show ?thesis by simp
qed

lemma word_below:
  fixes w :: u64
  assumes "\<And>i. bit w i \<Longrightarrow> i < k"
  shows "unat w < 2 ^ k"
proof -
  have "w = take_bit k w" by (rule bit_word_eqI) (auto simp: bit_take_bit_iff dest: assms)
  then have "unat w = take_bit k (unat w)" by (metis unsigned_take_bit_eq)
  then show ?thesis by (metis take_bit_nat_less_exp)
qed

lemma bit_below:
  fixes w :: u64
  assumes "unat w < 2 ^ k" "bit w i"
  shows "i < k"
proof -
  have "bit (take_bit k (unat w)) i"
    using assms by (simp add: take_bit_nat_eq_self bit_unsigned_iff bit_imp_le_length)
  then show ?thesis by (simp add: bit_take_bit_iff)
qed

lemma nonzero_bit:
  fixes w :: u64
  assumes "w \<noteq> 0"
  shows "\<exists>j. bit w j"
proof (rule ccontr)
  assume "\<nexists>j. bit w j"
  then have "w = 0" by (intro bit_word_eqI) simp
  with assms show False by simp
qed

lemma next_power_of_2_ok:
  assumes "2 \<le> unat n" "unat n \<le> 2 ^ 62"
  shows "\<exists>k. 1 \<le> k \<and> k \<le> 62 \<and> next_power_of_2 n = 2 ^ k \<and> unat n \<le> 2 ^ k"
proof -
  let ?m = "n - 1"
  have n0: "n \<noteq> 0" using assms(1) by auto
  have um: "unat ?m = unat n - 1" using assms(1) by (subst unat_sub) (simp_all add: word_le_nat_alt)
  then have "unat ?m \<noteq> 0" using assms(1) by simp
  then have "?m \<noteq> 0" by auto
  then obtain j where j: "bit ?m j" using nonzero_bit by blast
  define k where "k = Max {i. bit ?m i}"
  have fin: "finite {i. bit ?m i}"
    by (rule finite_subset [of _ "{..<64}"]) (auto dest: bit_imp_le_length)
  have "k \<in> {i. bit ?m i}" unfolding k_def using j by (intro Max_in [OF fin]) blast
  then have k: "bit ?m k" "\<And>i. bit ?m i \<Longrightarrow> i \<le> k"
    by (blast, simp only: k_def Max_ge [OF fin] mem_Collect_eq)
  have "unat ?m < 2 ^ 62" using um assms by linarith
  then have k62: "k < 62" using k(1) by (rule bit_below)
  let ?s = "smear 32 (smear 16 (smear 8 (smear 4 (smear 2 (smear 1 ?m)))))"
  have "bit ?s i \<longleftrightarrow> i \<le> k" for i
  proof -
    have "bit ?s i \<longleftrightarrow> (\<exists>j \<ge> i. j < i + 64 \<and> bit ?m j)"
      using covers_64 [of ?m] unfolding covers_def by blast
    also have "\<dots> \<longleftrightarrow> i \<le> k"
    proof
      assume "\<exists>j \<ge> i. j < i + 64 \<and> bit ?m j"
      then show "i \<le> k" using k(2) le_trans by blast
    next
      assume "i \<le> k"
      moreover have "k < i + 64" using k62 by simp
      ultimately show "\<exists>j \<ge> i. j < i + 64 \<and> bit ?m j" using k(1) by blast
    qed
    finally show ?thesis .
  qed
  then have "?s = mask (Suc k)"
    by (intro bit_word_eqI) (simp add: bit_mask_iff less_Suc_eq_le)
  then have c: "next_power_of_2 n = 2 ^ Suc k"
    using next_power_of_2_smear [OF n0] by (simp only: mask_eq_exp_minus_1 diff_add_cancel)
  have "unat ?m < 2 ^ Suc k" by (rule word_below) (simp only: less_Suc_eq_le k(2))
  with um assms(1) have "unat n \<le> 2 ^ Suc k" by linarith
  moreover have "1 \<le> Suc k" "Suc k \<le> 62" using k62 by simp_all
  ultimately show ?thesis using c by blast
qed

section \<open>The invariant\<close>

text \<open>
  The state in natural numbers, for rings of \<open>c\<close> slots: positions are tickets, ticket \<open>h\<close> belongs to
  slot \<open>h mod c\<close>. \<open>H\<close> tickets were claimed by producers, \<open>T\<close> by consumers; \<open>sq\<close> and \<open>vl\<close> are the sequence
  numbers and values of the slots, \<open>hs\<close> the pushed values.

  First, the ticket a thread owns between its claim and its publication of the slot.
\<close>

fun push_ticket :: "'a ring_pc \<Rightarrow> nat option" where
  "push_ticket (Push_Write v h) = Some (unat h)"
| "push_ticket (Push_Publish h) = Some (unat h)"
| "push_ticket _ = None"

fun pop_ticket :: "'a ring_pc \<Rightarrow> nat option" where
  "pop_ticket (Pop_Take t) = Some (unat t)"
| "pop_ticket (Pop_Release t v) = Some (unat t)"
| "pop_ticket _ = None"

text \<open>What the program position of a thread says about the shared state.\<close>

fun pc_ok :: "nat \<Rightarrow> nat \<Rightarrow> nat \<Rightarrow> (nat \<Rightarrow> nat) \<Rightarrow> (nat \<Rightarrow> 'a option) \<Rightarrow> 'a list \<Rightarrow> 'a ring_pc \<Rightarrow> bool" where
  "pc_ok c H T sq vl hs (Push_Check v h) \<longleftrightarrow> unat h \<le> H"
| "pc_ok c H T sq vl hs (Push_Cas v h) \<longleftrightarrow> unat h \<le> H \<and> (unat h = H \<longrightarrow> sq (H mod c) = H)"
| "pc_ok c H T sq vl hs (Push_Write v h) \<longleftrightarrow> unat h < H \<and> hs ! unat h = v \<and>
     sq (unat h mod c) = unat h \<and> vl (unat h mod c) = None"
| "pc_ok c H T sq vl hs (Push_Publish h) \<longleftrightarrow> unat h < H \<and>
     sq (unat h mod c) = unat h \<and> vl (unat h mod c) = Some (hs ! unat h)"
| "pc_ok c H T sq vl hs (Pop_Check t) \<longleftrightarrow> unat t \<le> T"
| "pc_ok c H T sq vl hs (Pop_Cas t) \<longleftrightarrow> unat t \<le> T \<and> (unat t = T \<longrightarrow> sq (T mod c) = Suc T)"
| "pc_ok c H T sq vl hs (Pop_Take t) \<longleftrightarrow> unat t < T \<and>
     sq (unat t mod c) = Suc (unat t) \<and> vl (unat t mod c) = Some (hs ! unat t)"
| "pc_ok c H T sq vl hs (Pop_Release t v) \<longleftrightarrow> unat t < T \<and> v = hs ! unat t \<and>
     sq (unat t mod c) = Suc (unat t) \<and> vl (unat t mod c) = None"
| "pc_ok c H T sq vl hs pc \<longleftrightarrow> True"

text \<open>The life of slot \<open>i\<close> at its current ticket \<open>h\<close>: free, claimed by a producer, full, claimed by a consumer.\<close>

definition slot_ok :: "nat \<Rightarrow> nat \<Rightarrow> nat \<Rightarrow> (nat \<Rightarrow> nat) \<Rightarrow> (nat \<Rightarrow> 'a option) \<Rightarrow> 'a list \<Rightarrow> (nat \<Rightarrow> 'a ring_pc) \<Rightarrow> nat \<Rightarrow> nat \<Rightarrow> bool" where
  "slot_ok c H T sq vl hs pcs i h \<longleftrightarrow>
     h mod c = i \<and> H \<le> h + c \<and> h < T + c \<and>
     (H \<le> h \<and> sq i = h \<and> vl i = None \<or>
      T \<le> h \<and> h < H \<and> sq i = h \<and> (\<exists>j. push_ticket (pcs j) = Some h) \<or>
      T \<le> h \<and> h < H \<and> sq i = Suc h \<and> vl i = Some (hs ! h) \<or>
      h < T \<and> sq i = Suc h \<and> (\<exists>j. pop_ticket (pcs j) = Some h))"

definition tickets_distinct :: "('p \<Rightarrow> nat option) \<Rightarrow> (nat \<Rightarrow> 'p) \<Rightarrow> bool" where
  "tickets_distinct f pcs \<longleftrightarrow> (\<forall>i j h. f (pcs i) = Some h \<longrightarrow> f (pcs j) = Some h \<longrightarrow> i = j)"

definition out_ok :: "nat \<Rightarrow> 'a list \<Rightarrow> (nat \<Rightarrow> 'a ring_pc) \<Rightarrow> (nat \<times> 'a) list \<Rightarrow> bool" where
  "out_ok T hs pcs out \<longleftrightarrow>
     distinct (map fst out) \<and>
     (\<forall>p \<in> set out. fst p < T \<and> snd p = hs ! fst p \<and> (\<forall>j. pop_ticket (pcs j) \<noteq> Some (fst p))) \<and>
     (\<forall>t < T. t \<in> fst ` set out \<or> (\<exists>j. pop_ticket (pcs j) = Some t))"

definition ring_nat :: "nat \<Rightarrow> nat \<Rightarrow> nat \<Rightarrow> (nat \<Rightarrow> nat) \<Rightarrow> (nat \<Rightarrow> 'a option) \<Rightarrow> 'a list \<Rightarrow> (nat \<Rightarrow> 'a ring_pc) \<Rightarrow> (nat \<times> 'a) list \<Rightarrow> bool" where
  "ring_nat c H T sq vl hs pcs out \<longleftrightarrow>
     2 \<le> c \<and> H = length hs \<and> T \<le> H \<and>
     (\<forall>i < c. \<exists>h. slot_ok c H T sq vl hs pcs i h) \<and>
     (\<forall>j. pc_ok c H T sq vl hs (pcs j)) \<and>
     tickets_distinct push_ticket pcs \<and> tickets_distinct pop_ticket pcs \<and> out_ok T hs pcs out"

lemma ring_natD:
  assumes "ring_nat c H T sq vl hs pcs out"
  shows "2 \<le> c" "H = length hs" "T \<le> H" "\<And>i. i < c \<Longrightarrow> \<exists>h. slot_ok c H T sq vl hs pcs i h"
    "\<And>j. pc_ok c H T sq vl hs (pcs j)" "tickets_distinct push_ticket pcs" "tickets_distinct pop_ticket pcs"
    "out_ok T hs pcs out"
  using assms unfolding ring_nat_def by blast+

lemma ring_natI:
  assumes "2 \<le> c" "H = length hs" "T \<le> H" "\<And>i. i < c \<Longrightarrow> \<exists>h. slot_ok c H T sq vl hs pcs i h"
    "\<And>j. pc_ok c H T sq vl hs (pcs j)" "tickets_distinct push_ticket pcs" "tickets_distinct pop_ticket pcs"
    "out_ok T hs pcs out"
  shows "ring_nat c H T sq vl hs pcs out"
  using assms unfolding ring_nat_def by blast

section \<open>Preservation in natural numbers\<close>

lemma Suc_mod_neq:
  fixes c h :: nat
  assumes "2 \<le> c"
  shows "Suc h mod c \<noteq> h mod c"
  using assms by (simp add: mod_Suc)

text \<open>The sequence number determines the current ticket of a slot.\<close>

lemma slot_ticket:
  assumes "slot_ok c H T sq vl hs pcs (x mod c) h" "2 \<le> c" "sq (x mod c) = x \<or> sq (x mod c) = Suc x"
  shows "h = x"
proof -
  have "h mod c = x mod c" "sq (x mod c) = h \<or> sq (x mod c) = Suc h" using assms(1) by (auto simp: slot_ok_def)
  with assms(3) Suc_mod_neq [OF assms(2), of x] Suc_mod_neq [OF assms(2), of h] show ?thesis by auto
qed

lemma ring_nat_slot:
  assumes "ring_nat c H T sq vl hs pcs out" "sq (x mod c) = x \<or> sq (x mod c) = Suc x"
  shows "slot_ok c H T sq vl hs pcs (x mod c) x"
proof -
  have c: "2 \<le> c" using assms(1) by (simp add: ring_nat_def)
  then have "x mod c < c" by simp
  then obtain h where h: "slot_ok c H T sq vl hs pcs (x mod c) h" using assms(1) unfolding ring_nat_def by blast
  with slot_ticket [OF h c assms(2)] show ?thesis by simp
qed

text \<open>A step that changes only the position of one thread, without a ticket before and after.\<close>

lemma ring_nat_pc:
  assumes "ring_nat c H T sq vl hs pcs out" "pc_ok c H T sq vl hs pc"
    "push_ticket pc = push_ticket (pcs i)" "pop_ticket pc = pop_ticket (pcs i)"
  shows "ring_nat c H T sq vl hs (pcs(i := pc)) out"
proof -
  have t: "push_ticket ((pcs(i := pc)) j) = push_ticket (pcs j)" "pop_ticket ((pcs(i := pc)) j) = pop_ticket (pcs j)" for j
    using assms(3,4) by simp_all
  have "slot_ok c H T sq vl hs (pcs(i := pc)) k h = slot_ok c H T sq vl hs pcs k h" for k h
    by (simp only: slot_ok_def t)
  moreover have "tickets_distinct push_ticket (pcs(i := pc)) = tickets_distinct push_ticket pcs"
    "tickets_distinct pop_ticket (pcs(i := pc)) = tickets_distinct pop_ticket pcs"
    by (simp_all only: tickets_distinct_def t)
  moreover have "out_ok T hs (pcs(i := pc)) out = out_ok T hs pcs out" by (simp only: out_ok_def t)
  moreover have "pc_ok c H T sq vl hs ((pcs(i := pc)) j)" for j using ring_natD(5) [OF assms(1)] assms(2) by simp
  ultimately show ?thesis using ring_natD [OF assms(1)] by (intro ring_natI) blast+
qed

lemma tickets_distinct_new:
  assumes "tickets_distinct f pcs" "\<And>j h. f (pcs j) = Some h \<Longrightarrow> f pc \<noteq> Some h"
  shows "tickets_distinct f (pcs(i := pc))"
  using assms unfolding tickets_distinct_def by (metis fun_upd_apply)

lemma tickets_distinct_same:
  assumes "tickets_distinct f pcs" "f pc = f (pcs i) \<or> f pc = None"
  shows "tickets_distinct f (pcs(i := pc))"
  using assms unfolding tickets_distinct_def by (metis fun_upd_apply option.distinct(1))

text \<open>Tickets in flight are below the counters.\<close>

lemma push_ticket_less: "pc_ok c H T sq vl hs pc \<Longrightarrow> push_ticket pc = Some h \<Longrightarrow> h < H \<and> sq (h mod c) = h"
  by (cases pc) auto

lemma pop_ticket_less: "pc_ok c H T sq vl hs pc \<Longrightarrow> pop_ticket pc = Some h \<Longrightarrow> h < T \<and> sq (h mod c) = Suc h"
  by (cases pc) auto

lemma mod_neq: "x mod c \<noteq> y mod c \<Longrightarrow> x \<noteq> y"
  by blast

text \<open>A slot that a step leaves alone keeps its ticket.\<close>

lemma slot_moved:
  assumes ok: "slot_ok c H T sq vl hs pcs k h" and k: "sq' k = sq k" "vl' k = vl k"
    and push: "\<And>j. push_ticket (pcs j) = Some h \<Longrightarrow> push_ticket (pcs' j) = Some h"
    and pop: "\<And>j. pop_ticket (pcs j) = Some h \<Longrightarrow> pop_ticket (pcs' j) = Some h"
    and b: "H' \<le> h + c" "T \<le> T'" "h < H \<longleftrightarrow> h < H'" "h < T \<longleftrightarrow> h < T'" "h < H \<Longrightarrow> hs' ! h = hs ! h"
  shows "slot_ok c H' T' sq' vl' hs' pcs' k h"
proof -
  have p: "\<exists>j. push_ticket (pcs j) = Some h \<Longrightarrow> \<exists>j. push_ticket (pcs' j) = Some h"
    "\<exists>j. pop_ticket (pcs j) = Some h \<Longrightarrow> \<exists>j. pop_ticket (pcs' j) = Some h"
    using push pop by blast+
  have e: "H \<le> h \<longleftrightarrow> H' \<le> h" "T \<le> h \<longleftrightarrow> T' \<le> h" using b(3,4) by linarith+
  have h: "h mod c = k" "h < T' + c" using ok b(2) by (auto simp: slot_ok_def)
  have "H \<le> h \<and> sq k = h \<and> vl k = None \<or>
      T \<le> h \<and> h < H \<and> sq k = h \<and> (\<exists>j. push_ticket (pcs j) = Some h) \<or>
      T \<le> h \<and> h < H \<and> sq k = Suc h \<and> vl k = Some (hs ! h) \<or>
      h < T \<and> sq k = Suc h \<and> (\<exists>j. pop_ticket (pcs j) = Some h)"
    using ok unfolding slot_ok_def by blast
  then have "H' \<le> h \<and> sq k = h \<and> vl k = None \<or>
      T' \<le> h \<and> h < H' \<and> sq k = h \<and> (\<exists>j. push_ticket (pcs' j) = Some h) \<or>
      T' \<le> h \<and> h < H' \<and> sq k = Suc h \<and> vl k = Some (hs' ! h) \<or>
      h < T' \<and> sq k = Suc h \<and> (\<exists>j. pop_ticket (pcs' j) = Some h)"
    using p b(3-5) e by (elim disjE conjE) simp_all
  with h b(1) show ?thesis unfolding slot_ok_def k by blast
qed

lemma slot_other:
  assumes "slot_ok c H T sq vl hs pcs k h" "sq' k = sq k" "vl' k = vl k"
    and "\<And>j. push_ticket (pcs j) = Some h \<Longrightarrow> push_ticket (pcs' j) = Some h"
    and "\<And>j. pop_ticket (pcs j) = Some h \<Longrightarrow> pop_ticket (pcs' j) = Some h"
  shows "slot_ok c H T sq' vl' hs pcs' k h"
proof -
  have "H \<le> h + c" using assms(1) by (simp add: slot_ok_def)
  then show ?thesis
    by - (rule slot_moved [OF assms(1)], use assms(2-5) in simp_all)
qed

lemma ring_nat_claim_push:
  assumes inv: "ring_nat c H T sq vl hs pcs out" and pc: "pcs i = Push_Cas v w" "unat w = H"
  shows "ring_nat c (Suc H) T sq vl (hs @ [v]) (pcs(i := Push_Write v w)) out"
proof -
  note r = ring_natD [OF inv]
  note H = r(2,3) and ok = r(5)
  have seq: "sq (H mod c) = H" using ok [of i] pc by simp
  have sH: "slot_ok c H T sq vl hs pcs (H mod c) H" using ring_nat_slot [OF inv] seq by blast
  have slots: "\<exists>h. slot_ok c (Suc H) T sq vl (hs @ [v]) (pcs(i := Push_Write v w)) k h" if k: "k < c" for k
  proof (cases "k = H mod c")
    case True
    have "\<exists>j. push_ticket ((pcs(i := Push_Write v w)) j) = Some H" using pc(2) by (intro exI [of _ i]) simp
    with sH seq H(2) True show ?thesis by (intro exI [of _ H]) (auto simp: slot_ok_def)
  next
    case False
    obtain h where h: "slot_ok c H T sq vl hs pcs k h" using r(4) [OF k] by blast
    then have ne: "h mod c \<noteq> H mod c" using False by (simp add: slot_ok_def)
    then have "h \<noteq> H" "h + c \<noteq> H" by auto
    moreover have "H \<le> h + c" using h by (simp add: slot_ok_def)
    ultimately have b: "Suc H \<le> h + c" "h < H \<longleftrightarrow> h < Suc H" by linarith+
    have "slot_ok c (Suc H) T sq vl (hs @ [v]) (pcs(i := Push_Write v w)) k h"
      by (rule slot_moved [OF h]) (use pc H b in \<open>auto simp: nth_append\<close>)
    then show ?thesis ..
  qed
  have pcs: "pc_ok c (Suc H) T sq vl (hs @ [v]) ((pcs(i := Push_Write v w)) j)" for j
  proof (cases "j = i")
    case True
    have "vl (H mod c) = None" using sH H(2) by (auto simp: slot_ok_def)
    with True seq pc(2) H(1) show ?thesis by simp
  next
    case False
    with ok [of j] H show ?thesis by (cases "pcs j") (auto simp: nth_append)
  qed
  have d: "tickets_distinct push_ticket (pcs(i := Push_Write v w))"
  proof (rule tickets_distinct_new [OF r(6)])
    fix j h assume "push_ticket (pcs j) = Some h"
    then have "h < H" using push_ticket_less [OF ok [of j]] by simp
    with pc(2) show "push_ticket (Push_Write v w) \<noteq> Some h" by simp
  qed
  have d': "tickets_distinct pop_ticket (pcs(i := Push_Write v w))"
    using r(7) by (intro tickets_distinct_same) auto
  have "pop_ticket ((pcs(i := Push_Write v w)) j) = pop_ticket (pcs j)" for j using pc by simp
  then have "out_ok T (hs @ [v]) (pcs(i := Push_Write v w)) out"
    using r(8) H unfolding out_ok_def by (auto simp: nth_append)
  with slots pcs d d' r(1) H show ?thesis by (intro ring_natI) simp_all
qed

text \<open>Two threads at the same slot with different tickets do not exist.\<close>

lemma slot_of_push:
  assumes "ring_nat c H T sq vl hs pcs out" "push_ticket (pcs i) = Some h" "j \<noteq> i"
  shows "push_ticket (pcs j) = Some h' \<Longrightarrow> h' mod c \<noteq> h mod c" "pop_ticket (pcs j) = Some h' \<Longrightarrow> h' mod c \<noteq> h mod c"
proof -
  note r = ring_natD [OF assms(1)]
  have s: "sq (h mod c) = h" using push_ticket_less [OF r(5) assms(2)] by simp
  show "h' mod c \<noteq> h mod c" if p: "push_ticket (pcs j) = Some h'"
    using push_ticket_less [OF r(5) p] s r(6) assms(2,3) p unfolding tickets_distinct_def by metis
  show "h' mod c \<noteq> h mod c" if p: "pop_ticket (pcs j) = Some h'"
    using pop_ticket_less [OF r(5) p] s Suc_mod_neq [OF r(1), of h'] by metis
qed

lemma slot_of_pop:
  assumes "ring_nat c H T sq vl hs pcs out" "pop_ticket (pcs i) = Some h" "j \<noteq> i"
  shows "push_ticket (pcs j) = Some h' \<Longrightarrow> h' mod c \<noteq> h mod c" "pop_ticket (pcs j) = Some h' \<Longrightarrow> h' mod c \<noteq> h mod c"
proof -
  note r = ring_natD [OF assms(1)]
  have s: "sq (h mod c) = Suc h" using pop_ticket_less [OF r(5) assms(2)] by simp
  show "h' mod c \<noteq> h mod c" if p: "push_ticket (pcs j) = Some h'"
    using push_ticket_less [OF r(5) p] s Suc_mod_neq [OF r(1), of h] by metis
  show "h' mod c \<noteq> h mod c" if p: "pop_ticket (pcs j) = Some h'"
    using pop_ticket_less [OF r(5) p] s r(7) assms(2,3) p unfolding tickets_distinct_def by (metis Suc_inject)
qed

text \<open>
  A thread with a ticket changes its own slot. Other threads do not notice: threads with a ticket are at other slots,
  and a thread about to claim relies on another sequence number.
\<close>

lemma pc_ok_other:
  assumes "pc_ok c H T sq vl hs pc" "2 \<le> c"
    and "\<And>h. push_ticket pc = Some h \<Longrightarrow> h mod c \<noteq> k" "\<And>h. pop_ticket pc = Some h \<Longrightarrow> h mod c \<noteq> k"
    and "\<And>x. sq k = x \<Longrightarrow> q = x \<or> (H mod c = k \<longrightarrow> x \<noteq> H) \<and> (T mod c = k \<longrightarrow> x \<noteq> Suc T)"
  shows "pc_ok c H T (sq(k := q)) (vl(k := u)) hs pc"
  using assms by (cases pc) auto

lemma ring_nat_write:
  assumes inv: "ring_nat c H T sq vl hs pcs out" and pc: "pcs i = Push_Write v w"
  shows "ring_nat c H T sq (vl(unat w mod c := Some v)) hs (pcs(i := Push_Publish w)) out"
proof -
  note r = ring_natD [OF inv]
  let ?h = "unat w" and ?pcs = "pcs(i := Push_Publish w)"
  have t: "push_ticket (?pcs j) = push_ticket (pcs j)" "pop_ticket (?pcs j) = pop_ticket (pcs j)" for j
    using pc by simp_all
  have own: "?h < H" "hs ! ?h = v" "sq (?h mod c) = ?h" using r(5) [of i] pc by auto
  have tk: "push_ticket (pcs i) = Some ?h" using pc by simp
  have slots: "\<exists>h. slot_ok c H T sq (vl(?h mod c := Some v)) hs ?pcs k h" if k: "k < c" for k
  proof -
    obtain h where h: "slot_ok c H T sq vl hs pcs k h" using r(4) [OF k] by blast
    show ?thesis
    proof (cases "k = ?h mod c")
      case True
      then have "h = ?h" using slot_ticket [OF h [unfolded True] r(1)] own(3) by simp
      with h True own tk show ?thesis unfolding slot_ok_def by (intro exI [of _ h]) (auto simp: t)
    next
      case False
      have "slot_ok c H T sq (vl(?h mod c := Some v)) hs ?pcs k h"
        by (rule slot_other [OF h]) (use False t in simp_all)
      then show ?thesis ..
    qed
  qed
  have pcs: "pc_ok c H T sq (vl(?h mod c := Some v)) hs (?pcs j)" for j
  proof (cases "j = i")
    case True
    with own show ?thesis by simp
  next
    case False
    have "pc_ok c H T (sq(?h mod c := sq (?h mod c))) (vl(?h mod c := Some v)) hs (pcs j)"
      by (rule pc_ok_other [OF r(5) r(1)]) (use slot_of_push [OF inv tk False] in auto)
    with False show ?thesis by simp
  qed
  have "tickets_distinct push_ticket ?pcs" "tickets_distinct pop_ticket ?pcs" "out_ok T hs ?pcs out"
    using r(6-8) unfolding tickets_distinct_def out_ok_def t by blast+
  with slots pcs r(1-3) show ?thesis by (intro ring_natI) simp_all
qed

lemma ring_nat_publish:
  assumes inv: "ring_nat c H T sq vl hs pcs out" and pc: "pcs i = Push_Publish w"
  shows "ring_nat c H T (sq(unat w mod c := Suc (unat w))) vl hs (pcs(i := Ring_Idle)) out"
proof -
  note r = ring_natD [OF inv]
  let ?h = "unat w" and ?pcs = "pcs(i := Ring_Idle)"
  have own: "?h < H" "sq (?h mod c) = ?h" "vl (?h mod c) = Some (hs ! ?h)" using r(5) [of i] pc by auto
  have tk: "push_ticket (pcs i) = Some ?h" using pc by simp
  have t: "pop_ticket (?pcs j) = pop_ticket (pcs j)" for j using pc by simp
  have so: "slot_ok c H T sq vl hs pcs (?h mod c) ?h" using ring_nat_slot [OF inv] own(2) by blast
  have slots: "\<exists>h. slot_ok c H T (sq(?h mod c := Suc ?h)) vl hs ?pcs k h" if k: "k < c" for k
  proof (cases "k = ?h mod c")
    case True
    with so own show ?thesis unfolding slot_ok_def by (intro exI [of _ ?h]) auto
  next
    case False
    obtain h where h: "slot_ok c H T sq vl hs pcs k h" using r(4) [OF k] by blast
    then have "h \<noteq> ?h" using False by (auto simp: slot_ok_def)
    then have p: "push_ticket (pcs j) = Some h \<Longrightarrow> push_ticket (?pcs j) = Some h" for j using tk by auto
    have "slot_ok c H T (sq(?h mod c := Suc ?h)) vl hs ?pcs k h"
      by (rule slot_other [OF h]) (use False t p in simp_all)
    then show ?thesis ..
  qed
  have pcs: "pc_ok c H T (sq(?h mod c := Suc ?h)) vl hs (?pcs j)" for j
  proof (cases "j = i")
    case True
    then show ?thesis by simp
  next
    case False
    have "pc_ok c H T (sq(?h mod c := Suc ?h)) (vl(?h mod c := vl (?h mod c))) hs (pcs j)"
      by (rule pc_ok_other [OF r(5) r(1)])
         (use slot_of_push [OF inv tk False] own Suc_mod_neq [OF r(1), of T] in auto)
    with False show ?thesis by simp
  qed
  have "out_ok T hs ?pcs out" using r(8) unfolding out_ok_def t by blast
  moreover have "tickets_distinct push_ticket ?pcs" "tickets_distinct pop_ticket ?pcs"
    using tickets_distinct_same [OF r(6)] tickets_distinct_same [OF r(7)] by auto
  ultimately show ?thesis using slots pcs r(1-3) by (intro ring_natI) simp_all
qed

lemma ring_nat_claim_pop:
  assumes inv: "ring_nat c H T sq vl hs pcs out" and pc: "pcs i = Pop_Cas w" "unat w = T"
  shows "ring_nat c H (Suc T) sq vl hs (pcs(i := Pop_Take w)) out"
proof -
  note r = ring_natD [OF inv]
  let ?pcs = "pcs(i := Pop_Take w)"
  have seq: "sq (T mod c) = Suc T" using r(5) [of i] pc by simp
  have sT: "slot_ok c H T sq vl hs pcs (T mod c) T" using ring_nat_slot [OF inv] seq by blast
  then have full: "T < H" "vl (T mod c) = Some (hs ! T)" using seq by (auto simp: slot_ok_def)
  have slots: "\<exists>h. slot_ok c H (Suc T) sq vl hs ?pcs k h" if k: "k < c" for k
  proof (cases "k = T mod c")
    case True
    have "\<exists>j. pop_ticket (?pcs j) = Some T" using pc(2) by (intro exI [of _ i]) simp
    with sT seq True show ?thesis by (intro exI [of _ T]) (auto simp: slot_ok_def)
  next
    case False
    obtain h where h: "slot_ok c H T sq vl hs pcs k h" using r(4) [OF k] by blast
    then have "h \<noteq> T" using False by (auto simp: slot_ok_def)
    then have b: "T \<le> Suc T" "h < T \<longleftrightarrow> h < Suc T" by linarith+
    have "H \<le> h + c" using h by (simp add: slot_ok_def)
    then have "slot_ok c H (Suc T) sq vl hs ?pcs k h"
      by - (rule slot_moved [OF h], use pc b in auto)
    then show ?thesis ..
  qed
  have pcs: "pc_ok c H (Suc T) sq vl hs (?pcs j)" for j
  proof (cases "j = i")
    case True
    with seq pc(2) full show ?thesis by simp
  next
    case False
    with r(5) [of j] show ?thesis by (cases "pcs j") auto
  qed
  have d: "tickets_distinct pop_ticket ?pcs"
  proof (rule tickets_distinct_new [OF r(7)])
    fix j h assume "pop_ticket (pcs j) = Some h"
    then have "h < T" using pop_ticket_less [OF r(5) [of j]] by simp
    with pc(2) show "pop_ticket (Pop_Take w) \<noteq> Some h" by simp
  qed
  have d': "tickets_distinct push_ticket ?pcs"
    using r(6) by (intro tickets_distinct_same) auto
  have "out_ok (Suc T) hs ?pcs out"
    unfolding out_ok_def
  proof (intro conjI ballI allI impI)
    fix p j assume p: "p \<in> set out"
    then have "fst p < T" "pop_ticket (pcs j) \<noteq> Some (fst p)" using r(8) by (auto simp: out_ok_def)
    with pc(2) show "pop_ticket (?pcs j) \<noteq> Some (fst p)" by auto
  next
    fix t assume t: "t < Suc T"
    have "pop_ticket (pcs j) = Some t \<Longrightarrow> pop_ticket (?pcs j) = Some t" for j using pc by auto
    moreover have "pop_ticket (?pcs i) = Some T" using pc(2) by simp
    ultimately show "t \<in> fst ` set out \<or> (\<exists>j. pop_ticket (?pcs j) = Some t)"
      using r(8) t unfolding out_ok_def by (metis less_Suc_eq)
  qed (use r(8) in \<open>auto simp: out_ok_def\<close>)
  with slots pcs d d' r(1,2) full show ?thesis by (intro ring_natI) simp_all
qed

lemma ring_nat_take:
  assumes inv: "ring_nat c H T sq vl hs pcs out" and pc: "pcs i = Pop_Take w"
  shows "ring_nat c H T sq (vl(unat w mod c := None)) hs (pcs(i := Pop_Release w (hs ! unat w))) out"
proof -
  note r = ring_natD [OF inv]
  let ?h = "unat w" and ?pcs = "pcs(i := Pop_Release w (hs ! unat w))"
  have t: "push_ticket (?pcs j) = push_ticket (pcs j)" "pop_ticket (?pcs j) = pop_ticket (pcs j)" for j
    using pc by simp_all
  have own: "?h < T" "sq (?h mod c) = Suc ?h" using r(5) [of i] pc by auto
  have tk: "pop_ticket (pcs i) = Some ?h" using pc by simp
  have slots: "\<exists>h. slot_ok c H T sq (vl(?h mod c := None)) hs ?pcs k h" if k: "k < c" for k
  proof -
    obtain h where h: "slot_ok c H T sq vl hs pcs k h" using r(4) [OF k] by blast
    show ?thesis
    proof (cases "k = ?h mod c")
      case True
      then have "h = ?h" using slot_ticket [OF h [unfolded True] r(1)] own(2) by simp
      with h True own tk show ?thesis unfolding slot_ok_def by (intro exI [of _ h]) (auto simp: t)
    next
      case False
      have "slot_ok c H T sq (vl(?h mod c := None)) hs ?pcs k h"
        by (rule slot_other [OF h]) (use False t in simp_all)
      then show ?thesis ..
    qed
  qed
  have pcs: "pc_ok c H T sq (vl(?h mod c := None)) hs (?pcs j)" for j
  proof (cases "j = i")
    case True
    with own show ?thesis by simp
  next
    case False
    have "pc_ok c H T (sq(?h mod c := sq (?h mod c))) (vl(?h mod c := None)) hs (pcs j)"
      by (rule pc_ok_other [OF r(5) r(1)]) (use slot_of_pop [OF inv tk False] in auto)
    with False show ?thesis by simp
  qed
  have "tickets_distinct push_ticket ?pcs" "tickets_distinct pop_ticket ?pcs" "out_ok T hs ?pcs out"
    using r(6-8) unfolding tickets_distinct_def out_ok_def t by blast+
  with slots pcs r(1-3) show ?thesis by (intro ring_natI) simp_all
qed

lemma ring_nat_release:
  assumes inv: "ring_nat c H T sq vl hs pcs out" and pc: "pcs i = Pop_Release w v"
  shows "ring_nat c H T (sq(unat w mod c := unat w + c)) vl hs (pcs(i := Ring_Idle)) (out @ [(unat w, v)])"
proof -
  note r = ring_natD [OF inv]
  let ?h = "unat w" and ?pcs = "pcs(i := Ring_Idle)"
  have own: "?h < T" "sq (?h mod c) = Suc ?h" "vl (?h mod c) = None" "v = hs ! ?h" using r(5) [of i] pc by auto
  have tk: "pop_ticket (pcs i) = Some ?h" using pc by simp
  have t: "push_ticket (?pcs j) = push_ticket (pcs j)" for j using pc by simp
  have so: "slot_ok c H T sq vl hs pcs (?h mod c) ?h" using ring_nat_slot [OF inv] own(2) by blast
  have other: "pop_ticket (?pcs j) = Some h \<longleftrightarrow> h \<noteq> ?h \<and> pop_ticket (pcs j) = Some h" for j h
    using r(7) tk unfolding tickets_distinct_def by (cases "j = i") auto
  have slots: "\<exists>h. slot_ok c H T (sq(?h mod c := ?h + c)) vl hs ?pcs k h" if k: "k < c" for k
  proof (cases "k = ?h mod c")
    case True
    with so own show ?thesis unfolding slot_ok_def by (intro exI [of _ "?h + c"]) auto
  next
    case False
    obtain h where h: "slot_ok c H T sq vl hs pcs k h" using r(4) [OF k] by blast
    then have "h \<noteq> ?h" using False by (auto simp: slot_ok_def)
    then have "slot_ok c H T (sq(?h mod c := ?h + c)) vl hs ?pcs k h"
      by - (rule slot_other [OF h], use False t other in simp_all)
    then show ?thesis ..
  qed
  have pcs: "pc_ok c H T (sq(?h mod c := ?h + c)) vl hs (?pcs j)" for j
  proof (cases "j = i")
    case True
    then show ?thesis by simp
  next
    case False
    have "pc_ok c H T (sq(?h mod c := ?h + c)) (vl(?h mod c := vl (?h mod c))) hs (pcs j)"
      by (rule pc_ok_other [OF r(5) r(1)])
         (use slot_of_pop [OF inv tk False] own Suc_mod_neq [OF r(1), of ?h] in auto)
    with False show ?thesis by simp
  qed
  have "out_ok T hs ?pcs (out @ [(?h, v)])"
  proof -
    have "?h \<notin> fst ` set out" using r(8) tk unfolding out_ok_def by force
    with r(8) own other show ?thesis unfolding out_ok_def by auto
  qed
  moreover have "tickets_distinct push_ticket ?pcs" "tickets_distinct pop_ticket ?pcs"
    using tickets_distinct_same [OF r(6)] tickets_distinct_same [OF r(7)] by auto
  ultimately show ?thesis using slots pcs r(1-3) by (intro ring_natI) simp_all
qed

text \<open>When the slot at a counter refuses, and the bound on the tickets in flight.\<close>

lemma congruent_near:
  fixes c h x :: nat
  assumes "h mod c = x mod c" "h < x" shows "h + c \<le> x"
proof -
  have "c dvd x - h" using assms by (metis less_or_eq_imp_le mod_eq_dvd_iff_nat)
  with assms(2) have "c \<le> x - h" by (intro dvd_imp_le) simp_all
  with assms(2) show ?thesis by simp
qed

lemma ring_nat_bound:
  assumes inv: "ring_nat c H T sq vl hs pcs out" shows "H \<le> T + c"
proof -
  note r = ring_natD [OF inv]
  have "T mod c < c" using r(1) by simp
  then obtain h where h: "slot_ok c H T sq vl hs pcs (T mod c) h" using r(4) by blast
  then have "h mod c = T mod c" "H \<le> h + c" "h < T + c" by (simp_all add: slot_ok_def)
  moreover then have "h \<le> T" using congruent_near [of T c h] by (cases "T < h") auto
  ultimately show ?thesis by simp
qed

lemma ring_nat_near:
  assumes inv: "ring_nat c H T sq vl hs pcs out"
  obtains x where "slot_ok c H T sq vl hs pcs (y mod c) x" "x mod c = y mod c" "H \<le> x + c" "x < T + c"
    "sq (y mod c) = x \<or> sq (y mod c) = Suc x"
proof -
  have "y mod c < c" using ring_natD(1) [OF inv] by simp
  then obtain x where "slot_ok c H T sq vl hs pcs (y mod c) x" using ring_natD(4) [OF inv] by blast
  moreover from this have "x mod c = y mod c" "H \<le> x + c" "x < T + c" "sq (y mod c) = x \<or> sq (y mod c) = Suc x"
    unfolding slot_ok_def by blast+
  ultimately show thesis by (rule that)
qed

lemma ring_nat_head_seq:
  assumes inv: "ring_nat c H T sq vl hs pcs out"
  shows "sq (H mod c) \<le> H"
proof -
  note r = ring_natD [OF inv]
  obtain x where x: "slot_ok c H T sq vl hs pcs (H mod c) x" "x mod c = H mod c" "x < T + c"
      "sq (H mod c) = x \<or> sq (H mod c) = Suc x"
    using ring_nat_near [OF inv, of H] by blast
  consider "x < H" | "x = H" | "H < x" by linarith
  then show ?thesis
  proof cases
    case 1
    then have "x + c \<le> H" by (rule congruent_near [OF x(2)])
    with x(4) r(1) show ?thesis by linarith
  next
    case 2
    with x(1) r(3) show ?thesis by (simp add: slot_ok_def)
  next
    case 3
    then have "H + c \<le> x" by (rule congruent_near [OF x(2) [symmetric]])
    with x(3) r(3) show ?thesis by linarith
  qed
qed

lemma ring_nat_released:
  assumes inv: "ring_nat c H T sq vl hs pcs out" and out: "t \<in> fst ` set out"
  shows "sq (t mod c) \<noteq> t \<and> sq (t mod c) \<noteq> Suc t"
proof (rule ccontr)
  note r = ring_natD [OF inv]
  assume "\<not> (sq (t mod c) \<noteq> t \<and> sq (t mod c) \<noteq> Suc t)"
  then have x: "slot_ok c H T sq vl hs pcs (t mod c) t" using ring_nat_slot [OF inv] by blast
  have "t < T" "\<nexists>j. pop_ticket (pcs j) = Some t" using r(8) out by (auto simp: out_ok_def)
  moreover from this r(3) have "\<not> H \<le> t" "\<not> T \<le> t" by linarith+
  ultimately show False using x unfolding slot_ok_def by blast
qed

lemma ring_nat_push_seq:
  assumes inv: "ring_nat c H T sq vl hs pcs out" and h: "h \<le> H"
  shows "sq (h mod c) < h \<longleftrightarrow> h = H \<and> c \<le> H \<and> H - c \<notin> fst ` set out"
proof
  assume less: "sq (h mod c) < h"
  obtain x where x: "x mod c = h mod c" "H \<le> x + c" "sq (h mod c) = x \<or> sq (h mod c) = Suc x"
    using ring_nat_near [OF inv, of h] by blast
  have "x < h" using x(3) less by linarith
  then have "x + c \<le> h" by (rule congruent_near [OF x(1)])
  with x(2) h have e: "h = H" "x = H - c" "c \<le> H" by linarith+
  have "x \<notin> fst ` set out" using ring_nat_released [OF inv, of x] x(1,3) by metis
  with e show "h = H \<and> c \<le> H \<and> H - c \<notin> fst ` set out" by simp
next
  note r = ring_natD [OF inv]
  assume a: "h = H \<and> c \<le> H \<and> H - c \<notin> fst ` set out"
  then have m: "(H - c) mod c = H mod c" by (metis le_add_diff_inverse2 mod_add_self2)
  show "sq (h mod c) < h"
  proof (rule ccontr)
    assume "\<not> sq (h mod c) < h"
    with a ring_nat_head_seq [OF inv] have q: "sq (H mod c) = H" by simp
    then have "slot_ok c H T sq vl hs pcs (H mod c) H" using ring_nat_slot [OF inv] by blast
    then have "H < T + c" unfolding slot_ok_def by blast
    with a have "H - c < T" by linarith
    then obtain j where "pop_ticket (pcs j) = Some (H - c)" using r(8) a unfolding out_ok_def by blast
    then have "sq (H mod c) = Suc (H - c)" using pop_ticket_less [OF r(5) [of j]] m by simp
    with q a r(1) show False by linarith
  qed
qed

lemma ring_nat_pop_seq:
  assumes inv: "ring_nat c H T sq vl hs pcs out" and t: "t \<le> T"
  shows "sq (t mod c) < Suc t \<longleftrightarrow> t = T \<and> (T = H \<or> (\<exists>j. push_ticket (pcs j) = Some T))"
proof
  note r = ring_natD [OF inv]
  assume less: "sq (t mod c) < Suc t"
  obtain x where x: "slot_ok c H T sq vl hs pcs (t mod c) x"
      and b: "x mod c = t mod c" "H \<le> x + c" "sq (t mod c) = x \<or> sq (t mod c) = Suc x"
    using ring_nat_near [OF inv, of t] by blast
  show "t = T \<and> (T = H \<or> (\<exists>j. push_ticket (pcs j) = Some T))"
  proof (cases "x = t")
    case True
    with x less t r(3) show ?thesis by (auto simp: slot_ok_def)
  next
    case False
    with b(3) less have "x < t" by linarith
    then have "x + c \<le> t" by (rule congruent_near [OF b(1)])
    with b(2) t r(3) show ?thesis by linarith
  qed
next
  note r = ring_natD [OF inv]
  assume a: "t = T \<and> (T = H \<or> (\<exists>j. push_ticket (pcs j) = Some T))"
  show "sq (t mod c) < Suc t"
  proof (cases "T = H")
    case True
    with a ring_nat_head_seq [OF inv] show ?thesis by simp
  next
    case False
    then obtain j where "push_ticket (pcs j) = Some T" using a by blast
    then have "sq (T mod c) = T" using push_ticket_less [OF r(5) [of j]] by simp
    with a show ?thesis by simp
  qed
qed

lemma ring_nat_seq_bound:
  assumes inv: "ring_nat c H T sq vl hs pcs out" and k: "k < c"
  shows "sq k \<le> T + c"
  using ring_natD(4) [OF inv k] by (auto simp: slot_ok_def)

text \<open>With no consumer between its claim and its return, the first \<open>T\<close> values were returned, each once.\<close>

lemma map_nth_upt_take: "n \<le> length xs \<Longrightarrow> map (nth xs) [0..<n] = take n xs"
  by (rule nth_equalityI) simp_all

lemma out_ok_mset:
  assumes o: "out_ok T hs pcs out" and T: "T \<le> length hs" and idle: "\<And>j. pop_ticket (pcs j) = None"
  shows "mset (map snd out) = mset (take T hs)"
proof -
  have d: "distinct (map fst out)" and v: "\<And>p. p \<in> set out \<Longrightarrow> fst p < T \<and> snd p = hs ! fst p"
    and s: "\<And>t. t < T \<Longrightarrow> t \<in> fst ` set out" using o idle unfolding out_ok_def by auto
  have "set (map fst out) = {0..<T}" using v s by fastforce
  then have "mset (map fst out) = mset [0..<T]"
    using d by (metis atLeastLessThan_upt distinct_upt set_eq_iff_mset_eq_distinct)
  then have "image_mset (nth hs) (mset (map fst out)) = image_mset (nth hs) (mset [0..<T])" by simp
  moreover have "map (nth hs) (map fst out) = map snd out" using v by simp
  moreover have "map (nth hs) [0..<T] = take T hs" using T by (simp add: map_nth_upt_take)
  ultimately show ?thesis by (metis mset_map)
qed

section \<open>The invariant of the machine\<close>

definition seq_of :: "'a ring \<Rightarrow> nat \<Rightarrow> nat" where
  "seq_of r i = unat (sl_seq (r_slots r ! i))"

definition val_of :: "'a ring \<Rightarrow> nat \<Rightarrow> 'a option" where
  "val_of r i = sl_val (r_slots r ! i)"

definition ring_shape :: "nat \<Rightarrow> 'a ring \<Rightarrow> bool" where
  "ring_shape c r \<longleftrightarrow> (\<exists>k. 1 \<le> k \<and> k \<le> 62 \<and> c = 2 ^ k) \<and>
     r_capacity r = of_nat c \<and> r_mask r = of_nat c - 1 \<and> length (r_slots r) = c"

definition ring_inv :: "nat \<Rightarrow> 'a ring_sys \<Rightarrow> bool" where
  "ring_inv c s \<longleftrightarrow>
     ring_shape c (rs_ring s) \<and> unat (r_head (rs_ring s)) = length (rs_hist s) \<and>
     ring_nat c (length (rs_hist s)) (unat (r_tail (rs_ring s))) (seq_of (rs_ring s)) (val_of (rs_ring s))
       (rs_hist s) (rs_pc s) (rs_out s)"

text \<open>
  The counters never wrap in the first \<open>2^62\<close> pushes, some 146 years at one per nanosecond; the
  invariant speaks about these.
\<close>

definition ring_safe :: "size_t \<Rightarrow> 'a ring_sys \<Rightarrow> bool" where
  "ring_safe n s \<longleftrightarrow> (unat n \<le> 2 ^ 62 \<and> length (rs_hist s) < 2 ^ 62 \<longrightarrow>
     ring_inv (unat (next_power_of_2 (max n 2))) s)"

lemma ring_shape_index:
  assumes "ring_shape c r" shows "ring_index r pos = unat pos mod c"
proof -
  obtain k where k: "c = 2 ^ k" "k \<le> 62" using assms by (auto simp: ring_shape_def)
  have "r_mask r = mask k" using assms k(1) by (simp add: ring_shape_def mask_eq_exp_minus_1)
  then have "ring_index r pos = unat (take_bit k pos)" by (simp add: ring_index_def take_bit_eq_mask)
  also have "\<dots> = take_bit k (unat pos)" using k(2) by (simp add: unsigned_take_bit_eq)
  finally show ?thesis by (simp add: k(1) take_bit_eq_mod)
qed

lemma ring_shape_bounds:
  assumes "ring_shape c r"
  shows "2 \<le> c" "c \<le> 2 ^ 62" "unat (r_capacity r) = c" "unat pos mod c < length (r_slots r)"
proof -
  obtain k where k: "c = 2 ^ k" "k \<le> 62" "1 \<le> k" using assms by (auto simp: ring_shape_def)
  show c2: "2 \<le> c" using k(3) power_increasing [OF k(3), of "2 :: nat"] by (simp add: k(1))
  show c62: "c \<le> 2 ^ 62" using k(2) unfolding k(1) by (intro power_increasing) simp_all
  have "of_nat c = r_capacity r" using assms by (simp add: ring_shape_def)
  moreover have "unat (of_nat c :: size_t) = c"
    using c62 by (simp add: unsigned_of_nat take_bit_nat_eq_self)
  ultimately show "unat (r_capacity r) = c" by simp
  show "unat pos mod c < length (r_slots r)" using assms c2 by (simp add: ring_shape_def)
qed

lemma ring_shape_set [simp]:
  "ring_shape c (set_slot_val p v r) = ring_shape c r" "ring_shape c (set_slot_seq p q r) = ring_shape c r"
  "ring_shape c (r\<lparr>r_head := h\<rparr>) = ring_shape c r" "ring_shape c (r\<lparr>r_tail := h\<rparr>) = ring_shape c r"
  by (simp_all add: ring_shape_def set_slot_val_def set_slot_seq_def)

lemma slots_set_val:
  assumes "ring_shape c r"
  shows "seq_of (set_slot_val p v r) = seq_of r" "val_of (set_slot_val p v r) = (val_of r)(unat p mod c := v)"
  using ring_shape_bounds(4) [OF assms, of p]
  by (auto simp: fun_eq_iff seq_of_def val_of_def set_slot_val_def ring_slot_at_def ring_shape_index [OF assms] nth_list_update)

lemma slots_set_seq:
  assumes "ring_shape c r"
  shows "seq_of (set_slot_seq p q r) = (seq_of r)(unat p mod c := unat q)" "val_of (set_slot_seq p q r) = val_of r"
  using ring_shape_bounds(4) [OF assms, of p]
  by (auto simp: fun_eq_iff seq_of_def val_of_def set_slot_seq_def ring_slot_at_def ring_shape_index [OF assms] nth_list_update)

lemma slots_counters [simp]:
  "seq_of (r\<lparr>r_head := h\<rparr>) = seq_of r" "val_of (r\<lparr>r_head := h\<rparr>) = val_of r"
  "seq_of (r\<lparr>r_tail := h\<rparr>) = seq_of r" "val_of (r\<lparr>r_tail := h\<rparr>) = val_of r"
  "r_head (set_slot_val p v r) = r_head r" "r_tail (set_slot_val p v r) = r_tail r"
  "r_head (set_slot_seq p q r) = r_head r" "r_tail (set_slot_seq p q r) = r_tail r"
  by (simp_all add: fun_eq_iff seq_of_def val_of_def set_slot_val_def set_slot_seq_def)

lemma sint_small:
  fixes w :: u64
  assumes "unat w < 2 ^ 63" shows "sint w = int (unat w)"
proof -
  have "\<not> bit w 63" using bit_below [OF assms] by blast
  then have "sint w = take_bit 63 (uint w)"
    by (simp add: sint_uint signed_take_bit_eq_if_positive bit_uint_iff)
  also have "\<dots> = int (take_bit 63 (unat w))" by (simp only: uint_nat take_bit_of_nat)
  finally show ?thesis using assms by (simp add: take_bit_nat_eq_self)
qed

lemma unat_Suc_small:
  fixes w :: u64
  assumes "unat w < 2 ^ 63" shows "unat (w + 1) = Suc (unat w)"
  using unat_add_small [of w 1] assms by simp

lemma ring_invD:
  assumes "ring_inv c s"
  shows "ring_shape c (rs_ring s)" "unat (r_head (rs_ring s)) = length (rs_hist s)"
    "ring_nat c (length (rs_hist s)) (unat (r_tail (rs_ring s))) (seq_of (rs_ring s)) (val_of (rs_ring s))
       (rs_hist s) (rs_pc s) (rs_out s)"
  using assms unfolding ring_inv_def by blast+

lemma ring_at:
  assumes "ring_shape c r"
  shows "unat (sl_seq (ring_slot_at r w)) = seq_of r (unat w mod c)" "sl_val (ring_slot_at r w) = val_of r (unat w mod c)"
  by (simp_all add: ring_slot_at_def seq_of_def val_of_def ring_shape_index [OF assms])

text \<open>The signed comparisons of the code compare the numbers.\<close>

lemma ring_verdicts:
  assumes inv: "ring_inv c s" and b: "length (rs_hist s) < 2 ^ 62" and w: "unat w \<le> length (rs_hist s)"
  defines "q \<equiv> seq_of (rs_ring s) (unat w mod c)"
  shows "sint (sl_seq (ring_slot_at (rs_ring s) w)) - sint w = int q - int (unat w)"
    "push_verdict (rs_ring s) w = verdict (int q - int (unat w))"
    "pop_verdict (rs_ring s) w = verdict (int q - int (Suc (unat w)))"
proof -
  note i = ring_invD [OF inv] and sb = ring_shape_bounds [OF ring_invD(1) [OF inv]]
  have "unat w mod c < c" using sb(1) by simp
  then have "q \<le> unat (r_tail (rs_ring s)) + c" unfolding q_def by (rule ring_nat_seq_bound [OF i(3)])
  then have q63: "unat (sl_seq (ring_slot_at (rs_ring s) w)) < 2 ^ 63"
    using ring_natD(3) [OF i(3)] b sb(2) by (simp add: ring_at [OF i(1)] q_def)
  have w63: "unat w < 2 ^ 63" "unat (w + 1) = Suc (unat w)" "unat (w + 1) < 2 ^ 63"
    using unat_Suc_small [of w] b w by simp_all
  show a: "sint (sl_seq (ring_slot_at (rs_ring s) w)) - sint w = int q - int (unat w)"
    using sint_small [OF q63] sint_small [OF w63(1)] by (simp add: q_def ring_at [OF i(1)])
  show "push_verdict (rs_ring s) w = verdict (int q - int (unat w))" by (simp only: push_verdict_def a)
  show "pop_verdict (rs_ring s) w = verdict (int q - int (Suc (unat w)))"
    using sint_small [OF q63] sint_small [OF w63(3)]
    by (simp only: pop_verdict_def w63(2) q_def ring_at [OF i(1)])
qed

lemma verdict_nat:
  "verdict (int a - int b) = (if a = b then Slot_Ready else if a < b then Slot_Refused else Slot_Stale)"
  by (simp add: verdict_def)

lemma ring_check_ok:
  assumes inv: "ring_inv c s" and b: "length (rs_hist s) < 2 ^ 62"
  defines "ok \<equiv> pc_ok c (length (rs_hist s)) (unat (r_tail (rs_ring s))) (seq_of (rs_ring s)) (val_of (rs_ring s)) (rs_hist s)"
  shows "unat h \<le> length (rs_hist s) \<Longrightarrow> ok (push_check (rs_ring s) v h)"
    "unat h \<le> unat (r_tail (rs_ring s)) \<Longrightarrow> ok (pop_check (rs_ring s) h)"
proof -
  show "ok (push_check (rs_ring s) v h)" if h: "unat h \<le> length (rs_hist s)"
    using h unfolding push_check_def ring_verdicts(2) [OF inv b h] verdict_nat ok_def by auto
  show "ok (pop_check (rs_ring s) h)" if h: "unat h \<le> unat (r_tail (rs_ring s))"
  proof -
    have "unat h \<le> length (rs_hist s)" using h ring_natD(3) [OF ring_invD(3) [OF inv]] by linarith
    with h show ?thesis
      unfolding pop_check_def ring_verdicts(3) [OF inv b \<open>unat h \<le> length (rs_hist s)\<close>] verdict_nat ok_def
      by auto
  qed
qed

lemma check_no_ticket [simp]:
  "push_ticket (push_check r v h) = None" "pop_ticket (push_check r v h) = None"
  "push_ticket (pop_check r h) = None" "pop_ticket (pop_check r h) = None"
  by (simp_all add: push_check_def pop_check_def split: ring_verdict.split)

text \<open>A step of a thread that changes only its own position.\<close>

lemma ring_inv_pc:
  assumes inv: "ring_inv c s"
    and "pc_ok c (length (rs_hist s)) (unat (r_tail (rs_ring s))) (seq_of (rs_ring s)) (val_of (rs_ring s)) (rs_hist s) pc"
    "push_ticket pc = push_ticket (rs_pc s i)" "pop_ticket pc = pop_ticket (rs_pc s i)"
  shows "ring_inv c (s\<lparr>rs_pc := (rs_pc s)(i := pc)\<rparr>)"
  using ring_nat_pc [OF ring_invD(3) [OF inv] assms(2-4)] ring_invD(1,2) [OF inv] by (simp add: ring_inv_def)

lemma ring_inv_call:
  assumes "ring_inv c s" "rs_pc s i = Ring_Idle"
  shows "ring_inv c (s\<lparr>rs_pc := (rs_pc s)(i := Push_Check v (r_head (rs_ring s)))\<rparr>)"
    "ring_inv c (s\<lparr>rs_pc := (rs_pc s)(i := Pop_Check (r_tail (rs_ring s)))\<rparr>)"
  using assms ring_invD(2) [OF assms(1)] by (intro ring_inv_pc; simp)+

lemma ring_inv_push:
  assumes inv: "ring_inv c s" and b: "length (rs_hist s) < 2 ^ 62"
  shows "rs_pc s i = Push_Check v h \<Longrightarrow> ring_inv c (ring_go s i weak)"
    "rs_pc s i = Push_Reload v \<Longrightarrow> ring_inv c (ring_go s i weak)"
    "rs_pc s i = Push_Cas v h \<Longrightarrow> ring_inv c (ring_go s i weak)"
    "rs_pc s i = Push_Write v h \<Longrightarrow> ring_inv c (ring_go s i weak)"
    "rs_pc s i = Push_Publish h \<Longrightarrow> ring_inv c (ring_go s i weak)"
proof -
  note d = ring_invD [OF inv]
  note pc = ring_natD(5) [OF d(3), of i]
  show "rs_pc s i = Push_Check v h \<Longrightarrow> ring_inv c (ring_go s i weak)"
    using pc by (simp add: ring_go_def Let_def ring_inv_pc [OF inv] ring_check_ok [OF inv b])
  show "rs_pc s i = Push_Reload v \<Longrightarrow> ring_inv c (ring_go s i weak)"
    by (simp add: ring_go_def Let_def ring_inv_pc [OF inv] d(2))
  show "ring_inv c (ring_go s i weak)" if p: "rs_pc s i = Push_Cas v h"
  proof (cases "r_head (rs_ring s) = h \<and> \<not> weak")
    case True
    then have h: "unat h = length (rs_hist s)" using d(2) by simp
    then have "unat (h + 1) = Suc (length (rs_hist s))" using unat_Suc_small [of h] b by simp
    with True d(1) ring_nat_claim_push [OF d(3) p h] p show ?thesis
      by (simp add: ring_go_def Let_def ring_inv_def)
  next
    case False
    with p show ?thesis by (auto simp: ring_go_def Let_def ring_inv_pc [OF inv] d(2))
  qed
  show "rs_pc s i = Push_Write v h \<Longrightarrow> ring_inv c (ring_go s i weak)"
    using d(1,2) ring_nat_write [OF d(3), of i v h]
    by (simp add: ring_go_def Let_def ring_inv_def slots_set_val [OF d(1)])
  show "ring_inv c (ring_go s i weak)" if p: "rs_pc s i = Push_Publish h"
  proof -
    have "unat (h + 1) = Suc (unat h)" using pc p b unat_Suc_small [of h] by simp
    with p d(1,2) ring_nat_publish [OF d(3), of i h] show ?thesis
      by (simp add: ring_go_def Let_def ring_inv_def slots_set_seq [OF d(1)])
  qed
qed

lemma ring_inv_pop:
  assumes inv: "ring_inv c s" and b: "length (rs_hist s) < 2 ^ 62"
  shows "rs_pc s i = Pop_Check h \<Longrightarrow> ring_inv c (ring_go s i weak)"
    "rs_pc s i = Pop_Reload \<Longrightarrow> ring_inv c (ring_go s i weak)"
    "rs_pc s i = Pop_Cas h \<Longrightarrow> ring_inv c (ring_go s i weak)"
    "rs_pc s i = Pop_Take h \<Longrightarrow> ring_inv c (ring_go s i weak)"
    "rs_pc s i = Pop_Release h v \<Longrightarrow> ring_inv c (ring_go s i weak)"
proof -
  note d = ring_invD [OF inv]
  note pc = ring_natD(5) [OF d(3), of i] and T = ring_natD(3) [OF d(3)]
  show "rs_pc s i = Pop_Check h \<Longrightarrow> ring_inv c (ring_go s i weak)"
    using pc by (simp add: ring_go_def Let_def ring_inv_pc [OF inv] ring_check_ok [OF inv b])
  show "rs_pc s i = Pop_Reload \<Longrightarrow> ring_inv c (ring_go s i weak)"
    by (simp add: ring_go_def Let_def ring_inv_pc [OF inv])
  show "ring_inv c (ring_go s i weak)" if p: "rs_pc s i = Pop_Cas h"
  proof (cases "r_tail (rs_ring s) = h \<and> \<not> weak")
    case True
    then have h: "unat h = unat (r_tail (rs_ring s))" by simp
    then have "unat (h + 1) = Suc (unat (r_tail (rs_ring s)))" using unat_Suc_small [of h] b T by simp
    with True d(1,2) ring_nat_claim_pop [OF d(3) p h] p show ?thesis
      by (simp add: ring_go_def Let_def ring_inv_def)
  next
    case False
    with p show ?thesis by (auto simp: ring_go_def Let_def ring_inv_pc [OF inv])
  qed
  show "ring_inv c (ring_go s i weak)" if p: "rs_pc s i = Pop_Take h"
  proof -
    have "val_of (rs_ring s) (unat h mod c) = Some (rs_hist s ! unat h)" using pc p by simp
    with p d(1,2) ring_nat_take [OF d(3) p] show ?thesis
      by (simp add: ring_go_def Let_def ring_inv_def slots_set_val [OF d(1)] ring_at [OF d(1)])
  qed
  show "ring_inv c (ring_go s i weak)" if p: "rs_pc s i = Pop_Release h v"
  proof -
    note sb = ring_shape_bounds [OF d(1)]
    have "unat (h + r_capacity (rs_ring s)) = unat h + c"
      using pc p b T sb(2,3) by (subst unat_add_small) simp_all
    with p d(1,2) ring_nat_release [OF d(3) p] show ?thesis
      by (simp add: ring_go_def Let_def ring_inv_def slots_set_seq [OF d(1)])
  qed
qed

lemma ring_inv_go:
  assumes "ring_inv c s" "length (rs_hist s) < 2 ^ 62"
  shows "ring_inv c (ring_go s i weak)"
proof (cases "rs_pc s i")
  case Ring_Idle
  then show ?thesis using assms(1) by (simp add: ring_go_def Let_def)
qed (rule ring_inv_push [OF assms] ring_inv_pop [OF assms], assumption)+

lemma ring_go_hist: "length (rs_hist s) \<le> length (rs_hist (ring_go s i weak))"
  by (simp add: ring_go_def Let_def split: ring_pc.split option.split)

lemma ring_safe_step:
  assumes "ring_safe n s" "ring_step s l t"
  shows "ring_safe n t"
proof (cases l)
  case (Ring_Go i weak)
  with assms(2) have "t = ring_go s i weak" by (simp add: ring_step_def exec_step_def ring_exec_def)
  with assms(1) ring_go_hist [of s i weak] ring_inv_go [of _ s i weak] show ?thesis by (simp add: ring_safe_def)
qed (use assms in \<open>auto simp: ring_safe_def ring_step_def exec_step_def ring_exec_def ring_enabled_def intro: ring_inv_call\<close>)

lemma ring_start_inv:
  assumes n: "unat n \<le> 2 ^ 62"
  shows "ring_inv (unat (next_power_of_2 (max n 2))) (ring_start n)"
proof -
  let ?cap = "next_power_of_2 (max n 2)" and ?c = "unat (next_power_of_2 (max n 2))"
  let ?r = "ring_ctor n :: 'a ring"
  have "2 \<le> unat (max n 2)" "unat (max n 2) \<le> 2 ^ 62"
    using n by (auto simp: max_def word_le_nat_alt)
  then obtain k where k: "1 \<le> k" "k \<le> 62" "?cap = 2 ^ k" using next_power_of_2_ok by blast
  have c: "?c = 2 ^ k" using unsigned_of_nat [of "2 ^ k", where ?'b = 64 and ?'a = nat] k(2)
    by (simp add: k(3))
  have shape: "ring_shape ?c ?r" using k c by (auto simp: ring_shape_def ring_ctor_def Let_def)
  have "2 \<le> ?c" "?c \<le> 2 ^ 62" using ring_shape_bounds [OF shape] by simp_all
  then have slots: "seq_of ?r i = i \<and> val_of ?r i = None" if i: "i < ?c" for i
    using i by (simp add: seq_of_def val_of_def ring_ctor_def Let_def unsigned_of_nat take_bit_nat_eq_self)
  have "\<exists>h. slot_ok ?c 0 0 (seq_of ?r) (val_of ?r) [] (\<lambda>_. Ring_Idle) i h" if i: "i < ?c" for i
    using i slots [OF i] by (intro exI [of _ i]) (simp add: slot_ok_def)
  then have "ring_nat ?c 0 0 (seq_of ?r) (val_of ?r) [] (\<lambda>_. Ring_Idle) []"
    using \<open>2 \<le> ?c\<close> by (intro ring_natI) (simp_all add: tickets_distinct_def out_ok_def)
  with shape show ?thesis by (simp add: ring_inv_def ring_start_def ring_ctor_def Let_def)
qed

interpretation mpmc: invariant_system "ring_init n" ring_step "ring_safe n" for n
  by unfold_locales
     (auto simp: ring_init_def ring_safe_def intro: ring_start_inv ring_safe_step [unfolded ring_safe_def, rule_format])

lemma ring_reach_inv:
  assumes "reach (ring_init n) ring_step s" "unat n \<le> 2 ^ 62" "length (rs_hist s) < 2 ^ 62"
  shows "ring_inv (unat (r_capacity (rs_ring s))) s"
proof -
  have i: "ring_inv (unat (next_power_of_2 (max n 2))) s"
    using mpmc.reach_inv [OF assms(1)] assms(2,3) by (simp add: ring_safe_def)
  with ring_shape_bounds(3) [OF ring_invD(1) [OF i]] show ?thesis by simp
qed

section \<open>Properties\<close>

text \<open>The slot the next push needs was claimed one lap ago, and no try\_pop has returned its value yet.\<close>

definition lap_unreleased :: "'a ring_sys \<Rightarrow> bool" where
  "lap_unreleased s \<longleftrightarrow> unat (r_capacity (rs_ring s)) \<le> length (rs_hist s) \<and>
     length (rs_hist s) - unat (r_capacity (rs_ring s)) \<notin> fst ` set (rs_out s)"

text \<open>Nothing to pop at the tail: it was not claimed by a producer, or that producer has not published.\<close>

definition tail_unpublished :: "'a ring_sys \<Rightarrow> bool" where
  "tail_unpublished s \<longleftrightarrow> unat (r_tail (rs_ring s)) = length (rs_hist s) \<or>
     (\<exists>j. push_ticket (rs_pc s j) = Some (unat (r_tail (rs_ring s))))"

text \<open>
  C30: The ring delivers every claimed value at most once and unchanged. In every interleaving of
  producers and consumers within the first 2^62 pushes, the values try\_pop returned carry distinct positions
  and each is the value pushed at that position. A consumer that claimed a position never
  finds its slot without a value. When no consumer is between claim and
  return, the returned values are, as a multiset, the first ones pushed, one for each claimed position.
\<close>

theorem mpmc_exactly_once:
  assumes "reach (ring_init n) ring_step s" "unat n \<le> 2 ^ 62" "length (rs_hist s) < 2 ^ 62"
  shows "distinct (map fst (rs_out s)) \<and>
    (\<forall>p \<in> set (rs_out s). fst p < length (rs_hist s) \<and> snd p = rs_hist s ! fst p) \<and>
    (\<forall>i t. rs_pc s i = Pop_Take t \<longrightarrow> sl_val (ring_slot_at (rs_ring s) t) = Some (rs_hist s ! unat t)) \<and>
    ((\<forall>i. pop_ticket (rs_pc s i) = None) \<longrightarrow>
       mset (map snd (rs_out s)) = mset (take (unat (r_tail (rs_ring s))) (rs_hist s)))"
proof -
  note d = ring_invD [OF ring_reach_inv [OF assms]]
  note r = ring_natD [OF d(3)]
  have "sl_val (ring_slot_at (rs_ring s) t) = Some (rs_hist s ! unat t)" if "rs_pc s i = Pop_Take t" for i t
    using r(5) [of i] that by (simp add: ring_at [OF d(1)])
  moreover have "(\<forall>i. pop_ticket (rs_pc s i) = None) \<longrightarrow>
       mset (map snd (rs_out s)) = mset (take (unat (r_tail (rs_ring s))) (rs_hist s))"
    using out_ok_mset [OF r(8) r(3)] by blast
  ultimately show ?thesis using r(3,8) by (auto simp: out_ok_def)
qed


section \<open>Witnesses\<close>

text \<open>A ring for two: two pushes and a pop by another thread, then a third push and two refused calls in flight.\<close>

definition ring_script :: "nat ring_label list" where
  "ring_script =
     Call_push 0 7 # replicate 4 (Ring_Go 0 False) @ Call_push 1 8 # replicate 4 (Ring_Go 1 False) @
     Call_pop 2 # Ring_Go 2 False # Ring_Go 2 True # replicate 4 (Ring_Go 2 False)"

lemma ring_script_run:
  "\<exists>s. run_labels ring_enabled ring_exec (ring_start 2) ring_script = Some s \<and>
     rs_out s = [(0, 7)] \<and> rs_hist s = [7, 8] \<and> r_tail (rs_ring s) = 1"
proof -
  have "map_option (\<lambda>s. (rs_out s, rs_hist s, r_tail (rs_ring s)))
      (run_labels ring_enabled ring_exec (ring_start 2) ring_script) = Some ([(0, 7)], [7, 8], 1)"
    by code_simp
  then show ?thesis by (auto simp: map_option_case split: option.splits)
qed

theorem mpmc_exactly_once_witness:
  "\<exists>s. run_labels ring_enabled ring_exec (ring_start 2) ring_script = Some s \<and> rs_hist s = [7, 8] \<and>
     distinct (map fst (rs_out s)) \<and> (\<forall>p \<in> set (rs_out s). snd p = [7, 8] ! fst p)"
proof -
  obtain s where s: "run_labels ring_enabled ring_exec (ring_start 2) ring_script = Some s" "rs_hist s = [7, 8]"
    using ring_script_run by blast
  have "reach (ring_init 2) ring_step s"
    unfolding ring_step_def by (rule reach_run_labels [OF _ s(1)]) (simp add: reach_init ring_init_def)
  then show ?thesis using mpmc_exactly_once [of 2 s] s by simp
qed

definition ring_full_script :: "nat ring_label list" where
  "ring_full_script =
     Call_push 0 7 # replicate 4 (Ring_Go 0 False) @ Call_push 1 8 # replicate 4 (Ring_Go 1 False) @ [Call_push 0 9]"

lemma ring_full_script_run:
  "\<exists>s. run_labels ring_enabled ring_exec (ring_start 2) ring_full_script = Some s \<and>
     rs_pc s 0 = Push_Check 9 2 \<and> rs_out s = [] \<and> rs_hist s = [7, 8] \<and>
     r_head (rs_ring s) = 2 \<and> r_capacity (rs_ring s) = 2"
proof -
  have "map_option (\<lambda>s. (rs_pc s 0, rs_out s, rs_hist s, r_head (rs_ring s), r_capacity (rs_ring s)))
      (run_labels ring_enabled ring_exec (ring_start 2) ring_full_script) =
      Some (Push_Check 9 2, [], [7, 8], 2, 2)"
    by code_simp
  then show ?thesis by (auto simp: map_option_case split: option.splits)
qed


end
