(* ===== verification/Http_Text.thy ===== *)
theory Http_Text
  imports Bytes "HOL-Library.Char_ord"
begin

text \<open>
  Text helpers of the HTTP code: the character classes and validators of
  src/include/elio/http/http\_common.hpp, and what the code uses of
  std::string\_view, from\_chars and to\_chars. Strings are lists of bytes; the C locale is assumed for
  tolower, isalpha and isalnum.
\<close>

section \<open>Searching and converting\<close>

abbreviation code_of :: "char \<Rightarrow> nat" where
  "code_of c \<equiv> of_char c"

abbreviation cr :: char where "cr \<equiv> CHR 0x0D"
abbreviation lf :: char where "lf \<equiv> CHR 0x0A"
abbreviation tab :: char where "tab \<equiv> CHR 0x09"
abbreviation crlf :: string where "crlf \<equiv> [cr, lf]"

text \<open>Position of the first match; \<open>None\<close> is npos.\<close>

fun find_char :: "char \<Rightarrow> string \<Rightarrow> nat option" where
  "find_char c [] = None"
| "find_char c (x # xs) = (if x = c then Some 0 else map_option Suc (find_char c xs))"

fun find_crlf :: "string \<Rightarrow> nat option" where
  "find_crlf (x # y # xs) = (if x = cr \<and> y = lf then Some 0 else map_option Suc (find_crlf (y # xs)))"
| "find_crlf _ = None"

definition rfind_char :: "char \<Rightarrow> string \<Rightarrow> nat option" where
  "rfind_char c s = map_option (\<lambda>i. length s - 1 - i) (find_char c (rev s))"

fun find_str :: "string \<Rightarrow> string \<Rightarrow> nat option" where
  "find_str pat [] = (if pat = [] then Some 0 else None)"
| "find_str pat (x # xs) =
     (if take (length pat) (x # xs) = pat then Some 0 else map_option Suc (find_str pat xs))"

definition substr :: "string \<Rightarrow> nat \<Rightarrow> nat \<Rightarrow> string" where
  "substr s pos n = take n (drop pos s)"

definition is_digit :: "char \<Rightarrow> bool" where
  "is_digit c \<longleftrightarrow> CHR ''0'' \<le> c \<and> c \<le> CHR ''9''"

definition digit_val :: "char \<Rightarrow> nat" where
  "digit_val c = code_of c - code_of (CHR ''0'')"

definition dec_val :: "string \<Rightarrow> nat" where
  "dec_val s = foldl (\<lambda>n c. n * 10 + digit_val c) 0 s"

text \<open>
  std::from\_chars on an unsigned type with \<open>w\<close> bits: the longest prefix of digits, no sign; fails when
  there is none or its value does not fit. The rest of the text is returned.
\<close>

definition from_chars :: "nat \<Rightarrow> string \<Rightarrow> (nat \<times> string) option" where
  "from_chars w s =
     (let ds = takeWhile is_digit s in
      if ds = [] \<or> 2 ^ w \<le> dec_val ds then None else Some (dec_val ds, dropWhile is_digit s))"

definition digit_char :: "nat \<Rightarrow> char" where
  "digit_char d = (if d < 10 then char_of (48 + d) else char_of (87 + d))"

text \<open>std::to\_string and std::to\_chars: the digits in base \<open>b\<close>, lower case.\<close>

function digits :: "nat \<Rightarrow> nat \<Rightarrow> string" where
  "digits b n = (if n < b \<or> b < 2 then [digit_char n] else digits b (n div b) @ [digit_char (n mod b)])"
  by auto
termination
  by (relation "measure snd") auto

declare digits.simps [simp del]

definition to_string :: "nat \<Rightarrow> string" where
  "to_string n = digits 10 n"

definition to_chars_hex :: "nat \<Rightarrow> string" where
  "to_chars_hex n = digits 16 n"

definition is_upper :: "char \<Rightarrow> bool" where
  "is_upper c \<longleftrightarrow> CHR ''A'' \<le> c \<and> c \<le> CHR ''Z''"

definition is_lower :: "char \<Rightarrow> bool" where
  "is_lower c \<longleftrightarrow> CHR ''a'' \<le> c \<and> c \<le> CHR ''z''"

definition tolower :: "char \<Rightarrow> char" where
  "tolower c = (if is_upper c then char_of (code_of c + 32) else c)"

section \<open>Character classes and validators\<close>

definition is_tchar :: "char \<Rightarrow> bool" where
  "is_tchar c \<longleftrightarrow> is_digit c \<or> is_lower c \<or> is_upper c \<or>
     c \<in> set ''!#$%&*+-.^_|~'' \<or> c = CHR 0x27 \<or> c = CHR 0x60"

definition is_valid_token :: "string \<Rightarrow> bool" where
  "is_valid_token value = (if value = [] then False else list_all is_tchar value)"

definition is_valid_header_name :: "string \<Rightarrow> bool" where
  "is_valid_header_name name = is_valid_token name"

definition is_valid_header_value :: "string \<Rightarrow> bool" where
  "is_valid_header_value value = list_all (\<lambda>c. \<not> (code_of c < 0x20 \<and> c \<noteq> tab \<or> code_of c = 0x7F)) value"

definition has_request_target_forbidden_char :: "string \<Rightarrow> bool" where
  "has_request_target_forbidden_char value = list_ex (\<lambda>c. code_of c \<le> 0x20 \<or> code_of c = 0x7F) value"

definition is_valid_request_target :: "string \<Rightarrow> bool" where
  "is_valid_request_target target \<longleftrightarrow> target \<noteq> [] \<and> \<not> has_request_target_forbidden_char target"

definition is_valid_request_target_component :: "string \<Rightarrow> bool" where
  "is_valid_request_target_component component \<longleftrightarrow> \<not> has_request_target_forbidden_char component"

definition connect_host_char :: "char \<Rightarrow> bool" where
  "connect_host_char c \<longleftrightarrow> is_lower c \<or> is_upper c \<or> is_digit c \<or> c \<in> set ''-._~!$&()*+,;='' \<or> c = CHR 0x27"

definition connect_hex_digit :: "char \<Rightarrow> bool" where
  "connect_hex_digit c \<longleftrightarrow> is_digit c \<or> CHR ''a'' \<le> c \<and> c \<le> CHR ''f'' \<or> CHR ''A'' \<le> c \<and> c \<le> CHR ''F''"

text \<open>The characters behind the leading v of an IPvFuture literal.\<close>

definition connect_ipvfuture :: "string \<Rightarrow> bool" where
  "connect_ipvfuture literal =
     (let hex = takeWhile connect_hex_digit (tl literal); rest = dropWhile connect_hex_digit (tl literal) in
      if hex = [] \<or> rest = [] \<or> hd rest \<noteq> CHR ''.'' then False
      else if tl rest = [] then False
      else list_all (\<lambda>c. connect_host_char c \<or> c = CHR '':'') (tl rest))"

fun connect_reg_name :: "string \<Rightarrow> bool" where
  "connect_reg_name [] = True"
| "connect_reg_name (c # cs) =
     (if c = CHR ''%'' then
        (case cs of
           x # y # rest \<Rightarrow> connect_hex_digit x \<and> connect_hex_digit y \<and> connect_reg_name rest
         | _ \<Rightarrow> False)
      else connect_host_char c \<and> connect_reg_name cs)"

text \<open>\<open>pton\<close> stands for the success of inet\_pton(AF\_INET6) on a C string; 46 is INET6\_ADDRSTRLEN.\<close>

definition connect_host_ok :: "(string \<Rightarrow> bool) \<Rightarrow> string \<Rightarrow> bool" where
  "connect_host_ok pton host =
     (if hd host = CHR ''['' then
        if length host < 3 \<or> last host \<noteq> CHR '']'' then False
        else
          let literal = substr host 1 (length host - 2) in
          if hd literal = CHR ''v'' \<or> hd literal = CHR ''V'' then connect_ipvfuture literal
          else if length literal \<ge> 46 then False
          else pton (takeWhile (\<lambda>c. c \<noteq> CHR 0x00) literal)
      else connect_reg_name host)"

definition is_valid_connect_authority :: "(string \<Rightarrow> bool) \<Rightarrow> string \<Rightarrow> bool" where
  "is_valid_connect_authority pton target =
     (case rfind_char (CHR '':'') target of
        None \<Rightarrow> False
      | Some separator \<Rightarrow>
          if separator = 0 then False
          else
            let host = take separator target; port_text = drop (separator + 1) target in
            if port_text = [] then False
            else (case from_chars 16 port_text of
                    None \<Rightarrow> False
                  | Some (port, rest) \<Rightarrow>
                      if rest \<noteq> [] \<or> port = 0 then False else connect_host_ok pton host))"

record connect_authority_view =
  ca_raw :: string
  ca_host :: string
  ca_port :: nat

definition parse_connect_authority :: "(string \<Rightarrow> bool) \<Rightarrow> string \<Rightarrow> connect_authority_view option" where
  "parse_connect_authority pton target =
     (if \<not> is_valid_connect_authority pton target then None
      else
        let colon = the (rfind_char (CHR '':'') target);
            host = take colon target;
            host = (if hd host = CHR ''['' then substr host 1 (length host - 2) else host);
            port = (case from_chars 16 (drop (colon + 1) target) of Some (p, _) \<Rightarrow> p | None \<Rightarrow> 0)
        in Some \<lparr>ca_raw = target, ca_host = host, ca_port = port\<rparr>)"

definition is_http_version_digit :: "char \<Rightarrow> bool" where
  "is_http_version_digit c = is_digit c"

definition is_valid_http_version :: "string \<Rightarrow> bool" where
  "is_valid_http_version version =
     (if version = [] then True
      else if take 5 version \<noteq> ''HTTP/'' then False
      else
        let numbers = drop 5 version in
        if length numbers \<noteq> 3 \<or> numbers ! 1 \<noteq> CHR ''.'' then False
        else is_http_version_digit (numbers ! 0) \<and> is_http_version_digit (numbers ! 2))"

definition is_ows :: "char \<Rightarrow> bool" where
  "is_ows c \<longleftrightarrow> c = CHR '' '' \<or> c = tab"

definition trim_ows :: "string \<Rightarrow> string" where
  "trim_ows s = rev (dropWhile is_ows (rev (dropWhile is_ows s)))"

definition ascii_iequals :: "string \<Rightarrow> string \<Rightarrow> bool" where
  "ascii_iequals a b =
     (if length a \<noteq> length b then False else list_all (\<lambda>(x, y). tolower x = tolower y) (zip a b))"

section \<open>Methods and status codes\<close>

datatype http_method = GET | HEAD | POST | PUT | DELETE | CONNECT | OPTIONS | TRACE | PATCH

fun method_to_string :: "http_method \<Rightarrow> string" where
  "method_to_string GET = ''GET''"
| "method_to_string HEAD = ''HEAD''"
| "method_to_string POST = ''POST''"
| "method_to_string PUT = ''PUT''"
| "method_to_string DELETE = ''DELETE''"
| "method_to_string CONNECT = ''CONNECT''"
| "method_to_string OPTIONS = ''OPTIONS''"
| "method_to_string TRACE = ''TRACE''"
| "method_to_string PATCH = ''PATCH''"

definition string_to_method :: "string \<Rightarrow> http_method option" where
  "string_to_method str =
     (if str = ''GET'' then Some GET
      else if str = ''HEAD'' then Some HEAD
      else if str = ''POST'' then Some POST
      else if str = ''PUT'' then Some PUT
      else if str = ''DELETE'' then Some DELETE
      else if str = ''CONNECT'' then Some CONNECT
      else if str = ''OPTIONS'' then Some OPTIONS
      else if str = ''TRACE'' then Some TRACE
      else if str = ''PATCH'' then Some PATCH
      else None)"

type_synonym http_status = "16 word"

text \<open>The reason phrases, in the order of the switch.\<close>

definition status_reasons :: "(http_status \<times> string) list" where
  "status_reasons =
     [(100, ''Continue''),
      (101, ''Switching Protocols''),
      (102, ''Processing''),
      (103, ''Early Hints''),
      (200, ''OK''),
      (201, ''Created''),
      (202, ''Accepted''),
      (203, ''Non-Authoritative Information''),
      (204, ''No Content''),
      (205, ''Reset Content''),
      (206, ''Partial Content''),
      (207, ''Multi-Status''),
      (208, ''Already Reported''),
      (226, ''IM Used''),
      (300, ''Multiple Choices''),
      (301, ''Moved Permanently''),
      (302, ''Found''),
      (303, ''See Other''),
      (304, ''Not Modified''),
      (305, ''Use Proxy''),
      (307, ''Temporary Redirect''),
      (308, ''Permanent Redirect''),
      (400, ''Bad Request''),
      (401, ''Unauthorized''),
      (402, ''Payment Required''),
      (403, ''Forbidden''),
      (404, ''Not Found''),
      (405, ''Method Not Allowed''),
      (406, ''Not Acceptable''),
      (407, ''Proxy Authentication Required''),
      (408, ''Request Timeout''),
      (409, ''Conflict''),
      (410, ''Gone''),
      (411, ''Length Required''),
      (412, ''Precondition Failed''),
      (413, ''Payload Too Large''),
      (414, ''URI Too Long''),
      (415, ''Unsupported Media Type''),
      (416, ''Range Not Satisfiable''),
      (417, ''Expectation Failed''),
      (418, ''I'' @ CHR 0x27 # ''m a teapot''),
      (421, ''Misdirected Request''),
      (422, ''Unprocessable Entity''),
      (423, ''Locked''),
      (424, ''Failed Dependency''),
      (425, ''Too Early''),
      (426, ''Upgrade Required''),
      (428, ''Precondition Required''),
      (429, ''Too Many Requests''),
      (431, ''Request Header Fields Too Large''),
      (451, ''Unavailable For Legal Reasons''),
      (500, ''Internal Server Error''),
      (501, ''Not Implemented''),
      (502, ''Bad Gateway''),
      (503, ''Service Unavailable''),
      (504, ''Gateway Timeout''),
      (505, ''HTTP Version Not Supported''),
      (506, ''Variant Also Negotiates''),
      (507, ''Insufficient Storage''),
      (508, ''Loop Detected''),
      (510, ''Not Extended''),
      (511, ''Network Authentication Required'')]"

definition status_reason :: "http_status \<Rightarrow> string" where
  "status_reason s = (case map_of status_reasons s of Some r \<Rightarrow> r | None \<Rightarrow> ''Unknown'')"

definition status_forbids_response_body :: "http_status \<Rightarrow> bool" where
  "status_forbids_response_body code \<longleftrightarrow> code \<ge> 100 \<and> code < 200 \<or> code = 204 \<or> code = 205 \<or> code = 304"

definition response_body_forbidden :: "http_method \<Rightarrow> http_status \<Rightarrow> bool" where
  "response_body_forbidden request_method response_status \<longleftrightarrow>
     request_method = HEAD \<or> status_forbids_response_body response_status"

definition response_framing_forbidden :: "http_method \<Rightarrow> http_status \<Rightarrow> bool" where
  "response_framing_forbidden request_method code \<longleftrightarrow>
     status_forbids_response_body code \<or> request_method = CONNECT \<and> code \<ge> 200 \<and> code < 300"

section \<open>Facts about searching\<close>

lemma find_char_Some:
  "find_char c s = Some i \<Longrightarrow> i < length s \<and> s = take i s @ c # drop (Suc i) s \<and> c \<notin> set (take i s)"
proof (induction s arbitrary: i)
  case (Cons x xs)
  show ?case
  proof (cases "x = c")
    case False
    with Cons.prems obtain j where "i = Suc j" "find_char c xs = Some j" by auto
    with Cons.IH [of j] False show ?thesis by auto
  qed (use Cons.prems in auto)
qed simp

lemma find_char_None: "find_char c s = None \<longleftrightarrow> c \<notin> set s"
  by (induction s) auto

lemma find_char_first [simp]: "c \<notin> set a \<Longrightarrow> find_char c (a @ c # b) = Some (length a)"
  by (induction a) auto

lemma find_crlf_Some:
  assumes "find_crlf s = Some i"
  obtains a b where "s = a @ cr # lf # b" "i = length a" "find_crlf (a @ [cr]) = None"
  using assms
proof (induction s arbitrary: i thesis rule: find_crlf.induct)
  case (1 x y xs)
  show ?case
  proof (cases "x = cr \<and> y = lf")
    case True
    then show ?thesis using "1.prems" by (intro "1.prems"(1) [of "[]" xs]) auto
  next
    case False
    with "1.prems"(2) obtain j where j: "i = Suc j" "find_crlf (y # xs) = Some j" by auto
    obtain a b where ab: "y # xs = a @ cr # lf # b" "j = length a" "find_crlf (a @ [cr]) = None"
      using "1.IH" [OF False _ j(2)] by blast
    have "find_crlf (x # a @ [cr]) = None" using ab False by (cases a) auto
    with ab j show ?thesis by (intro "1.prems"(1) [of "x # a" b]) auto
  qed
qed auto

lemma find_crlf_length: "find_crlf s = Some i \<Longrightarrow> i + 2 \<le> length s"
  by (erule find_crlf_Some) simp

lemma find_crlf_append: "find_crlf s = Some i \<Longrightarrow> find_crlf (s @ t) = Some i"
  by (induction s arbitrary: i rule: find_crlf.induct) auto

lemma find_crlf_first: "find_crlf (a @ [cr]) = None \<Longrightarrow> find_crlf (a @ cr # lf # b) = Some (length a)"
proof (induction a)
  case (Cons x a)
  have "find_crlf (a @ [cr]) = None" using Cons.prems by (cases a) (auto split: if_splits)
  with Cons show ?case by (cases a) (auto split: if_splits)
qed simp

lemma find_crlf_no_lf: "lf \<notin> set a \<Longrightarrow> find_crlf a = None"
  by (induction a rule: find_crlf.induct) auto

text \<open>Without a line end in the buffer, one that appears later begins at its last byte or behind it.\<close>

lemma find_crlf_later:
  assumes "find_crlf s = None" "find_crlf (s @ t) = Some i"
  shows "length s \<le> Suc i" "s \<noteq> [] \<Longrightarrow> last s \<noteq> cr \<Longrightarrow> length s \<le> i"
proof -
  obtain a b where ab: "s @ t = a @ cr # lf # b" "i = length a" using assms(2) find_crlf_Some by blast
  show l: "length s \<le> Suc i"
  proof (rule ccontr)
    assume "\<not> length s \<le> Suc i"
    then have n: "length a + 2 \<le> length s" using ab(2) by simp
    have "take (length a + 2) (s @ t) = a @ [cr, lf]" unfolding ab(1) by simp
    with n have "take (length a + 2) s = a @ [cr, lf]" by simp
    then have "s = a @ [cr, lf] @ drop (length a + 2) s" using append_take_drop_id [of "length a + 2" s] by simp
    moreover have "find_crlf (a @ [cr, lf] @ u) \<noteq> None" for a u
      by (induction a rule: find_crlf.induct) auto
    ultimately show False using assms(1) by metis
  qed
  show "length s \<le> i" if "s \<noteq> []" "last s \<noteq> cr"
  proof (rule ccontr)
    assume "\<not> length s \<le> i"
    with l ab(2) have n: "length s = length a + 1" by simp
    have "take (length a + 1) (s @ t) = a @ [cr]" unfolding ab(1) by simp
    with n have "s = a @ [cr]" by simp
    with that show False by simp
  qed
qed

section \<open>Facts about numbers\<close>

lemma code_of_digit_char: "d < 10 \<Longrightarrow> code_of (digit_char d) = 48 + d" "10 \<le> d \<Longrightarrow> d < 36 \<Longrightarrow> code_of (digit_char d) = 87 + d"
  by (simp_all add: digit_char_def)

lemma is_digit_digit_char: "d < 10 \<Longrightarrow> is_digit (digit_char d)"
  by (simp add: is_digit_def less_eq_char_def code_of_digit_char)

lemma digit_val_digit_char: "d < 10 \<Longrightarrow> digit_val (digit_char d) = d"
  by (simp add: digit_val_def code_of_digit_char)

lemma dec_val_snoc: "dec_val (s @ [c]) = dec_val s * 10 + digit_val c"
  by (simp add: dec_val_def)

lemma to_string_digits: "list_all is_digit (to_string n)" "to_string n \<noteq> []"
proof -
  have "list_all is_digit (digits 10 n) \<and> digits 10 n \<noteq> []"
  proof (induction n rule: less_induct)
    case (less n)
    show ?case
    proof (cases "n < 10")
      case True
      then show ?thesis by (simp add: digits.simps [of 10 n] is_digit_digit_char)
    next
      case False
      with less [of "n div 10"] show ?thesis by (simp add: digits.simps [of 10 n] is_digit_digit_char)
    qed
  qed
  then show "list_all is_digit (to_string n)" "to_string n \<noteq> []" by (simp_all add: to_string_def)
qed

lemma dec_val_to_string [simp]: "dec_val (to_string n) = n"
  unfolding to_string_def
proof (induction n rule: less_induct)
  case (less n)
  show ?case
  proof (cases "n < 10")
    case True
    then show ?thesis by (simp add: digits.simps [of 10 n] dec_val_def digit_val_digit_char)
  next
    case False
    with less [of "n div 10"] show ?thesis by (simp add: digits.simps [of 10 n] dec_val_snoc digit_val_digit_char)
  qed
qed

lemma from_chars_to_string [simp]:
  assumes "n < 2 ^ w"
  shows "from_chars w (to_string n) = Some (n, [])"
proof -
  have t: "takeWhile is_digit (to_string n) = to_string n" "dropWhile is_digit (to_string n) = []"
    using to_string_digits(1) [of n] by (auto simp: takeWhile_eq_all_conv dropWhile_eq_Nil_conv list_all_iff)
  show ?thesis unfolding from_chars_def Let_def t using assms by (simp add: to_string_digits(2))
qed

section \<open>Facts about trimming and case\<close>

lemma ascii_iequals_iff: "ascii_iequals a b \<longleftrightarrow> map tolower a = map tolower b"
proof -
  have "ascii_iequals a b \<longleftrightarrow> list_all2 (\<lambda>x y. tolower x = tolower y) a b"
    by (auto simp: ascii_iequals_def list_all2_iff list_all_iff)
  also have "\<dots> \<longleftrightarrow> list_all2 (=) (map tolower a) (map tolower b)"
    by (simp only: list.rel_map)
  finally show ?thesis by (simp only: list.rel_eq)
qed

lemma ascii_iequals_refl [simp]: "ascii_iequals a a"
  by (simp add: ascii_iequals_iff)

lemma rev_dropWhile_prefix: "\<exists>ys. xs = rev (dropWhile P (rev xs)) @ ys"
  by (metis rev_append rev_rev_ident takeWhile_dropWhile_id)

lemma trim_ows_hd: "trim_ows s \<noteq> [] \<Longrightarrow> \<not> is_ows (hd (trim_ows s))"
proof -
  assume ne: "trim_ows s \<noteq> []"
  obtain ys where ys: "dropWhile is_ows s = trim_ows s @ ys"
    using rev_dropWhile_prefix [of "dropWhile is_ows s" is_ows] unfolding trim_ows_def by blast
  then have "dropWhile is_ows s \<noteq> []" "hd (dropWhile is_ows s) = hd (trim_ows s)" using ne by auto
  then show ?thesis using hd_dropWhile by metis
qed

lemma trim_ows_last: "trim_ows s \<noteq> [] \<Longrightarrow> \<not> is_ows (last (trim_ows s))"
  unfolding trim_ows_def by (metis hd_dropWhile last_rev rev.simps(1))

lemma dropWhile_keep: "s = [] \<or> \<not> P (hd s) \<Longrightarrow> dropWhile P s = s"
  by (cases s) auto

lemma trim_ows_keep:
  assumes "s = [] \<or> \<not> is_ows (hd s) \<and> \<not> is_ows (last s)"
  shows "trim_ows s = s"
  using assms unfolding trim_ows_def by (cases "s = []") (simp_all add: dropWhile_keep hd_rev)

lemma trim_ows_idem [simp]: "trim_ows (trim_ows s) = trim_ows s"
  using trim_ows_hd trim_ows_last by (intro trim_ows_keep) blast

lemma trim_ows_space [simp]: "trim_ows (CHR '' '' # s) = trim_ows s"
  by (simp add: trim_ows_def is_ows_def)

lemma set_trim_ows: "set (trim_ows s) \<subseteq> set s"
  unfolding trim_ows_def by (auto dest!: set_dropWhileD)

end
