(* ===== verification/Http_Headers.thy ===== *)
theory Http_Headers
  imports Http_Text
begin

text \<open>
  The header collection of src/include/elio/http/http\_common.hpp. The two hash maps are association lists without
  equivalent keys, in the order of insertion; iteration order is not
  specified by the library, so serialization takes it as a parameter.
\<close>

section \<open>Maps with case-insensitive keys\<close>

type_synonym 'v imap = "(string \<times> 'v) list"

fun imap_find :: "string \<Rightarrow> 'v imap \<Rightarrow> 'v option" where
  "imap_find k [] = None"
| "imap_find k ((k', v) # m) = (if ascii_iequals k' k then Some v else imap_find k m)"

text \<open>Assignment through operator[]: an existing key keeps its spelling.\<close>

fun imap_put :: "string \<Rightarrow> 'v \<Rightarrow> 'v imap \<Rightarrow> 'v imap" where
  "imap_put k v [] = [(k, v)]"
| "imap_put k v ((k', v') # m) = (if ascii_iequals k' k then (k', v) # m else (k', v') # imap_put k v m)"

definition imap_erase :: "string \<Rightarrow> 'v imap \<Rightarrow> 'v imap" where
  "imap_erase k m = filter (\<lambda>(k', v). \<not> ascii_iequals k' k) m"

text \<open>The hash that goes with the equality; FNV-1a on 64 bits.\<close>

definition case_insensitive_hash :: "string \<Rightarrow> size_t" where
  "case_insensitive_hash s =
     foldl (\<lambda>h c. (h XOR of_nat (code_of (tolower c))) * 1099511628211) 14695981039346656037 s"

definition case_insensitive_equal :: "string \<Rightarrow> string \<Rightarrow> bool" where
  "case_insensitive_equal a b =
     (if length a \<noteq> length b then False else list_all (\<lambda>(x, y). tolower x = tolower y) (zip a b))"

section \<open>The collection\<close>

record headers =
  h_map :: "string imap"
  h_values :: "string list imap"

definition no_headers :: headers where
  "no_headers = \<lparr>h_map = [], h_values = []\<rparr>"

datatype header_error = Bad_Name | Bad_Value | Conflicting_Length

definition headers_set :: "string \<Rightarrow> string \<Rightarrow> headers \<Rightarrow> header_error + headers" where
  "headers_set name v h =
     (if \<not> is_valid_header_name name then Inl Bad_Name
      else if \<not> is_valid_header_value v then Inl Bad_Value
      else Inr (h\<lparr>h_map := imap_put name v (h_map h), h_values := imap_put name [v] (h_values h)\<rparr>))"

definition headers_add :: "string \<Rightarrow> string \<Rightarrow> headers \<Rightarrow> header_error + headers" where
  "headers_add name v h =
     (if \<not> is_valid_header_name name then Inl Bad_Name
      else if \<not> is_valid_header_value v then Inl Bad_Value
      else
        case imap_find name (h_map h) of
          Some old \<Rightarrow>
            if ascii_iequals name ''Content-Length'' then
              if trim_ows old \<noteq> trim_ows v then Inl Conflicting_Length else Inr h
            else
              let vs = (case imap_find name (h_values h) of None \<Rightarrow> [old] | Some vs \<Rightarrow> vs);
                  h1 = h\<lparr>h_values := imap_put name (vs @ [v]) (h_values h)\<rparr>
              in if ascii_iequals name ''Set-Cookie'' then Inr h1
                 else Inr (h1\<lparr>h_map := imap_put name (old @ '', '' @ v) (h_map h1)\<rparr>)
        | None \<Rightarrow>
            Inr (h\<lparr>h_map := h_map h @ [(name, v)],
                   h_values := (case imap_find name (h_values h) of
                                  None \<Rightarrow> h_values h @ [(name, [v])] | Some _ \<Rightarrow> h_values h)\<rparr>))"

definition headers_get :: "headers \<Rightarrow> string \<Rightarrow> string" where
  "headers_get h name = (case imap_find name (h_map h) of Some v \<Rightarrow> v | None \<Rightarrow> [])"

definition headers_get_all :: "headers \<Rightarrow> string \<Rightarrow> string list" where
  "headers_get_all h name =
     (case imap_find name (h_values h) of
        Some vs \<Rightarrow> vs
      | None \<Rightarrow> (case imap_find name (h_map h) of Some v \<Rightarrow> [v] | None \<Rightarrow> []))"

definition headers_contains :: "headers \<Rightarrow> string \<Rightarrow> bool" where
  "headers_contains h name \<longleftrightarrow> imap_find name (h_map h) \<noteq> None"

definition headers_remove :: "string \<Rightarrow> headers \<Rightarrow> headers" where
  "headers_remove name h = h\<lparr>h_map := imap_erase name (h_map h), h_values := imap_erase name (h_values h)\<rparr>"

definition content_length :: "headers \<Rightarrow> nat option" where
  "content_length h =
     (let val = trim_ows (headers_get h ''Content-Length'') in
      if val = [] then None
      else if hd val = CHR ''+'' \<or> hd val = CHR ''-'' then None
      else case from_chars 64 val of
             None \<Rightarrow> None
           | Some (len, rest) \<Rightarrow> if rest \<noteq> [] then None else Some len)"

definition set_content_length :: "nat \<Rightarrow> headers \<Rightarrow> header_error + headers" where
  "set_content_length len h = headers_set ''Content-Length'' (to_string len) h"

definition content_type :: "headers \<Rightarrow> string" where
  "content_type h = headers_get h ''Content-Type''"

definition set_content_type :: "string \<Rightarrow> headers \<Rightarrow> header_error + headers" where
  "set_content_type type h = headers_set ''Content-Type'' type h"

definition is_chunked :: "headers \<Rightarrow> bool" where
  "is_chunked h =
     (let te = headers_get h ''Transfer-Encoding'' in
      if te = [] then False
      else
        let last_tok = (case rfind_char (CHR '','') te of None \<Rightarrow> te | Some i \<Rightarrow> drop (i + 1) te)
        in ascii_iequals (trim_ows last_tok) ''chunked'')"

text \<open>The walk over the tokens of a Connection field; \<open>None\<close> when it reaches the end undecided.\<close>

function connection_tokens :: "string \<Rightarrow> bool option" where
  "connection_tokens conn =
     (if conn = [] then None
      else
        let token = (case find_char (CHR '','') conn of None \<Rightarrow> conn | Some i \<Rightarrow> take i conn);
            token = trim_ows token
        in if ascii_iequals token ''close'' then Some False
           else if ascii_iequals token ''keep-alive'' then Some True
           else case find_char (CHR '','') conn of
                  None \<Rightarrow> None
                | Some i \<Rightarrow> connection_tokens (drop (i + 1) conn))"
  by auto
termination
  by (relation "measure length") auto

declare connection_tokens.simps [simp del]

definition keep_alive :: "headers \<Rightarrow> string \<Rightarrow> bool" where
  "keep_alive h http_version =
     (case connection_tokens (headers_get h ''Connection'') of
        Some b \<Rightarrow> b
      | None \<Rightarrow> http_version = ''1.1'' \<or> http_version = ''HTTP/1.1'')"

definition headers_clear :: "headers \<Rightarrow> headers" where
  "headers_clear h = no_headers"

definition headers_size :: "headers \<Rightarrow> nat" where
  "headers_size h = length (h_map h)"

definition headers_empty :: "headers \<Rightarrow> bool" where
  "headers_empty h \<longleftrightarrow> h_map h = []"

definition append_serialized_header :: "string \<Rightarrow> string \<Rightarrow> string \<Rightarrow> string" where
  "append_serialized_header out name v = out @ name @ '': '' @ v @ crlf"

definition serialize_entry :: "headers \<Rightarrow> string \<Rightarrow> string \<times> string \<Rightarrow> string" where
  "serialize_entry h result = (\<lambda>(name, v).
     case imap_find name (h_values h) of
       Some vs \<Rightarrow>
         if ascii_iequals name ''Set-Cookie''
         then foldl (\<lambda>r cookie. r @ name @ '': '' @ cookie @ crlf) result vs
         else append_serialized_header result name v
     | None \<Rightarrow> append_serialized_header result name v)"

text \<open>\<open>order\<close> is the order in which the library iterates over the map.\<close>

definition headers_serialize :: "(string imap \<Rightarrow> string imap) \<Rightarrow> headers \<Rightarrow> string" where
  "headers_serialize order h = foldl (serialize_entry h) [] (order (h_map h))"

section \<open>Lookups after updates\<close>

lemma imap_find_cong: "ascii_iequals k k' \<Longrightarrow> imap_find k m = imap_find k' m"
  by (induction m) (auto simp: ascii_iequals_iff)

lemma imap_find_put: "imap_find k' (imap_put k v m) = (if ascii_iequals k k' then Some v else imap_find k' m)"
  by (induction m) (auto simp: ascii_iequals_iff)

lemma imap_find_erase: "imap_find k' (imap_erase k m) = (if ascii_iequals k k' then None else imap_find k' m)"
  by (induction m) (auto simp: imap_erase_def ascii_iequals_iff)

lemma imap_find_append: "imap_find k (m @ m') = (case imap_find k m of Some v \<Rightarrow> Some v | None \<Rightarrow> imap_find k m')"
  by (induction m) auto

end
