(* ===== verification/Http_Headers_Props.thy ===== *)
theory Http_Headers_Props
  imports Http_Headers
begin

text \<open>
  The header collection is well-formed after any sequence of operations: the map of combined values and the
  index of single field lines agree, and no field can break out of its line when it is serialized.
\<close>

section \<open>Well-formed collections\<close>

fun lower_keys :: "'v imap \<Rightarrow> string list" where
  "lower_keys [] = []"
| "lower_keys ((k, v) # m) = map tolower k # lower_keys m"

definition imap_ok :: "'v imap \<Rightarrow> bool" where
  "imap_ok m \<longleftrightarrow> distinct (lower_keys m) \<and> list_all (\<lambda>(k, v). is_valid_header_name k) m"

fun joined :: "string list \<Rightarrow> string" where
  "joined [] = []"
| "joined [v] = v"
| "joined (v # vs) = v @ '', '' @ joined vs"

text \<open>The combined value of a name and its single field lines.\<close>

definition synced :: "string \<Rightarrow> string \<Rightarrow> string list \<Rightarrow> bool" where
  "synced k v vs \<longleftrightarrow> vs \<noteq> [] \<and> list_all is_valid_header_value vs \<and> v = (if ascii_iequals k ''Set-Cookie'' then hd vs else joined vs)"

definition entry_synced :: "string \<Rightarrow> string option \<Rightarrow> string list option \<Rightarrow> bool" where
  "entry_synced k v vs = (case v of None \<Rightarrow> vs = None | Some x \<Rightarrow> (case vs of None \<Rightarrow> False | Some xs \<Rightarrow> synced k x xs))"

definition headers_wf :: "headers \<Rightarrow> bool" where
  "headers_wf h \<longleftrightarrow> imap_ok (h_map h) \<and> imap_ok (h_values h) \<and>
     (\<forall>k. entry_synced k (imap_find k (h_map h)) (imap_find k (h_values h)))"

datatype header_op =
    Op_set string string | Op_add string string | Op_remove string | Op_clear
  | Op_content_length nat | Op_content_type string

text \<open>An operation that throws has not changed the collection.\<close>

definition or_unchanged :: "headers \<Rightarrow> header_error + headers \<Rightarrow> headers" where
  "or_unchanged h r = (case r of Inl e \<Rightarrow> h | Inr h' \<Rightarrow> h')"

fun header_exec :: "headers \<Rightarrow> header_op \<Rightarrow> headers" where
  "header_exec h (Op_set n v) = or_unchanged h (headers_set n v h)"
| "header_exec h (Op_add n v) = or_unchanged h (headers_add n v h)"
| "header_exec h (Op_remove n) = headers_remove n h"
| "header_exec h Op_clear = headers_clear h"
| "header_exec h (Op_content_length n) = or_unchanged h (set_content_length n h)"
| "header_exec h (Op_content_type v) = or_unchanged h (set_content_type v h)"

section \<open>Updates\<close>

lemma lower_keys_append [simp]: "lower_keys (m @ m') = lower_keys m @ lower_keys m'"
  by (induction m rule: lower_keys.induct) simp_all

lemma imap_find_None: "imap_find k m = None \<longleftrightarrow> map tolower k \<notin> set (lower_keys m)"
  by (induction m rule: lower_keys.induct) (auto simp: ascii_iequals_iff)

lemma set_lower_keys_put: "set (lower_keys (imap_put k v m)) = insert (map tolower k) (set (lower_keys m))"
  by (induction m rule: lower_keys.induct) (auto simp: ascii_iequals_iff)

lemma imap_ok_put: "imap_ok m \<Longrightarrow> is_valid_header_name k \<Longrightarrow> imap_ok (imap_put k v m)"
  by (induction m rule: lower_keys.induct) (auto simp: imap_ok_def ascii_iequals_iff set_lower_keys_put)

lemma set_lower_keys_erase: "set (lower_keys (imap_erase k m)) \<subseteq> set (lower_keys m)"
  by (induction m rule: lower_keys.induct) (auto simp: imap_erase_def)

lemma imap_ok_erase: "imap_ok m \<Longrightarrow> imap_ok (imap_erase k m)"
proof (induction m rule: lower_keys.induct)
  case (2 k' v m)
  then show ?case using set_lower_keys_erase [of k m] by (auto simp: imap_ok_def imap_erase_def)
qed (simp add: imap_ok_def imap_erase_def)

lemma imap_ok_snoc: "imap_ok m \<Longrightarrow> imap_find k m = None \<Longrightarrow> is_valid_header_name k \<Longrightarrow> imap_ok (m @ [(k, v)])"
  by (auto simp: imap_ok_def imap_find_None)

lemma synced_cong: "ascii_iequals k k' \<Longrightarrow> synced k v vs = synced k' v vs"
  by (simp add: synced_def ascii_iequals_iff)

lemma joined_snoc: "vs \<noteq> [] \<Longrightarrow> joined (vs @ [v]) = joined vs @ '', '' @ v"
  by (induction vs rule: joined.induct) simp_all

lemma headers_wfD:
  assumes "headers_wf h"
  shows "imap_ok (h_map h)" "imap_ok (h_values h)"
    "entry_synced k (imap_find k (h_map h)) (imap_find k (h_values h))"
  using assms by (auto simp: headers_wf_def)

lemma entry_synced_simps [simp]:
  "entry_synced k None None" "is_valid_header_value v \<Longrightarrow> entry_synced k (Some v) (Some [v])"
  by (simp_all add: entry_synced_def synced_def)

lemma headers_set_wf:
  assumes "headers_wf h" "headers_set n v h = Inr h'"
  shows "headers_wf h'"
proof -
  have h': "h' = h\<lparr>h_map := imap_put n v (h_map h), h_values := imap_put n [v] (h_values h)\<rparr>"
      "is_valid_header_name n" "is_valid_header_value v"
    using assms(2) by (auto simp: headers_set_def split: if_splits)
  note w = headers_wfD [OF assms(1)]
  have "entry_synced k (imap_find k (h_map h')) (imap_find k (h_values h'))" for k
    using w(3) [of k] h'(3) by (simp add: h'(1) imap_find_put)
  then show ?thesis using w(1,2) h'(2) by (simp add: headers_wf_def h'(1) imap_ok_put)
qed

lemma headers_remove_wf: "headers_wf h \<Longrightarrow> headers_wf (headers_remove n h)"
  by (simp add: headers_wf_def headers_remove_def imap_ok_erase imap_find_erase)

lemma headers_clear_wf: "headers_wf (headers_clear h)" "headers_wf no_headers"
  by (simp_all add: headers_wf_def headers_clear_def no_headers_def imap_ok_def entry_synced_def)

lemma headers_add_wf:
  assumes wf: "headers_wf h" and a: "headers_add n v h = Inr h'"
  shows "headers_wf h'"
proof -
  have v: "is_valid_header_name n" "is_valid_header_value v" using a by (auto simp: headers_add_def split: if_splits)
  note w = headers_wfD [OF wf]
  show ?thesis
  proof (cases "imap_find n (h_map h)")
    case None
    then have n2: "imap_find n (h_values h) = None" using w(3) [of n] by (simp add: entry_synced_def)
    then have h': "h' = h\<lparr>h_map := h_map h @ [(n, v)], h_values := h_values h @ [(n, [v])]\<rparr>"
      using a v None by (simp add: headers_add_def)
    have "entry_synced k (imap_find k (h_map h')) (imap_find k (h_values h'))" for k
    proof (cases "ascii_iequals n k")
      case True
      then have "imap_find k (h_map h) = None" "imap_find k (h_values h) = None"
        using None n2 imap_find_cong [OF True] by metis+
      then show ?thesis using True v by (simp add: h' imap_find_append entry_synced_def synced_def)
    next
      case False
      then show ?thesis using w(3) [of k] by (auto simp: h' imap_find_append split: option.split)
    qed
    then show ?thesis using w(1,2) v None n2 by (simp add: headers_wf_def h' imap_ok_snoc)
  next
    case (Some old)
    then obtain vs where vs: "imap_find n (h_values h) = Some vs" "synced n old vs"
      using w(3) [of n] by (auto simp: entry_synced_def split: option.splits)
    show ?thesis
    proof (cases "ascii_iequals n ''Content-Length''")
      case True
      then have "h' = h" using a v Some by (simp add: headers_add_def split: if_splits)
      with wf show ?thesis by simp
    next
      case False
      let ?new = "if ascii_iequals n ''Set-Cookie'' then old else old @ '', '' @ v"
      have s: "synced n ?new (vs @ [v])" using vs(2) v(2) by (auto simp: synced_def joined_snoc)
      have find: "imap_find k (h_map h') = (if ascii_iequals n k then Some ?new else imap_find k (h_map h))" for k
        using a v Some vs(1) False imap_find_cong [of n k "h_map h"]
        by (auto simp: headers_add_def Let_def imap_find_put split: if_splits)
      have ok: "imap_ok (h_map h')" using a v Some vs(1) False w(1)
        by (auto simp: headers_add_def Let_def imap_ok_put split: if_splits)
      have hv: "h_values h' = imap_put n (vs @ [v]) (h_values h)"
        using a v Some vs(1) False by (auto simp: headers_add_def Let_def split: if_splits)
      have "entry_synced k (imap_find k (h_map h')) (imap_find k (h_values h'))" for k
        using s w(3) [of k] synced_cong [of n k] by (auto simp: find hv imap_find_put entry_synced_def)
      then show ?thesis using ok w(2) v(1) by (simp add: headers_wf_def hv imap_ok_put)
    qed
  qed
qed

lemma header_exec_wf: "headers_wf h \<Longrightarrow> headers_wf (header_exec h x)"
  by (cases x) (auto simp: or_unchanged_def set_content_length_def set_content_type_def headers_remove_wf headers_clear_wf
      split: sum.split dest: headers_set_wf headers_add_wf)

lemma header_ops_wf: "headers_wf h \<Longrightarrow> headers_wf (foldl header_exec h ops)"
  by (induction ops arbitrary: h) (auto intro: header_exec_wf)

section \<open>Serialization\<close>

definition entry_fields :: "headers \<Rightarrow> string \<times> string \<Rightarrow> (string \<times> string) list" where
  "entry_fields h = (\<lambda>(n, v). if ascii_iequals n ''Set-Cookie'' then map (Pair n) (headers_get_all h n) else [(n, v)])"

definition field_line :: "string \<times> string \<Rightarrow> string" where
  "field_line = (\<lambda>(n, v). n @ '': '' @ v @ crlf)"

lemma foldl_lines: "foldl (\<lambda>r x. r @ f x) r xs = r @ concat (map f xs)"
  by (induction xs arbitrary: r) auto

lemma lower_keys_entry: "(k, v) \<in> set m \<Longrightarrow> map tolower k \<in> set (lower_keys m)"
  by (induction m rule: lower_keys.induct) auto

lemma imap_find_entry: "imap_ok m \<Longrightarrow> (k, v) \<in> set m \<Longrightarrow> imap_find k m = Some v"
  by (induction m rule: lower_keys.induct) (auto simp: imap_ok_def ascii_iequals_iff dest: lower_keys_entry)

lemma serialize_entry_lines:
  assumes "headers_wf h" "(n, v) \<in> set (h_map h)"
  shows "serialize_entry h r (n, v) = r @ concat (map field_line (entry_fields h (n, v)))"
    "list_all (\<lambda>(n, v). is_valid_header_name n \<and> is_valid_header_value v) (entry_fields h (n, v))"
proof -
  note w = headers_wfD [OF assms(1)]
  have f: "imap_find n (h_map h) = Some v" using imap_find_entry [OF w(1) assms(2)] .
  then obtain vs where vs: "imap_find n (h_values h) = Some vs" "synced n v vs"
    using w(3) [of n] by (auto simp: entry_synced_def split: option.splits)
  have "foldl (\<lambda>r c. r @ n @ '': '' @ c @ crlf) r vs = r @ concat (map field_line (map (Pair n) vs))"
    using foldl_lines [of "\<lambda>c. field_line (n, c)" r vs] by (simp add: field_line_def comp_def)
  with vs(1) show "serialize_entry h r (n, v) = r @ concat (map field_line (entry_fields h (n, v)))"
    by (simp add: serialize_entry_def entry_fields_def headers_get_all_def append_serialized_header_def field_line_def)
  have nm: "is_valid_header_name n" using w(1) assms(2) by (auto simp: imap_ok_def list_all_iff)
  have j: "list_all is_valid_header_value xs \<Longrightarrow> is_valid_header_value (joined xs)" for xs
    by (induction xs rule: joined.induct) (simp_all add: is_valid_header_value_def)
  show "list_all (\<lambda>(n, v). is_valid_header_name n \<and> is_valid_header_value v) (entry_fields h (n, v))"
    using vs nm j [of vs] by (auto simp: entry_fields_def headers_get_all_def synced_def list_all_iff)
qed

lemma serialize_lines:
  assumes "headers_wf h" "set es \<subseteq> set (h_map h)"
  shows "foldl (serialize_entry h) r es = r @ concat (map field_line (concat (map (entry_fields h) es)))"
    "list_all (\<lambda>(n, v). is_valid_header_name n \<and> is_valid_header_value v) (concat (map (entry_fields h) es))"
  using assms(2) by (induction es arbitrary: r) (auto simp: serialize_entry_lines [OF assms(1)])

text \<open>
  C37: the header collection stays well-typed and cannot inject lines. After any sequence of operations, refused ones
  included, names are tokens and distinct up to case, values contain no control character such as a line end, and the
  index of field lines agrees with the map: the map holds the values of a name joined by commas, for Set-Cookie the
  first. The serialized block is, in the order the map is iterated, exactly one line per name, for
  Set-Cookie one line per value, each built from a valid name and a valid value.
\<close>

theorem http_headers_wf:
  assumes h: "h = foldl header_exec no_headers ops" and perm: "set (order (h_map h)) \<subseteq> set (h_map h)"
  shows "headers_wf h \<and>
    headers_serialize order h = concat (map field_line (concat (map (entry_fields h) (order (h_map h))))) \<and>
    list_all (\<lambda>(n, v). is_valid_header_name n \<and> is_valid_header_value v) (concat (map (entry_fields h) (order (h_map h))))"
proof -
  have "headers_wf h" unfolding h by (intro header_ops_wf headers_clear_wf)
  with serialize_lines [OF this perm] show ?thesis by (simp add: headers_serialize_def)
qed

definition sample_ops :: "header_op list" where
  "sample_ops = [Op_set ''Host'' ''a'', Op_add ''x'' (''1'' @ crlf), Op_add ''X'' ''1'', Op_add ''x'' ''2'',
     Op_add ''Set-Cookie'' ''c'', Op_add ''set-cookie'' ''d'', Op_remove ''HOST'']"

theorem http_headers_wf_witness:
  "headers_wf (foldl header_exec no_headers sample_ops) \<and>
    headers_serialize id (foldl header_exec no_headers sample_ops) =
      ''X: 1, 2'' @ crlf @ ''Set-Cookie: c'' @ crlf @ ''Set-Cookie: d'' @ crlf"
proof -
  let ?h = "foldl header_exec no_headers sample_ops"
  have "headers_serialize id ?h = ''X: 1, 2'' @ crlf @ ''Set-Cookie: c'' @ crlf @ ''Set-Cookie: d'' @ crlf" by code_simp
  with http_headers_wf [OF refl, of id sample_ops] show ?thesis by simp
qed

end
