(* ===== verification/Http_Chunk.thy ===== *)
theory Http_Chunk
  imports Http_Text
begin

text \<open>
  Chunked transfer coding as src/include/elio/http/http\_parser.hpp reads it: the chunk-size line with its
  extensions and the trailer lines. Positions into a line are the suffix that is left to read.
\<close>

section \<open>Definitions\<close>

definition kMaxChunkSize :: size_t where
  "kMaxChunkSize = push_bit 30 1"

definition is_hex_digit :: "char \<Rightarrow> bool" where
  "is_hex_digit c \<longleftrightarrow> CHR ''0'' \<le> c \<and> c \<le> CHR ''9'' \<or> CHR ''a'' \<le> c \<and> c \<le> CHR ''f'' \<or> CHR ''A'' \<le> c \<and> c \<le> CHR ''F''"

definition hex_digit_value :: "char \<Rightarrow> size_t" where
  "hex_digit_value c =
     (if CHR ''0'' \<le> c \<and> c \<le> CHR ''9'' then of_nat (code_of c - code_of (CHR ''0''))
      else if CHR ''a'' \<le> c \<and> c \<le> CHR ''f'' then of_nat (code_of c - code_of (CHR ''a'') + 10)
      else of_nat (code_of c - code_of (CHR ''A'') + 10))"

definition is_quoted_chunk_ext_char :: "char \<Rightarrow> bool" where
  "is_quoted_chunk_ext_char c \<longleftrightarrow>
     c = tab \<or> c = CHR '' '' \<or> code_of c \<ge> 0x21 \<and> code_of c \<le> 0x7E \<or> code_of c \<ge> 0x80"

text \<open>The text behind the opening quote; what is left behind the closing one, or failure.\<close>

fun chunk_ext_quoted_rest :: "string \<Rightarrow> string option" where
  "chunk_ext_quoted_rest [] = None"
| "chunk_ext_quoted_rest (c # cs) =
     (if c = CHR 0x22 then Some cs
      else if c = CHR 0x5C then
        (case cs of [] \<Rightarrow> None
         | e # rest \<Rightarrow> if \<not> is_quoted_chunk_ext_char e then None else chunk_ext_quoted_rest rest)
      else if \<not> is_quoted_chunk_ext_char c then None
      else chunk_ext_quoted_rest cs)"

definition parse_chunk_ext_quoted_string :: "string \<Rightarrow> string option" where
  "parse_chunk_ext_quoted_string s =
     (case s of [] \<Rightarrow> None | c # cs \<Rightarrow> if c \<noteq> CHR 0x22 then None else chunk_ext_quoted_rest cs)"

text \<open>The optional value of one extension; what is left behind it, or failure.\<close>

definition chunk_ext_value :: "string \<Rightarrow> string option" where
  "chunk_ext_value s =
     (if s \<noteq> [] \<and> hd s = CHR ''='' then
        let s = dropWhile is_ows (tl s) in
        if s = [] then None
        else if hd s = CHR 0x22 then parse_chunk_ext_quoted_string s
        else if takeWhile is_tchar s = [] then None
        else Some (dropWhile is_tchar s)
      else Some s)"

lemma chunk_ext_quoted_rest_length: "chunk_ext_quoted_rest s = Some t \<Longrightarrow> length t < length s"
proof (induction s arbitrary: t rule: length_induct)
  case (1 s)
  show ?case
  proof (cases s)
    case (Cons c cs)
    show ?thesis
    proof (cases "c = CHR 0x5C \<and> c \<noteq> CHR 0x22")
      case True
      with 1(2) Cons obtain e rest where "cs = e # rest" "chunk_ext_quoted_rest rest = Some t"
        by (auto split: list.splits if_splits)
      moreover from this Cons have "length t < length rest" using 1(1) by auto
      ultimately show ?thesis using Cons by simp
    next
      case False
      with 1(2) Cons have "t = cs \<or> chunk_ext_quoted_rest cs = Some t" by (auto split: if_splits)
      moreover have "chunk_ext_quoted_rest cs = Some t \<Longrightarrow> length t < length cs" using 1(1) Cons by auto
      ultimately show ?thesis using Cons by auto
    qed
  qed (use 1 in simp)
qed

lemma chunk_ext_value_length: "chunk_ext_value s = Some t \<Longrightarrow> length t \<le> length s"
proof -
  assume a: "chunk_ext_value s = Some t"
  have d: "length (dropWhile P u) \<le> length u" for P and u :: string by (rule length_dropWhile_le)
  have q: "parse_chunk_ext_quoted_string u = Some t \<Longrightarrow> length t \<le> length u" for u
    by (auto simp: parse_chunk_ext_quoted_string_def dest!: chunk_ext_quoted_rest_length split: list.splits if_splits)
  show ?thesis
  proof (cases "s \<noteq> [] \<and> hd s = CHR ''=''")
    case True
    let ?u = "dropWhile is_ows (tl s)"
    from a True have "t = dropWhile is_tchar ?u \<or> parse_chunk_ext_quoted_string ?u = Some t"
      by (auto simp: chunk_ext_value_def Let_def split: if_splits)
    then have "length t \<le> length ?u" using q d by auto
    also have "\<dots> \<le> length (tl s)" by (rule d)
    finally show ?thesis by simp
  next
    case False
    with a show ?thesis by (simp add: chunk_ext_value_def)
  qed
qed

function validate_chunk_extensions :: "string \<Rightarrow> bool" where
  "validate_chunk_extensions value =
     (let s = dropWhile is_ows value in
      if s = [] then True
      else if hd s \<noteq> CHR '';'' then False
      else
        let s = dropWhile is_ows (tl s) in
        if takeWhile is_tchar s = [] then False
        else
          let s = dropWhile is_ows (dropWhile is_tchar s) in
          case chunk_ext_value s of
            None \<Rightarrow> False
          | Some rest \<Rightarrow> validate_chunk_extensions rest)"
  by auto
termination
proof (relation "measure length", simp)
  fix val x xa xb rest
  assume a: "x = dropWhile is_ows val" "x \<noteq> []" "xa = dropWhile is_ows (tl x)"
    "xb = dropWhile is_ows (dropWhile is_tchar xa)" "chunk_ext_value xb = Some rest"
  have d: "length (dropWhile P u) \<le> length u" for P and u :: string by (rule length_dropWhile_le)
  have "length rest \<le> length xb" using a(5) by (rule chunk_ext_value_length)
  also have "\<dots> \<le> length xa" using d le_trans unfolding a(4) by blast
  also have "\<dots> \<le> length (tl x)" unfolding a(3) by (rule d)
  also have "\<dots> < length x" using a(2) by simp
  also have "\<dots> \<le> length val" unfolding a(1) by (rule d)
  finally show "(rest, val) \<in> measure length" by simp
qed

declare validate_chunk_extensions.simps [simp del]

datatype chunk_error = Chunk_Overflow | Chunk_Empty | Chunk_Exceeds | Chunk_Bad_Extension

text \<open>The digits of a size, with the check before each multiplication; what is left behind them.\<close>

fun chunk_size_digits :: "size_t \<Rightarrow> string \<Rightarrow> chunk_error + size_t \<times> string" where
  "chunk_size_digits n [] = Inr (n, [])"
| "chunk_size_digits n (c # cs) =
     (if is_hex_digit c then
        let d = hex_digit_value c in
        if n > (- 1 - d) div 16 then Inl Chunk_Overflow
        else chunk_size_digits (n * 16 + d) cs
      else Inr (n, c # cs))"

definition parse_chunk_size_line :: "string \<Rightarrow> chunk_error + size_t" where
  "parse_chunk_size_line line =
     ebind (chunk_size_digits 0 line) (\<lambda>(chunk_size, left).
       if length left = length line then Inl Chunk_Empty
       else if chunk_size > kMaxChunkSize then Inl Chunk_Exceeds
       else
         let rest = trim_ows left in
         if rest \<noteq> [] \<and> \<not> validate_chunk_extensions rest then Inl Chunk_Bad_Extension
         else Inr chunk_size)"

definition validate_chunk_trailer_line :: "string \<Rightarrow> bool" where
  "validate_chunk_trailer_line line =
     (case find_char (CHR '':'') line of
        None \<Rightarrow> False
      | Some colon \<Rightarrow>
          is_valid_header_name (take colon line) \<and> is_valid_header_value (trim_ows (drop (colon + 1) line)))"

definition buffered_line_size :: "string \<Rightarrow> nat" where
  "buffered_line_size buffer =
     (if 0 < length buffer \<and> last buffer = cr then length buffer - 1 else length buffer)"

section \<open>The size is the value of the digits\<close>

definition hex_val_from :: "nat \<Rightarrow> string \<Rightarrow> nat" where
  "hex_val_from n s = foldl (\<lambda>n c. n * 16 + unat (hex_digit_value c)) n s"

definition hex_val :: "string \<Rightarrow> nat" where
  "hex_val s = hex_val_from 0 s"

lemma unat_of_nat_small: "k < 2 ^ 64 \<Longrightarrow> unat (of_nat k :: size_t) = k"
  by (simp add: unsigned_of_nat take_bit_nat_eq_self)

lemma hex_digit_value_less: "is_hex_digit c \<Longrightarrow> unat (hex_digit_value c) < 16"
  unfolding is_hex_digit_def hex_digit_value_def less_eq_char_def
  by (auto simp: unat_of_nat_small simp del: of_nat_diff of_nat_add)

lemma hex_val_from_mono: "n \<le> hex_val_from n s"
proof (induction s arbitrary: n)
  case (Cons c s)
  have "n \<le> n * 16 + unat (hex_digit_value c)" by simp
  also have "\<dots> \<le> hex_val_from (n * 16 + unat (hex_digit_value c)) s" by (rule Cons.IH)
  finally show ?case by (simp add: hex_val_from_def)
qed (simp add: hex_val_from_def)

lemma chunk_size_guard:
  fixes n d :: size_t
  assumes "unat d < 16"
  shows "n > (- 1 - d) div 16 \<longleftrightarrow> 2 ^ 64 \<le> unat n * 16 + unat d"
proof -
  have m: "unat (- 1 - d) = 2 ^ 64 - 1 - unat d"
    by (subst unat_sub) (simp_all add: unsigned_minus_1_eq_mask mask_eq_exp_minus_1)
  have "n > (- 1 - d) div 16 \<longleftrightarrow> (2 ^ 64 - 1 - unat d) div 16 < unat n"
    by (simp add: word_less_nat_alt unat_div m)
  also have "\<dots> \<longleftrightarrow> 2 ^ 64 \<le> unat n * 16 + unat d" using assms by (simp add: div_less_iff_less_mult) arith
  finally show ?thesis .
qed

lemma chunk_size_digits_exact:
  "chunk_size_digits n s =
     (let v = hex_val_from (unat n) (takeWhile is_hex_digit s) in
      if 2 ^ 64 \<le> v then Inl Chunk_Overflow else Inr (of_nat v, dropWhile is_hex_digit s))"
proof (induction s arbitrary: n)
  case Nil
  have "unat n < 2 ^ 64" using unsigned_less [of n, where ?'a = nat] by simp
  then show ?case by (simp add: hex_val_from_def)
next
  case (Cons c s)
  have n64: "unat n < 2 ^ 64" using unsigned_less [of n, where ?'a = nat] by simp
  show ?case
  proof (cases "is_hex_digit c")
    case False
    with n64 show ?thesis by (simp add: hex_val_from_def)
  next
    case True
    let ?d = "hex_digit_value c"
    note g = chunk_size_guard [OF hex_digit_value_less [OF True], of n]
    have v: "hex_val_from (unat n) (takeWhile is_hex_digit (c # s)) =
        hex_val_from (unat n * 16 + unat ?d) (takeWhile is_hex_digit s)"
      using True by (simp add: hex_val_from_def)
    show ?thesis
    proof (cases "2 ^ 64 \<le> unat n * 16 + unat ?d")
      case big: True
      then have "2 ^ 64 \<le> hex_val_from (unat n * 16 + unat ?d) (takeWhile is_hex_digit s)"
        using hex_val_from_mono le_trans by blast
      with True big g v show ?thesis by (simp add: Let_def)
    next
      case False
      then have "unat (n * 16 + ?d) = unat n * 16 + unat ?d" by (simp add: unat_word_ariths)
      with True False g v Cons.IH [of "n * 16 + ?d"] show ?thesis by (simp add: Let_def)
    qed
  qed
qed

lemma hex_val_bound: "hex_val ds \<le> unat kMaxChunkSize \<Longrightarrow> \<not> 2 ^ 64 \<le> hex_val ds"
  by (simp add: kMaxChunkSize_def)

lemma parse_chunk_size_line_exact:
  "parse_chunk_size_line line = Inr n \<longleftrightarrow>
     takeWhile is_hex_digit line \<noteq> [] \<and> unat n = hex_val (takeWhile is_hex_digit line) \<and> unat n \<le> 2 ^ 30 \<and>
     (trim_ows (dropWhile is_hex_digit line) = [] \<or>
      validate_chunk_extensions (trim_ows (dropWhile is_hex_digit line)))"
proof -
  let ?ds = "takeWhile is_hex_digit line" and ?r = "dropWhile is_hex_digit line"
  have l: "length ?r = length line \<longleftrightarrow> ?ds = []"
    by (metis append_Nil length_append length_0_conv add_cancel_left_left takeWhile_dropWhile_id)
  have k: "unat kMaxChunkSize = 2 ^ 30" by (simp add: kMaxChunkSize_def)
  show ?thesis
  proof (cases "2 ^ 64 \<le> hex_val ?ds")
    case True
    then have "\<not> (unat n = hex_val ?ds \<and> unat n \<le> 2 ^ 30)" by auto
    with True show ?thesis by (auto simp: parse_chunk_size_line_def chunk_size_digits_exact hex_val_def)
  next
    case False
    then have u: "unat (of_nat (hex_val ?ds) :: size_t) = hex_val ?ds"
      by (intro unat_of_nat_small) simp
    have e: "of_nat (hex_val ?ds) = n \<longleftrightarrow> unat n = hex_val ?ds" using u by (metis word_unat_eq_iff)
    have c: "chunk_size_digits 0 line = Inr (of_nat (hex_val ?ds), ?r)"
      using False by (simp add: chunk_size_digits_exact hex_val_def Let_def)
    show ?thesis
      unfolding parse_chunk_size_line_def c using l e u k
      by (auto simp: Let_def word_less_nat_alt not_less)
  qed
qed

section \<open>Hexadecimal output reads back\<close>

lemma is_hex_digit_char: "d < 16 \<Longrightarrow> is_hex_digit (digit_char d)"
  by (cases "d < 10") (simp_all add: is_hex_digit_def less_eq_char_def code_of_digit_char)

lemma hex_value_digit_char: "d < 16 \<Longrightarrow> unat (hex_digit_value (digit_char d)) = d"
  by (cases "d < 10") (simp_all add: hex_digit_value_def less_eq_char_def code_of_digit_char unat_of_nat_small)

lemma to_chars_hex_ok: "list_all is_hex_digit (to_chars_hex n) \<and> to_chars_hex n \<noteq> [] \<and> hex_val (to_chars_hex n) = n"
  unfolding to_chars_hex_def
proof (induction n rule: less_induct)
  case (less n)
  show ?case
  proof (cases "n < 16")
    case True
    then show ?thesis
      by (simp add: digits.simps [of 16 n] is_hex_digit_char hex_value_digit_char hex_val_def hex_val_from_def)
  next
    case False
    then have "n div 16 < n" by simp
    from less [OF this] False show ?thesis
      by (simp add: digits.simps [of 16 n] is_hex_digit_char hex_value_digit_char hex_val_def hex_val_from_def)
  qed
qed

lemma parse_chunk_size_line_to_chars:
  assumes "n \<le> 2 ^ 30"
  shows "parse_chunk_size_line (to_chars_hex n) = Inr (of_nat n)"
proof -
  have t: "takeWhile is_hex_digit (to_chars_hex n) = to_chars_hex n" "dropWhile is_hex_digit (to_chars_hex n) = []"
    using to_chars_hex_ok [of n] by (auto simp: takeWhile_eq_all_conv dropWhile_eq_Nil_conv list_all_iff)
  have "unat (of_nat n :: size_t) = n" using assms by (simp add: unsigned_of_nat take_bit_nat_eq_self)
  then show ?thesis
    unfolding parse_chunk_size_line_exact t using to_chars_hex_ok [of n] assms by (simp add: trim_ows_def)
qed

end
