(* ===== verification/Incremental.thy ===== *)
theory Incremental
  imports Prelude
begin

text \<open>
  Incremental parsers. A parser works in steps on its own buffer until it has to wait or is done; new input is
  appended to the buffer. The interface asks that a step taken on the shorter buffer and the input that
  arrives later can be exchanged; then it does not matter how the network cuts the stream.
\<close>

inductive halts :: "('s \<Rightarrow> 's option) \<Rightarrow> 's \<Rightarrow> 's \<Rightarrow> bool" for stp :: "'s \<Rightarrow> 's option" where
  halts_stop: "stp s = None \<Longrightarrow> halts stp s s"
| halts_go: "stp s = Some t \<Longrightarrow> halts stp t u \<Longrightarrow> halts stp s u"

inductive_cases halts_elim: "halts stp s u"

lemma halts_unique: "halts stp s u \<Longrightarrow> halts stp s v \<Longrightarrow> u = v"
proof (induction arbitrary: v rule: halts.induct)
  case (halts_stop s)
  from halts_stop.prems halts_stop.hyps show ?case by (cases rule: halts.cases) auto
next
  case (halts_go s t u)
  from halts_go.prems halts_go.hyps have "halts stp t v" by (cases rule: halts.cases) auto
  then show ?case by (rule halts_go.IH)
qed

lemma halts_first: "stp s = Some t \<Longrightarrow> halts stp s u \<longleftrightarrow> halts stp t u"
  by (auto intro: halts_go elim: halts_elim)

lemma halts_stopped: "stp s = None \<Longrightarrow> halts stp s u \<longleftrightarrow> u = s"
  by (auto intro: halts_stop elim: halts_elim)

locale incremental_parser =
  fixes stp :: "'s \<Rightarrow> 's option"
    and feed :: "'s \<Rightarrow> 'b list \<Rightarrow> 's"
    and weight :: "'s \<Rightarrow> nat"
    and good :: "'s \<Rightarrow> bool"
  assumes good_stp: "good s \<Longrightarrow> stp s = Some t \<Longrightarrow> good t"
    and weight_stp: "good s \<Longrightarrow> stp s = Some t \<Longrightarrow> weight t < weight s"
    and good_feed: "good s \<Longrightarrow> good (feed s b)"
    and feed_feed: "good s \<Longrightarrow> feed (feed s a) b = feed s (a @ b)"
    and feed_stp: "good s \<Longrightarrow> stp s = Some t \<Longrightarrow> halts stp (feed s b) u \<longleftrightarrow> halts stp (feed t b) u"
begin

lemma good_halts: "halts stp s u \<Longrightarrow> good s \<Longrightarrow> good u"
  by (induction rule: halts.induct) (auto intro: good_stp)

lemma halting: "good s \<Longrightarrow> \<exists>u. halts stp s u"
proof (induction "weight s" arbitrary: s rule: less_induct)
  case less
  show ?case
  proof (cases "stp s")
    case (Some t)
    with less good_stp weight_stp obtain u where "halts stp t u" by blast
    with Some show ?thesis by (blast intro: halts_go)
  qed (blast intro: halts_stop)
qed

text \<open>Parsing first and appending later ends where appending first ends.\<close>

lemma feed_halted: "halts stp s t \<Longrightarrow> good s \<Longrightarrow> halts stp (feed t b) u \<longleftrightarrow> halts stp (feed s b) u"
  by (induction rule: halts.induct) (auto simp: feed_stp intro: good_stp)

lemma feed_chunks:
  assumes "good s" "halts stp (feed s a) t" "halts stp (feed t b) u"
  shows "halts stp (feed s (a @ b)) u"
  using assms feed_halted [OF assms(2) good_feed [OF assms(1)], of b u] by (simp add: feed_feed)

end

end
