(* ===== verification/Http_Request.thy ===== *)
theory Http_Request
  imports Incremental Http_Headers Http_Chunk
begin

text \<open>
  The request parser of src/include/elio/http/http\_parser.hpp. The stored counters are 64-bit words. The
  exception headers::add may throw is the left value of the results.
\<close>

section \<open>State\<close>

datatype parse_state =
    Ps_start | Ps_request_line | Ps_status_line | Ps_headers | Ps_body
  | Ps_chunk_size | Ps_chunk_data | Ps_chunk_trailer | Ps_complete | Ps_error

datatype parse_result = Need_More | Complete | Parse_Error

record request_parser =
  rp_state :: parse_state
  rp_method :: http_method
  rp_path :: string
  rp_query :: string
  rp_version :: string
  rp_headers :: headers
  rp_body :: string
  rp_buffer :: string
  rp_content_length :: size_t
  rp_body_received :: size_t
  rp_chunked :: bool
  rp_chunk_size :: size_t
  rp_error_message :: string
  rp_max_headers :: size_t
  rp_max_header_size :: size_t
  rp_header_count :: size_t

definition request_parser_ctor :: request_parser where
  "request_parser_ctor =
     \<lparr>rp_state = Ps_request_line, rp_method = GET, rp_path = [], rp_query = [], rp_version = [],
      rp_headers = no_headers, rp_body = [], rp_buffer = [], rp_content_length = 0, rp_body_received = 0,
      rp_chunked = False, rp_chunk_size = 0, rp_error_message = [], rp_max_headers = 100,
      rp_max_header_size = 8192, rp_header_count = 0\<rparr>"

definition rp_set_max_headers :: "size_t \<Rightarrow> request_parser \<Rightarrow> request_parser" where
  "rp_set_max_headers n p = p\<lparr>rp_max_headers := n\<rparr>"

definition rp_set_max_header_size :: "size_t \<Rightarrow> request_parser \<Rightarrow> request_parser" where
  "rp_set_max_header_size n p = p\<lparr>rp_max_header_size := n\<rparr>"

definition rp_reset :: "request_parser \<Rightarrow> request_parser" where
  "rp_reset p = p\<lparr>rp_state := Ps_request_line, rp_method := GET, rp_path := [], rp_query := [], rp_version := [],
     rp_headers := headers_clear (rp_headers p), rp_body := [], rp_content_length := 0, rp_body_received := 0,
     rp_chunked := False, rp_chunk_size := 0, rp_error_message := [], rp_header_count := 0\<rparr>"

definition rp_set_error :: "string \<Rightarrow> request_parser \<Rightarrow> request_parser" where
  "rp_set_error msg p = p\<lparr>rp_state := Ps_error, rp_error_message := msg\<rparr>"

definition rp_erase :: "nat \<Rightarrow> request_parser \<Rightarrow> request_parser" where
  "rp_erase n p = p\<lparr>rp_buffer := drop n (rp_buffer p)\<rparr>"

section \<open>The request line\<close>

text \<open>The request line without its line end: the changed parser, in the error state when it is refused.\<close>

definition request_line_fields :: "(string \<Rightarrow> bool) \<Rightarrow> string \<Rightarrow> request_parser \<Rightarrow> request_parser" where
  "request_line_fields pton line p =
     (case find_char (CHR '' '') line of
        None \<Rightarrow> rp_set_error ''Invalid request line: no method'' p
      | Some space1 \<Rightarrow>
        (case string_to_method (take space1 line) of
           None \<Rightarrow> rp_set_error ''Unknown HTTP method'' p
         | Some m \<Rightarrow>
           let p = p\<lparr>rp_method := m\<rparr>; after = drop (space1 + 1) line in
           (case find_char (CHR '' '') after of
              None \<Rightarrow> rp_set_error ''Invalid request line: no version'' p
            | Some n \<Rightarrow>
              let uri = take n after in
              if \<not> is_valid_request_target uri then rp_set_error ''Invalid request-target'' p
              else if m = CONNECT \<and> \<not> is_valid_connect_authority pton uri then
                rp_set_error ''Invalid CONNECT authority'' p
              else if list_ex (\<lambda>c. code_of c = 0 \<or> code_of c \<ge> 1 \<and> code_of c \<le> 0x1F \<or> code_of c = 0x7F) uri then
                rp_set_error ''Invalid character in request-target'' p
              else
                let p = (case find_char (CHR ''?'') uri of
                           Some q \<Rightarrow> p\<lparr>rp_path := take q uri, rp_query := drop (q + 1) uri\<rparr>
                         | None \<Rightarrow> p\<lparr>rp_path := uri\<rparr>);
                    p = p\<lparr>rp_version := drop (n + 1) after\<rparr>
                in if rp_version p = [] \<or> \<not> is_valid_http_version (rp_version p) then
                     rp_set_error ''Invalid HTTP version'' p
                   else p\<lparr>rp_state := Ps_headers\<rparr>)))"

definition parse_request_line :: "(string \<Rightarrow> bool) \<Rightarrow> request_parser \<Rightarrow> bool \<times> request_parser" where
  "parse_request_line pton p =
     (case find_crlf (rp_buffer p) of
        None \<Rightarrow> (False, p)
      | Some line_end \<Rightarrow>
          let q = request_line_fields pton (take line_end (rp_buffer p)) p in
          if rp_state q = Ps_error then (False, q) else (True, rp_erase (line_end + 2) q))"

section \<open>Header lines\<close>

text \<open>The empty line: which framing the body has.\<close>

definition finish_headers :: "request_parser \<Rightarrow> bool \<times> request_parser" where
  "finish_headers p =
     (let has_te = headers_contains (rp_headers p) ''Transfer-Encoding'';
          has_cl = headers_contains (rp_headers p) ''Content-Length'' in
      if has_te \<and> has_cl then
        (False, rp_set_error (''Both Transfer-Encoding and Content-Length present (RFC 7230 '' @ [CHR 0xC2, CHR 0xA7] @ ''3.3.3)'') p)
      else if rp_version p = ''HTTP/1.1'' \<and> length (headers_get_all (rp_headers p) ''Host'') \<noteq> 1 then
        (False, rp_set_error ''HTTP/1.1 requests require exactly one Host header'' p)
      else if rp_method p = CONNECT then
        if has_te then (False, rp_set_error ''CONNECT request cannot use Transfer-Encoding'' p)
        else if has_cl \<and> content_length (rp_headers p) \<noteq> Some 0 then
          (False, rp_set_error ''CONNECT request cannot have content'' p)
        else (True, p\<lparr>rp_state := Ps_complete\<rparr>)
      else if has_te then
        if \<not> is_chunked (rp_headers p) then
          (False, rp_set_error ''Unsupported Transfer-Encoding (chunked must be final)'' p)
        else (True, p\<lparr>rp_chunked := True, rp_state := Ps_chunk_size\<rparr>)
      else if has_cl then
        (case content_length (rp_headers p) of
           None \<Rightarrow> (False, rp_set_error ''Invalid Content-Length'' p)
         | Some len \<Rightarrow>
             let p = p\<lparr>rp_content_length := of_nat len\<rparr> in
             if rp_content_length p > 0 then (True, p\<lparr>rp_state := Ps_body\<rparr>)
             else (True, p\<lparr>rp_state := Ps_complete\<rparr>))
      else (True, p\<lparr>rp_state := Ps_complete\<rparr>))"

text \<open>A header line without its line end, from the length check to the insertion into the collection.\<close>

definition header_field :: "string \<Rightarrow> request_parser \<Rightarrow> header_error + request_parser" where
  "header_field line p =
     (if length line > unat (rp_max_header_size p) then Inr (rp_set_error ''Header line too long'' p)
      else case find_char (CHR '':'') line of
        None \<Rightarrow> Inr (rp_set_error ''Invalid header line'' p)
      | Some colon \<Rightarrow>
          let name = take colon line; v = trim_ows (drop (colon + 1) line) in
          if \<not> is_valid_header_name name then Inr (rp_set_error ''Invalid header name'' p)
          else if \<not> is_valid_header_value v then Inr (rp_set_error ''Invalid header value'' p)
          else if ascii_iequals name ''Content-Length'' \<and> headers_contains (rp_headers p) ''Content-Length'' \<and>
                  trim_ows (headers_get (rp_headers p) ''Content-Length'') \<noteq> v then
            Inr (rp_set_error ''Conflicting Content-Length headers'' p)
          else if rp_header_count p \<ge> rp_max_headers p then Inr (rp_set_error ''Too many headers'' p)
          else ebind (headers_add name v (rp_headers p))
                 (\<lambda>hs. Inr (p\<lparr>rp_header_count := rp_header_count p + 1, rp_headers := hs\<rparr>)))"

function parse_headers :: "request_parser \<Rightarrow> header_error + bool \<times> request_parser" where
  "parse_headers p =
     (case find_crlf (rp_buffer p) of
        None \<Rightarrow>
          Inr (False, if buffered_line_size (rp_buffer p) > unat (rp_max_header_size p)
                      then rp_set_error ''Header line too long'' p else p)
      | Some line_end \<Rightarrow>
          if line_end = 0 then Inr (finish_headers (rp_erase 2 p))
          else case header_field (take line_end (rp_buffer p)) p of
                 Inl e \<Rightarrow> Inl e
               | Inr q \<Rightarrow>
                   if rp_state q = Ps_error then Inr (False, q)
                   else parse_headers (q\<lparr>rp_buffer := drop (line_end + 2) (rp_buffer p)\<rparr>))"
  by auto
termination
  by (relation "measure (\<lambda>p. length (rp_buffer p))") (auto dest: find_crlf_length)

declare parse_headers.simps [simp del]

section \<open>Bodies\<close>

definition parse_body :: "request_parser \<Rightarrow> bool \<times> request_parser" where
  "parse_body p =
     (let remaining = rp_content_length p - rp_body_received p;
          available = min (unat remaining) (length (rp_buffer p));
          p = p\<lparr>rp_body := rp_body p @ take available (rp_buffer p)\<rparr>;
          p = rp_erase available p;
          p = p\<lparr>rp_body_received := rp_body_received p + of_nat available\<rparr>
      in if rp_body_received p \<ge> rp_content_length p then (True, p\<lparr>rp_state := Ps_complete\<rparr>) else (False, p))"

definition chunk_error_message :: "chunk_error \<Rightarrow> string" where
  "chunk_error_message e =
     (case e of Chunk_Overflow \<Rightarrow> ''Chunk size overflow'' | Chunk_Empty \<Rightarrow> ''Empty chunk size''
      | Chunk_Exceeds \<Rightarrow> ''Chunk size exceeds maximum'' | Chunk_Bad_Extension \<Rightarrow> ''Invalid chunk extension'')"

definition parse_chunk_size :: "request_parser \<Rightarrow> bool \<times> request_parser" where
  "parse_chunk_size p =
     (case find_crlf (rp_buffer p) of
        None \<Rightarrow>
          if buffered_line_size (rp_buffer p) > unat (rp_max_header_size p)
          then (True, rp_set_error ''Chunk size line too long'' p) else (False, p)
      | Some line_end \<Rightarrow>
          if line_end > unat (rp_max_header_size p) then (True, rp_set_error ''Chunk size line too long'' p)
          else case parse_chunk_size_line (take line_end (rp_buffer p)) of
                 Inl e \<Rightarrow> (True, rp_set_error (chunk_error_message e) p)
               | Inr n \<Rightarrow>
                   let p = rp_erase (line_end + 2) (p\<lparr>rp_chunk_size := n\<rparr>) in
                   (True, p\<lparr>rp_state := if rp_chunk_size p = 0 then Ps_chunk_trailer else Ps_chunk_data\<rparr>))"

definition parse_chunk_data :: "request_parser \<Rightarrow> bool \<times> request_parser" where
  "parse_chunk_data p =
     (let n = unat (rp_chunk_size p) in
      if length (rp_buffer p) < unat (rp_chunk_size p + 2) then (False, p)
      else if rp_buffer p ! n \<noteq> cr \<or> rp_buffer p ! (n + 1) \<noteq> lf then
        (True, rp_set_error ''Missing CRLF after chunk data'' p)
      else (True, rp_erase (n + 2) (p\<lparr>rp_body := rp_body p @ take n (rp_buffer p), rp_state := Ps_chunk_size\<rparr>)))"

definition parse_chunk_trailer :: "request_parser \<Rightarrow> bool \<times> request_parser" where
  "parse_chunk_trailer p =
     (case find_crlf (rp_buffer p) of
        None \<Rightarrow>
          if buffered_line_size (rp_buffer p) > unat (rp_max_header_size p)
          then (True, rp_set_error ''Trailer line too long'' p) else (False, p)
      | Some line_end \<Rightarrow>
          if line_end = 0 then (True, (rp_erase 2 p)\<lparr>rp_state := Ps_complete\<rparr>)
          else if line_end > unat (rp_max_header_size p) then (True, rp_set_error ''Trailer line too long'' p)
          else if rp_header_count p \<ge> rp_max_headers p then (True, rp_set_error ''Too many headers'' p)
          else if \<not> validate_chunk_trailer_line (take line_end (rp_buffer p)) then
            (True, rp_set_error ''Invalid trailer header'' p)
          else (True, rp_erase (line_end + 2) (p\<lparr>rp_header_count := rp_header_count p + 1\<rparr>)))"

section \<open>The loop\<close>

definition rp_dispatch :: "(string \<Rightarrow> bool) \<Rightarrow> request_parser \<Rightarrow> header_error + bool \<times> request_parser" where
  "rp_dispatch pton p =
     (case rp_state p of
        Ps_request_line \<Rightarrow> Inr (parse_request_line pton p)
      | Ps_headers \<Rightarrow> parse_headers p
      | Ps_body \<Rightarrow> Inr (parse_body p)
      | Ps_chunk_size \<Rightarrow> Inr (parse_chunk_size p)
      | Ps_chunk_data \<Rightarrow> Inr (parse_chunk_data p)
      | Ps_chunk_trailer \<Rightarrow> Inr (parse_chunk_trailer p)
      | _ \<Rightarrow> Inr (True, p))"

partial_function (option) rp_loop ::
  "(string \<Rightarrow> bool) \<Rightarrow> nat \<Rightarrow> request_parser \<Rightarrow> (header_error + parse_result \<times> nat \<times> request_parser) option" where
  "rp_loop pton consumed p =
     (if rp_buffer p \<noteq> [] \<and> rp_state p \<noteq> Ps_complete \<and> rp_state p \<noteq> Ps_error then
        (case rp_dispatch pton p of
           Inl e \<Rightarrow> Some (Inl e)
         | Inr (go, q) \<Rightarrow>
             (if go then rp_loop pton (consumed + (length (rp_buffer p) - length (rp_buffer q))) q
              else Some (Inr (if (rp_state p = Ps_request_line \<or> rp_state p = Ps_headers) \<and> rp_state q = Ps_error
                              then Parse_Error else Need_More,
                              consumed + (length (rp_buffer p) - length (rp_buffer q)), q))))
      else Some (Inr (if rp_state p = Ps_error then Parse_Error
                      else if rp_state p = Ps_complete then Complete else Need_More, consumed, p)))"

definition rp_parse ::
  "(string \<Rightarrow> bool) \<Rightarrow> string \<Rightarrow> request_parser \<Rightarrow> (header_error + parse_result \<times> nat \<times> request_parser) option" where
  "rp_parse pton data p = rp_loop pton 0 (p\<lparr>rp_buffer := rp_buffer p @ data\<rparr>)"

definition rp_take_remaining :: "request_parser \<Rightarrow> string \<times> request_parser" where
  "rp_take_remaining p = (rp_buffer p, p\<lparr>rp_buffer := []\<rparr>)"

definition rp_bytes_buffered :: "request_parser \<Rightarrow> nat" where
  "rp_bytes_buffered p = length (rp_buffer p) + length (rp_body p)"

definition declared_content_length :: "request_parser \<Rightarrow> size_t option" where
  "declared_content_length p =
     (if rp_chunked p then None
      else case rp_state p of
        Ps_body \<Rightarrow> Some (rp_content_length p)
      | Ps_complete \<Rightarrow> Some (rp_content_length p)
      | _ \<Rightarrow> None)"

end
