(* ===== verification/Http_Request_Steps.thy ===== *)
theory Http_Request_Steps
  imports Http_Request
begin

text \<open>
  The request parser in steps: one line, one piece of a body. Later input does not change a step, and every step
  makes progress, so the parser is an incremental parser in the sense of the interface.
\<close>

section \<open>One step\<close>

text \<open>The work of the loop cut at the points where it may wait: one line, one piece of a body.\<close>

definition rp_waits :: "request_parser \<Rightarrow> bool" where
  "rp_waits p \<longleftrightarrow> find_crlf (rp_buffer p) = None \<and> buffered_line_size (rp_buffer p) \<le> unat (rp_max_header_size p)"

definition rp_header_step :: "request_parser \<Rightarrow> request_parser option" where
  "rp_header_step p =
     (case find_crlf (rp_buffer p) of
        None \<Rightarrow> Some (rp_set_error ''Header line too long'' p)
      | Some e \<Rightarrow> if e = 0 then Some (snd (finish_headers (rp_erase 2 p)))
          else case header_field (take e (rp_buffer p)) p of
                 Inl _ \<Rightarrow> None
               | Inr q \<Rightarrow> Some (if rp_state q = Ps_error then q else rp_erase (e + 2) q))"

definition rp_step :: "(string \<Rightarrow> bool) \<Rightarrow> request_parser \<Rightarrow> request_parser option" where
  "rp_step pton p =
     (if rp_buffer p = [] then None
      else case rp_state p of
        Ps_request_line \<Rightarrow> if find_crlf (rp_buffer p) = None then None else Some (snd (parse_request_line pton p))
      | Ps_headers \<Rightarrow> if rp_waits p then None else rp_header_step p
      | Ps_body \<Rightarrow> Some (snd (parse_body p))
      | Ps_chunk_size \<Rightarrow> if rp_waits p then None else Some (snd (parse_chunk_size p))
      | Ps_chunk_data \<Rightarrow> if length (rp_buffer p) < unat (rp_chunk_size p + 2) then None else Some (snd (parse_chunk_data p))
      | Ps_chunk_trailer \<Rightarrow> if rp_waits p then None else Some (snd (parse_chunk_trailer p))
      | _ \<Rightarrow> None)"

definition rp_feed :: "request_parser \<Rightarrow> string \<Rightarrow> request_parser" where
  "rp_feed p b = p\<lparr>rp_buffer := rp_buffer p @ b\<rparr>"

definition rp_good :: "request_parser \<Rightarrow> bool" where
  "rp_good p \<longleftrightarrow> rp_state p \<noteq> Ps_start \<and> rp_state p \<noteq> Ps_status_line \<and>
     (rp_state p = Ps_request_line \<or> rp_state p = Ps_headers \<longrightarrow> rp_body_received p = 0) \<and>
     (rp_state p = Ps_body \<longrightarrow> rp_body_received p < rp_content_length p) \<and>
     (rp_state p = Ps_chunk_data \<longrightarrow> unat (rp_chunk_size p) \<le> 2 ^ 30)"

definition rp_weight :: "request_parser \<Rightarrow> nat" where
  "rp_weight p = 2 * length (rp_buffer p) + (if rp_state p = Ps_complete \<or> rp_state p = Ps_error then 0 else 1)"

section \<open>No exception escapes\<close>

lemma headers_add_no_throw:
  assumes "is_valid_header_name n" "is_valid_header_value (trim_ows v)"
    and "\<not> (ascii_iequals n ''Content-Length'' \<and> headers_contains h ''Content-Length'' \<and>
      trim_ows (headers_get h ''Content-Length'') \<noteq> trim_ows v)"
  shows "\<exists>h'. headers_add n (trim_ows v) h = Inr h'"
proof (cases "ascii_iequals n ''Content-Length''")
  case True
  then have f: "imap_find n (h_map h) = imap_find ''Content-Length'' (h_map h)" by (rule imap_find_cong)
  from assms True show ?thesis
    unfolding headers_add_def f headers_contains_def headers_get_def by (auto simp: Let_def split: option.splits)
next
  case False
  with assms show ?thesis by (auto simp: headers_add_def Let_def split: option.splits)
qed

lemma header_field_no_throw: "header_field l p \<noteq> Inl x"
proof
  assume "header_field l p = Inl x"
  then obtain colon where "find_char (CHR '':'') l = Some colon"
    and v: "is_valid_header_name (take colon l)" "is_valid_header_value (trim_ows (drop (colon + 1) l))"
    and a: "headers_add (take colon l) (trim_ows (drop (colon + 1) l)) (rp_headers p) = Inl x"
    and n: "\<not> (ascii_iequals (take colon l) ''Content-Length'' \<and> headers_contains (rp_headers p) ''Content-Length'' \<and>
        trim_ows (headers_get (rp_headers p) ''Content-Length'') \<noteq> trim_ows (drop (colon + 1) l))"
    by (auto simp: header_field_def Let_def ebind_Inl_iff split: option.splits if_splits)
  from headers_add_no_throw [OF v n] a show False by simp
qed

section \<open>Later input does not change a step\<close>

lemma rp_buffer_upd [simp]:
  "rp_set_error m (p\<lparr>rp_buffer := x\<rparr>) = (rp_set_error m p)\<lparr>rp_buffer := x\<rparr>"
  "rp_erase n (p\<lparr>rp_buffer := x\<rparr>) = p\<lparr>rp_buffer := drop n x\<rparr>"
  "rp_buffer (rp_set_error m p) = rp_buffer p" "rp_state (rp_set_error m p) = Ps_error"
  by (simp_all add: rp_set_error_def rp_erase_def)

text \<open>The request line without the parser: an error, or the method and what remains to be set.\<close>

lemma request_line_fields_cases:
  obtains (early) msg where "\<And>p. request_line_fields pton l p = rp_set_error msg p"
  | (late) m msg where "\<And>p. request_line_fields pton l p = rp_set_error msg (p\<lparr>rp_method := m\<rparr>)"
  | (vers) m u v where "\<And>p. request_line_fields pton l p =
      (let p = u (p\<lparr>rp_method := m\<rparr>); p = p\<lparr>rp_version := v\<rparr>
       in if v = [] \<or> \<not> is_valid_http_version v then rp_set_error ''Invalid HTTP version'' p else p\<lparr>rp_state := Ps_headers\<rparr>)"
      "\<exists>x y. u = (\<lambda>p. p\<lparr>rp_path := x, rp_query := y\<rparr>) \<or> u = (\<lambda>p. p\<lparr>rp_path := x\<rparr>)"
proof (cases "find_char (CHR '' '') l")
  case None
  then show ?thesis by (intro early) (simp add: request_line_fields_def)
next
  case s1: (Some i)
  show ?thesis
  proof (cases "string_to_method (take i l)")
    case None
    with s1 show ?thesis by (intro early) (simp add: request_line_fields_def)
  next
    case m: (Some m)
    let ?after = "drop (i + 1) l"
    show ?thesis
    proof (cases "find_char (CHR '' '') ?after")
      case None
      with s1 m show ?thesis by (intro late) (simp add: request_line_fields_def Let_def)
    next
      case n: (Some n)
      let ?uri = "take n ?after"
      note f = request_line_fields_def s1 m n Let_def option.case
      consider "\<not> is_valid_request_target ?uri" | "m = CONNECT \<and> \<not> is_valid_connect_authority pton ?uri"
        | "list_ex (\<lambda>c. code_of c = 0 \<or> code_of c \<ge> 1 \<and> code_of c \<le> 0x1F \<or> code_of c = 0x7F) ?uri"
        | "is_valid_request_target ?uri" "\<not> (m = CONNECT \<and> \<not> is_valid_connect_authority pton ?uri)"
          "\<not> list_ex (\<lambda>c. code_of c = 0 \<or> code_of c \<ge> 1 \<and> code_of c \<le> 0x1F \<or> code_of c = 0x7F) ?uri"
        by blast
      then show ?thesis
      proof cases
        case 1
        then show ?thesis by (intro late [of "''Invalid request-target''" m]) (simp only: f if_True not_True_eq_False not_False_eq_True)
      next
        case 2
        then show ?thesis
          by (cases "is_valid_request_target ?uri")
             (rule late, simp only: f if_True if_False not_True_eq_False not_False_eq_True simp_thms)+
      next
        case 3
        then show ?thesis
          by (cases "is_valid_request_target ?uri"; cases "m = CONNECT \<and> \<not> is_valid_connect_authority pton ?uri")
             (rule late, simp only: f if_True if_False not_True_eq_False not_False_eq_True simp_thms)+
      next
        case 4
        have e: "request_line_fields pton l p =
            (let p = (case find_char (CHR ''?'') ?uri of
                        Some q \<Rightarrow> p\<lparr>rp_method := m, rp_path := take q ?uri, rp_query := drop (q + 1) ?uri\<rparr>
                      | None \<Rightarrow> p\<lparr>rp_method := m, rp_path := ?uri\<rparr>);
                 p = p\<lparr>rp_version := drop (n + 1) ?after\<rparr>
             in if rp_version p = [] \<or> \<not> is_valid_http_version (rp_version p)
                then rp_set_error ''Invalid HTTP version'' p else p\<lparr>rp_state := Ps_headers\<rparr>)" for p
          using 4 by (simp only: f if_False not_True_eq_False simp_thms)
        show ?thesis
        proof (cases "find_char (CHR ''?'') ?uri")
          case None
          show ?thesis
            by (rule vers [of "\<lambda>p. p\<lparr>rp_path := ?uri\<rparr>" m "drop (n + 1) ?after"]) (unfold e None, simp_all add: Let_def, blast)
        next
          case (Some q)
          show ?thesis
            by (rule vers [of "\<lambda>p. p\<lparr>rp_path := take q ?uri, rp_query := drop (q + 1) ?uri\<rparr>" m "drop (n + 1) ?after"])
               (unfold e Some, simp_all add: Let_def, blast)
        qed
      qed
    qed
  qed
qed

lemma request_line_fields_buffer:
  "request_line_fields pton l (p\<lparr>rp_buffer := x\<rparr>) = (request_line_fields pton l p)\<lparr>rp_buffer := x\<rparr>"
  by (rule request_line_fields_cases [of pton l]) (auto simp: Let_def rp_set_error_def)

lemma request_line_fields_keeps [simp]: "rp_buffer (request_line_fields pton l p) = rp_buffer p"
  by (rule request_line_fields_cases [of pton l]) (auto simp: Let_def rp_set_error_def)

lemma finish_headers_buffer:
  "finish_headers (p\<lparr>rp_buffer := x\<rparr>) = (fst (finish_headers p), (snd (finish_headers p))\<lparr>rp_buffer := x\<rparr>)"
  by (cases "content_length (rp_headers p)") (simp_all add: finish_headers_def Let_def rp_set_error_def)

lemma finish_headers_keeps [simp]: "rp_buffer (snd (finish_headers p)) = rp_buffer p"
  by (cases "content_length (rp_headers p)") (simp_all add: finish_headers_def Let_def)

text \<open>A line that is complete stays, and one that is already too long stays too long.\<close>

lemma line_found:
  assumes "find_crlf (rp_buffer p) = Some e"
  shows "find_crlf (rp_buffer (rp_feed p b)) = Some e" "take e (rp_buffer (rp_feed p b)) = take e (rp_buffer p)"
    "drop (e + 2) (rp_buffer (rp_feed p b)) = drop (e + 2) (rp_buffer p) @ b"
    "drop 2 (rp_buffer (rp_feed p b)) = drop 2 (rp_buffer p) @ b"
  using find_crlf_append [OF assms] find_crlf_length [OF assms] by (simp_all add: rp_feed_def)

lemma buffered_line_size_append: "buffered_line_size s \<le> buffered_line_size (s @ t)"
  by (cases t) (auto simp: buffered_line_size_def)

lemma line_too_long:
  assumes "find_crlf (rp_buffer p) = None" "buffered_line_size (rp_buffer p) > n"
  shows "find_crlf (rp_buffer p @ b) = None \<and> buffered_line_size (rp_buffer p @ b) > n \<or>
    (\<exists>e > n. find_crlf (rp_buffer p @ b) = Some e)"
proof (cases "find_crlf (rp_buffer p @ b)")
  case None
  with assms(2) buffered_line_size_append [of "rp_buffer p" b] show ?thesis by simp
next
  case (Some e)
  have "rp_buffer p \<noteq> []" using assms(2) by (auto simp: buffered_line_size_def)
  then have "buffered_line_size (rp_buffer p) \<le> e"
    using find_crlf_later [OF assms(1) Some] by (auto simp: buffered_line_size_def)
  with assms(2) Some show ?thesis by auto
qed

lemma rp_other_fields:
  "rp_max_header_size (p\<lparr>rp_buffer := x\<rparr>) = rp_max_header_size p" "rp_headers (p\<lparr>rp_buffer := x\<rparr>) = rp_headers p"
  "rp_max_headers (p\<lparr>rp_buffer := x\<rparr>) = rp_max_headers p" "rp_header_count (p\<lparr>rp_buffer := x\<rparr>) = rp_header_count p"
  by simp_all

lemma header_field_cases:
  obtains (bad) msg where "\<And>x. header_field l (p\<lparr>rp_buffer := x\<rparr>) = Inr (rp_set_error msg (p\<lparr>rp_buffer := x\<rparr>))"
  | (fine) hs where "\<And>x. header_field l (p\<lparr>rp_buffer := x\<rparr>) =
      Inr (p\<lparr>rp_buffer := x, rp_header_count := rp_header_count p + 1, rp_headers := hs\<rparr>)"
proof (cases "find_char (CHR '':'') l")
  case None
  show ?thesis
    by (rule bad [of "if length l > unat (rp_max_header_size p) then ''Header line too long'' else ''Invalid header line''"])
       (simp add: header_field_def None)
next
  case (Some colon)
  let ?n = "take colon l" and ?v = "trim_ows (drop (colon + 1) l)"
  define b1 b2 b3 b4 b5 where "b1 = (length l > unat (rp_max_header_size p))"
    and "b2 = (\<not> is_valid_header_name ?n)" and "b3 = (\<not> is_valid_header_value ?v)"
    and "b4 = (ascii_iequals ?n ''Content-Length'' \<and> headers_contains (rp_headers p) ''Content-Length'' \<and>
      trim_ows (headers_get (rp_headers p) ''Content-Length'') \<noteq> ?v)"
    and "b5 = (rp_header_count p \<ge> rp_max_headers p)"
  note b = b1_def [symmetric] b2_def [symmetric] b3_def [symmetric] b4_def [symmetric] b5_def [symmetric]
  have e: "header_field l (p\<lparr>rp_buffer := x\<rparr>) =
      (if b1 then Inr (rp_set_error ''Header line too long'' (p\<lparr>rp_buffer := x\<rparr>))
       else if b2 then Inr (rp_set_error ''Invalid header name'' (p\<lparr>rp_buffer := x\<rparr>))
       else if b3 then Inr (rp_set_error ''Invalid header value'' (p\<lparr>rp_buffer := x\<rparr>))
       else if b4 then Inr (rp_set_error ''Conflicting Content-Length headers'' (p\<lparr>rp_buffer := x\<rparr>))
       else if b5 then Inr (rp_set_error ''Too many headers'' (p\<lparr>rp_buffer := x\<rparr>))
       else ebind (headers_add ?n ?v (rp_headers p))
         (\<lambda>hs. Inr (p\<lparr>rp_buffer := x, rp_header_count := rp_header_count p + 1, rp_headers := hs\<rparr>)))" for x
    unfolding header_field_def Some Let_def option.case rp_other_fields b ..
  show ?thesis
  proof (cases "b1 \<or> b2 \<or> b3 \<or> b4 \<or> b5")
    case True
    show ?thesis
      by (rule bad [of "if b1 then ''Header line too long'' else if b2 then ''Invalid header name'' else
            if b3 then ''Invalid header value'' else if b4 then ''Conflicting Content-Length headers'' else ''Too many headers''"])
         (use True e in auto)
  next
    case False
    show ?thesis
    proof (cases "headers_add ?n ?v (rp_headers p)")
      case (Inl x)
      with False e [of "rp_buffer p"] have "header_field l p = Inl x" by simp
      then show ?thesis using header_field_no_throw by blast
    next
      case (Inr hs)
      with False e show ?thesis by (intro fine) simp
    qed
  qed
qed

lemma header_field_buffer:
  assumes "header_field l p = Inr q"
  shows "header_field l (p\<lparr>rp_buffer := x\<rparr>) = Inr (q\<lparr>rp_buffer := x\<rparr>)" "rp_buffer q = rp_buffer p"
proof -
  have p: "p\<lparr>rp_buffer := rp_buffer p\<rparr> = p" by simp
  have "header_field l (p\<lparr>rp_buffer := x\<rparr>) = Inr (q\<lparr>rp_buffer := x\<rparr>) \<and> rp_buffer q = rp_buffer p"
  proof (cases rule: header_field_cases [of l p])
    case (bad msg)
    with bad [of "rp_buffer p", unfolded p] assms show ?thesis by (auto simp: rp_set_error_def)
  next
    case (fine hs)
    with fine [of "rp_buffer p", unfolded p] assms show ?thesis by auto
  qed
  then show "header_field l (p\<lparr>rp_buffer := x\<rparr>) = Inr (q\<lparr>rp_buffer := x\<rparr>)" "rp_buffer q = rp_buffer p" by blast+
qed

lemma header_field_long:
  "length l > unat (rp_max_header_size p) \<Longrightarrow> header_field l p = Inr (rp_set_error ''Header line too long'' p)"
  by (simp add: header_field_def)

lemma rp_feed_simps [simp]:
  "rp_state (rp_feed p b) = rp_state p" "rp_buffer (rp_feed p b) = rp_buffer p @ b"
  "rp_set_error m (rp_feed p b) = rp_feed (rp_set_error m p) b"
  "rp_max_header_size (rp_feed p b) = rp_max_header_size p" "rp_chunk_size (rp_feed p b) = rp_chunk_size p"
  "rp_feed p [] = p" "rp_feed (rp_feed p a) b = rp_feed p (a @ b)"
  by (simp_all add: rp_feed_def)

lemma parse_request_line_feed:
  assumes "find_crlf (rp_buffer p) = Some e"
  shows "snd (parse_request_line pton (rp_feed p b)) = rp_feed (snd (parse_request_line pton p)) b"
proof -
  note f = line_found [OF assms, of b, simplified]
  have r: "request_line_fields pton l (rp_feed p b) = (request_line_fields pton l p)\<lparr>rp_buffer := rp_buffer p @ b\<rparr>" for l
    by (simp add: rp_feed_def request_line_fields_buffer)
  show ?thesis
    using f(1,3) find_crlf_length [OF assms] by (simp add: parse_request_line_def assms Let_def r f(2)) (simp add: rp_feed_def rp_erase_def)
qed

lemma rp_header_step_feed:
  assumes "rp_header_step p = Some q" "\<not> rp_waits p"
  shows "rp_header_step (rp_feed p b) = Some (rp_feed q b) \<and> \<not> rp_waits (rp_feed p b)"
proof (cases "find_crlf (rp_buffer p)")
  case None
  then have q: "q = rp_set_error ''Header line too long'' p" "buffered_line_size (rp_buffer p) > unat (rp_max_header_size p)"
    using assms by (auto simp: rp_header_step_def rp_waits_def)
  from line_too_long [OF None q(2), of b] show ?thesis
  proof (elim disjE exE conjE)
    fix e assume e: "e > unat (rp_max_header_size p)" "find_crlf (rp_buffer p @ b) = Some e"
    have "length (take e (rp_buffer p @ b)) = e" using find_crlf_length [OF e(2)] by simp
    then have "header_field (take e (rp_buffer p @ b)) (rp_feed p b) = Inr (rp_feed q b)"
      using e(1) header_field_long [of "rp_feed p b" "take e (rp_buffer p @ b)"] q(1) by simp
    moreover have "rp_state q = Ps_error" by (simp add: q(1))
    ultimately show ?thesis using e by (simp add: rp_header_step_def rp_waits_def)
  qed (simp add: rp_header_step_def rp_waits_def q(1))
next
  case (Some e)
  note f = line_found [OF Some, of b, simplified]
  have w: "\<not> rp_waits (rp_feed p b)" using f(1) by (simp add: rp_waits_def)
  show ?thesis
  proof (cases "e = 0")
    case True
    have "rp_erase 2 (rp_feed p b) = (rp_erase 2 p)\<lparr>rp_buffer := drop 2 (rp_buffer p) @ b\<rparr>"
      using f(4) by (simp add: rp_erase_def rp_feed_def)
    then have "snd (finish_headers (rp_erase 2 (rp_feed p b))) = rp_feed (snd (finish_headers (rp_erase 2 p))) b"
      by (simp add: finish_headers_buffer) (simp add: rp_feed_def rp_erase_def)
    with True Some f(1) assms(1) w show ?thesis by (simp add: rp_header_step_def)
  next
    case False
    obtain r where r: "header_field (take e (rp_buffer p)) p = Inr r"
      using header_field_no_throw by (cases "header_field (take e (rp_buffer p)) p") auto
    have rb: "header_field (take e (rp_buffer p)) (rp_feed p b) = Inr (rp_feed r b)"
      using header_field_buffer [OF r] by (simp add: rp_feed_def)
    have "rp_erase (e + 2) (rp_feed r b) = rp_feed (rp_erase (e + 2) r) b"
      using header_field_buffer(2) [OF r] f(3) by (simp add: rp_feed_def rp_erase_def)
    with False Some f(1,2) assms(1) w r rb show ?thesis by (auto simp: rp_header_step_def)
  qed
qed

lemma parse_chunk_size_feed:
  assumes "\<not> rp_waits p"
  shows "snd (parse_chunk_size (rp_feed p b)) = rp_feed (snd (parse_chunk_size p)) b \<and> \<not> rp_waits (rp_feed p b)"
proof (cases "find_crlf (rp_buffer p)")
  case None
  then have l: "buffered_line_size (rp_buffer p) > unat (rp_max_header_size p)" using assms by (simp add: rp_waits_def)
  from line_too_long [OF None l, of b] None l show ?thesis
    by (auto simp: parse_chunk_size_def rp_waits_def)
next
  case (Some e)
  note f = line_found [OF Some, of b, simplified]
  have r: "rp_erase (e + 2) (rp_feed p b\<lparr>rp_chunk_size := n\<rparr>) = rp_feed (rp_erase (e + 2) (p\<lparr>rp_chunk_size := n\<rparr>)) b" for n
    using f(3) by (simp add: rp_feed_def rp_erase_def)
  show ?thesis
    using f(1) r find_crlf_length [OF Some] by (cases "parse_chunk_size_line (take e (rp_buffer p))")
      (simp_all add: parse_chunk_size_def Some f(2) Let_def rp_waits_def, simp_all add: rp_feed_def rp_erase_def)
qed

lemma parse_chunk_data_feed:
  assumes "\<not> length (rp_buffer p) < unat (rp_chunk_size p + 2)" "unat (rp_chunk_size p) \<le> 2 ^ 30"
  shows "snd (parse_chunk_data (rp_feed p b)) = rp_feed (snd (parse_chunk_data p)) b \<and>
    \<not> length (rp_buffer (rp_feed p b)) < unat (rp_chunk_size (rp_feed p b) + 2)"
proof -
  have u: "unat (rp_chunk_size p + 2) = unat (rp_chunk_size p) + 2" using assms(2) by (subst unat_add_small) simp_all
  with assms(1) have l: "unat (rp_chunk_size p) + 2 \<le> length (rp_buffer p)" by simp
  then show ?thesis
    using u by (simp add: parse_chunk_data_def Let_def nth_append) (simp add: rp_feed_def rp_erase_def)
qed

lemma parse_chunk_trailer_feed:
  assumes "\<not> rp_waits p"
  shows "snd (parse_chunk_trailer (rp_feed p b)) = rp_feed (snd (parse_chunk_trailer p)) b \<and> \<not> rp_waits (rp_feed p b)"
proof (cases "find_crlf (rp_buffer p)")
  case None
  then have l: "buffered_line_size (rp_buffer p) > unat (rp_max_header_size p)" using assms by (simp add: rp_waits_def)
  from line_too_long [OF None l, of b] None l show ?thesis
    by (auto simp: parse_chunk_trailer_def rp_waits_def)
next
  case (Some e)
  note f = line_found [OF Some, of b, simplified]
  show ?thesis
    using f(1,3,4) find_crlf_length [OF Some] by (simp add: parse_chunk_trailer_def Some f(2) rp_waits_def) (simp add: rp_feed_def rp_erase_def)
qed

lemma parse_body_eq:
  assumes r: "rp_body_received p < rp_content_length p"
  defines "m \<equiv> unat (rp_content_length p) - unat (rp_body_received p)"
  shows "snd (parse_body p) =
    (let a = min m (length (rp_buffer p)) in
     p\<lparr>rp_body := rp_body p @ take a (rp_buffer p), rp_buffer := drop a (rp_buffer p),
       rp_body_received := rp_body_received p + of_nat a,
       rp_state := if m \<le> length (rp_buffer p) then Ps_complete else rp_state p\<rparr>)"
    "a \<le> m \<Longrightarrow> unat (rp_body_received p + of_nat a) = unat (rp_body_received p) + a"
    "fst (parse_body p) \<longleftrightarrow> m \<le> length (rp_buffer p)"
proof -
  have lt: "unat (rp_body_received p) < unat (rp_content_length p)" using r by (simp add: word_less_nat_alt)
  have c64: "unat (rp_content_length p) < 2 ^ 64" using unsigned_less [of "rp_content_length p", where ?'a = nat] by simp
  have d: "unat (rp_content_length p - rp_body_received p) = m"
    using lt by (simp add: m_def unat_sub word_le_nat_alt)
  show add: "unat (rp_body_received p + of_nat a) = unat (rp_body_received p) + a" if "a \<le> m" for a
  proof -
    have "a < 2 ^ 64" using that c64 by (simp add: m_def)
    then have "unat (of_nat a :: size_t) = a" by (rule unat_of_nat_small)
    moreover have "unat (rp_body_received p) + a < 2 ^ 64" using that lt c64 by (simp add: m_def)
    ultimately show ?thesis by (simp add: unat_word_ariths)
  qed
  have ge: "rp_content_length p \<le> rp_body_received p + of_nat (min m (length (rp_buffer p))) \<longleftrightarrow> m \<le> length (rp_buffer p)"
    using add [of "min m (length (rp_buffer p))"] lt by (simp add: word_le_nat_alt m_def) linarith
  show "snd (parse_body p) =
    (let a = min m (length (rp_buffer p)) in
     p\<lparr>rp_body := rp_body p @ take a (rp_buffer p), rp_buffer := drop a (rp_buffer p),
       rp_body_received := rp_body_received p + of_nat a,
       rp_state := if m \<le> length (rp_buffer p) then Ps_complete else rp_state p\<rparr>)"
    using ge by (simp add: parse_body_def Let_def d rp_erase_def)
  show "fst (parse_body p) \<longleftrightarrow> m \<le> length (rp_buffer p)"
    using ge by (simp add: parse_body_def Let_def d rp_erase_def)
qed

lemma rp_step_body_feed:
  assumes st: "rp_state p = Ps_body" and r: "rp_body_received p < rp_content_length p"
    and q: "rp_step pton p = Some q"
  shows "halts (rp_step pton) (rp_feed p b) u \<longleftrightarrow> halts (rp_step pton) (rp_feed q b) u"
proof -
  define m where "m = unat (rp_content_length p) - unat (rp_body_received p)"
  note e = parse_body_eq [OF r, folded m_def]
  have ne: "rp_buffer p \<noteq> []" and q': "q = snd (parse_body p)" using q st by (auto simp: rp_step_def split: if_splits)
  have rf: "rp_body_received (rp_feed p b) < rp_content_length (rp_feed p b)" using r by (simp add: rp_feed_def)
  have mf: "unat (rp_content_length (rp_feed p b)) - unat (rp_body_received (rp_feed p b)) = m"
    by (simp add: rp_feed_def m_def)
  note ef = parse_body_eq(1) [OF rf, unfolded mf]
  have sf: "rp_step pton (rp_feed p b) = Some (snd (parse_body (rp_feed p b)))" using ne st by (simp add: rp_step_def)
  show ?thesis
  proof (cases "m \<le> length (rp_buffer p)")
    case True
    then have "snd (parse_body (rp_feed p b)) = rp_feed q b"
      unfolding q' e(1) ef by (simp add: Let_def rp_feed_def min_absorb1)
    with sf show ?thesis by (simp add: halts_first)
  next
    case False
    let ?n = "length (rp_buffer p)"
    have qe: "q = p\<lparr>rp_body := rp_body p @ rp_buffer p, rp_buffer := [], rp_body_received := rp_body_received p + of_nat ?n\<rparr>"
      using False st unfolding q' e(1) by (simp add: Let_def min_absorb2)
    show ?thesis
    proof (cases "b = []")
      case True
      with sf q' show ?thesis by (simp add: halts_first)
    next
      case ne': False
      have u: "unat (rp_body_received p + of_nat ?n) = unat (rp_body_received p) + ?n" using False by (intro e(2)) simp
      have rq: "rp_body_received (rp_feed q b) < rp_content_length (rp_feed q b)"
        using u False by (simp add: qe rp_feed_def word_less_nat_alt m_def)
      have mq: "unat (rp_content_length (rp_feed q b)) - unat (rp_body_received (rp_feed q b)) = m - ?n"
        using u by (simp add: qe rp_feed_def m_def)
      have k: "min m (length (rp_buffer p @ b)) = ?n + min (m - ?n) (length b)" using False by simp
      have "snd (parse_body (rp_feed q b)) = snd (parse_body (rp_feed p b))"
        using False unfolding ef parse_body_eq(1) [OF rq, unfolded mq] Let_def rp_feed_simps k
        by (simp add: qe rp_feed_def add.assoc)
      moreover have "rp_step pton (rp_feed q b) = Some (snd (parse_body (rp_feed q b)))"
        using ne' st by (simp add: rp_step_def qe)
      ultimately show ?thesis using sf by (simp add: halts_first)
    qed
  qed
qed

lemma rp_step_feed:
  assumes g: "rp_good p" and q: "rp_step pton p = Some q"
  shows "halts (rp_step pton) (rp_feed p b) u \<longleftrightarrow> halts (rp_step pton) (rp_feed q b) u"
proof (cases "rp_state p = Ps_body")
  case True
  with g q show ?thesis by (intro rp_step_body_feed) (simp_all add: rp_good_def)
next
  case False
  have ne: "rp_buffer p \<noteq> []" using q by (auto simp: rp_step_def)
  have "rp_step pton (rp_feed p b) = Some (rp_feed q b)"
  proof (cases "rp_state p")
    case Ps_request_line
    with q ne obtain e where "find_crlf (rp_buffer p) = Some e" "q = snd (parse_request_line pton p)"
      by (auto simp: rp_step_def split: if_splits)
    with Ps_request_line ne parse_request_line_feed [of p e pton b] find_crlf_append [of "rp_buffer p" e b]
    show ?thesis by (simp add: rp_step_def)
  next
    case Ps_headers
    with q ne have "\<not> rp_waits p" "rp_header_step p = Some q" by (auto simp: rp_step_def split: if_splits)
    with rp_header_step_feed [of p q b] Ps_headers ne show ?thesis by (simp add: rp_step_def)
  next
    case Ps_chunk_size
    with q ne have "\<not> rp_waits p" "q = snd (parse_chunk_size p)" by (auto simp: rp_step_def split: if_splits)
    with parse_chunk_size_feed [of p b] Ps_chunk_size ne show ?thesis by (simp add: rp_step_def)
  next
    case Ps_chunk_data
    with q ne have "\<not> length (rp_buffer p) < unat (rp_chunk_size p + 2)" "q = snd (parse_chunk_data p)"
      by (auto simp: rp_step_def split: if_splits)
    with parse_chunk_data_feed [of p b] Ps_chunk_data ne g show ?thesis by (simp add: rp_step_def rp_good_def)
  next
    case Ps_chunk_trailer
    with q ne have "\<not> rp_waits p" "q = snd (parse_chunk_trailer p)" by (auto simp: rp_step_def split: if_splits)
    with parse_chunk_trailer_feed [of p b] Ps_chunk_trailer ne show ?thesis by (simp add: rp_step_def)
  qed (use q ne False in \<open>auto simp: rp_step_def\<close>)
  then show ?thesis by (simp add: halts_first)
qed

section \<open>Every step makes progress\<close>

lemma request_line_fields_state:
  "rp_state (request_line_fields pton l p) = Ps_error \<or> rp_state (request_line_fields pton l p) = Ps_headers"
  "rp_body_received (request_line_fields pton l p) = rp_body_received p"
  by (rule request_line_fields_cases [of pton l]; auto simp: Let_def rp_set_error_def)+

lemma finish_headers_good:
  assumes "rp_body_received p = 0" "rp_state p = Ps_headers"
  shows "rp_good (snd (finish_headers p))"
  using assms by (cases "content_length (rp_headers p)") (simp_all add: finish_headers_def Let_def rp_good_def rp_set_error_def)

lemma header_field_state:
  assumes "header_field l p = Inr q"
  shows "rp_state q = Ps_error \<or> rp_state q = rp_state p" "rp_body_received q = rp_body_received p"
proof -
  have p: "p\<lparr>rp_buffer := rp_buffer p\<rparr> = p" by simp
  have "(rp_state q = Ps_error \<or> rp_state q = rp_state p) \<and> rp_body_received q = rp_body_received p"
  proof (cases rule: header_field_cases [of l p])
    case (bad msg)
    with bad [of "rp_buffer p", unfolded p] assms show ?thesis by (auto simp: rp_set_error_def)
  next
    case (fine hs)
    with fine [of "rp_buffer p", unfolded p] assms show ?thesis by auto
  qed
  then show "rp_state q = Ps_error \<or> rp_state q = rp_state p" "rp_body_received q = rp_body_received p" by blast+
qed

lemma rp_erase_simps [simp]:
  "rp_state (rp_erase n p) = rp_state p" "rp_buffer (rp_erase n p) = drop n (rp_buffer p)"
  "rp_body_received (rp_erase n p) = rp_body_received p" "rp_chunk_size (rp_erase n p) = rp_chunk_size p"
  by (simp_all add: rp_erase_def)

lemma rp_error_good: "rp_state p = Ps_error \<Longrightarrow> rp_good p"
  by (simp add: rp_good_def)

lemma rp_weight_less: "length (rp_buffer q) < length (rp_buffer p) \<Longrightarrow> rp_weight q < rp_weight p"
  by (simp add: rp_weight_def)

lemma rp_weight_error:
  "rp_state p \<noteq> Ps_complete \<Longrightarrow> rp_state p \<noteq> Ps_error \<Longrightarrow> rp_weight (rp_set_error m p) < rp_weight p"
  by (simp add: rp_weight_def)

lemma rp_set_error_good: "rp_good (rp_set_error m p)"
  by (rule rp_error_good) simp

lemma rp_header_step_good:
  assumes g: "rp_good p" and st: "rp_state p = Ps_headers" and s: "rp_header_step p = Some q"
  shows "rp_good q \<and> rp_weight q < rp_weight p"
proof (cases "find_crlf (rp_buffer p)")
  case None
  with s have "q = rp_set_error ''Header line too long'' p" by (simp add: rp_header_step_def)
  with st show ?thesis by (simp add: rp_set_error_good rp_weight_error)
next
  case (Some e)
  note l = find_crlf_length [OF Some]
  have r0: "rp_body_received p = 0" using g st by (simp add: rp_good_def)
  show ?thesis
  proof (cases "e = 0")
    case True
    with s Some have "q = snd (finish_headers (rp_erase 2 p))" by (simp add: rp_header_step_def)
    moreover have "rp_good (snd (finish_headers (rp_erase 2 p)))" using r0 st by (intro finish_headers_good) simp_all
    moreover have "rp_weight (snd (finish_headers (rp_erase 2 p))) < rp_weight p" using l by (intro rp_weight_less) simp
    ultimately show ?thesis by simp
  next
    case False
    with s Some obtain r where r: "header_field (take e (rp_buffer p)) p = Inr r"
        "q = (if rp_state r = Ps_error then r else rp_erase (e + 2) r)"
      by (auto simp: rp_header_step_def split: sum.splits)
    note rb = header_field_state [OF r(1)] header_field_buffer(2) [OF r(1)]
    show ?thesis
    proof (cases "rp_state r = Ps_error")
      case True
      with r(2) rb st show ?thesis by (simp add: rp_error_good rp_weight_def)
    next
      case False
      with r(2) have q': "q = rp_erase (e + 2) r" by simp
      have "rp_weight q < rp_weight p" using l rb(3) unfolding q' by (intro rp_weight_less) simp
      moreover have "rp_good q" using False rb st r0 by (simp add: q' rp_good_def)
      ultimately show ?thesis by simp
    qed
  qed
qed

lemma parse_request_line_good:
  fixes pton :: "string \<Rightarrow> bool"
  assumes g: "rp_good p" and st: "rp_state p = Ps_request_line" and e: "find_crlf (rp_buffer p) = Some e"
  defines "q \<equiv> snd (parse_request_line pton p)"
  shows "rp_good q \<and> rp_weight q < rp_weight p"
proof -
  let ?r = "request_line_fields pton (take e (rp_buffer p)) p"
  note l = find_crlf_length [OF e] and rs = request_line_fields_state [of pton "take e (rp_buffer p)" p]
  show ?thesis
  proof (cases "rp_state ?r = Ps_error")
    case True
    then have "q = ?r" by (simp add: q_def parse_request_line_def e Let_def)
    with True st show ?thesis by (simp add: rp_error_good rp_weight_def)
  next
    case False
    then have q': "q = rp_erase (e + 2) ?r" by (simp add: q_def parse_request_line_def e Let_def)
    have "rp_weight q < rp_weight p" using l unfolding q' by (intro rp_weight_less) simp
    moreover have "rp_good q" using False rs g st by (simp add: q' rp_good_def)
    ultimately show ?thesis by simp
  qed
qed

lemma parse_body_good:
  assumes r: "rp_body_received p < rp_content_length p" and st: "rp_state p = Ps_body" and ne: "rp_buffer p \<noteq> []"
  defines "q \<equiv> snd (parse_body p)"
  shows "rp_good q \<and> rp_weight q < rp_weight p"
proof -
  define m where "m = unat (rp_content_length p) - unat (rp_body_received p)"
  note e = parse_body_eq [OF r, folded m_def]
  have "0 < m" using r by (simp add: m_def word_less_nat_alt)
  then have w: "rp_weight q < rp_weight p" using ne unfolding q_def e(1) Let_def by (intro rp_weight_less) simp
  show ?thesis
  proof (cases "m \<le> length (rp_buffer p)")
    case True
    with w show ?thesis unfolding q_def e(1) by (simp add: Let_def rp_good_def)
  next
    case False
    then have "unat (rp_body_received p + of_nat (length (rp_buffer p))) < unat (rp_content_length p)"
      using e(2) [of "length (rp_buffer p)"] by (simp add: m_def)
    with False w st show ?thesis unfolding q_def e(1) by (simp add: Let_def rp_good_def word_less_nat_alt min_absorb2)
  qed
qed

lemma parse_chunk_size_good:
  assumes st: "rp_state p = Ps_chunk_size" and w: "\<not> rp_waits p"
  defines "q \<equiv> snd (parse_chunk_size p)"
  shows "rp_good q \<and> rp_weight q < rp_weight p"
proof -
  have err: "rp_good (rp_set_error m p) \<and> rp_weight (rp_set_error m p) < rp_weight p" for m
    using st by (simp add: rp_set_error_good rp_weight_error)
  show ?thesis
  proof (cases "find_crlf (rp_buffer p)")
    case None
    with w have "q = rp_set_error ''Chunk size line too long'' p" by (simp add: q_def parse_chunk_size_def rp_waits_def)
    with err show ?thesis by simp
  next
    case (Some e)
    show ?thesis
    proof (cases "e > unat (rp_max_header_size p)")
      case True
      with Some err show ?thesis by (simp add: q_def parse_chunk_size_def)
    next
      case False
      show ?thesis
      proof (cases "parse_chunk_size_line (take e (rp_buffer p))")
        case (Inl x)
        with Some False err show ?thesis by (simp add: q_def parse_chunk_size_def)
      next
        case (Inr n)
        then have n: "unat n \<le> 2 ^ 30" using parse_chunk_size_line_exact by blast
        have q': "q = (rp_erase (e + 2) (p\<lparr>rp_chunk_size := n\<rparr>))\<lparr>rp_state := if n = 0 then Ps_chunk_trailer else Ps_chunk_data\<rparr>"
          using Some False Inr by (simp add: q_def parse_chunk_size_def Let_def)
        have "rp_weight q < rp_weight p" using find_crlf_length [OF Some] unfolding q' by (intro rp_weight_less) simp
        with n q' show ?thesis by (simp add: rp_good_def)
      qed
    qed
  qed
qed

lemma parse_chunk_data_good:
  assumes st: "rp_state p = Ps_chunk_data" and ne: "rp_buffer p \<noteq> []"
  defines "q \<equiv> snd (parse_chunk_data p)"
  shows "\<not> length (rp_buffer p) < unat (rp_chunk_size p + 2) \<Longrightarrow> rp_good q \<and> rp_weight q < rp_weight p"
proof -
  let ?n = "unat (rp_chunk_size p)"
  assume l: "\<not> length (rp_buffer p) < unat (rp_chunk_size p + 2)"
  show ?thesis
  proof (cases "rp_buffer p ! ?n \<noteq> cr \<or> rp_buffer p ! (?n + 1) \<noteq> lf")
    case True
    then have "q = rp_set_error ''Missing CRLF after chunk data'' p" using l by (simp add: q_def parse_chunk_data_def Let_def)
    then show ?thesis using st by (simp add: rp_set_error_good rp_weight_error)
  next
    case False
    then have q': "q = rp_erase (?n + 2) (p\<lparr>rp_body := rp_body p @ take ?n (rp_buffer p), rp_state := Ps_chunk_size\<rparr>)"
      using l by (simp add: q_def parse_chunk_data_def Let_def)
    have "rp_weight q < rp_weight p" using ne unfolding q' by (intro rp_weight_less) simp
    then show ?thesis by (simp add: q' rp_good_def)
  qed
qed

lemma parse_chunk_trailer_good:
  assumes st: "rp_state p = Ps_chunk_trailer" and w: "\<not> rp_waits p"
  defines "q \<equiv> snd (parse_chunk_trailer p)"
  shows "rp_good q \<and> rp_weight q < rp_weight p"
proof -
  have err: "rp_good (rp_set_error m p) \<and> rp_weight (rp_set_error m p) < rp_weight p" for m
    using st by (simp add: rp_set_error_good rp_weight_error)
  show ?thesis
  proof (cases "find_crlf (rp_buffer p)")
    case None
    with w have "q = rp_set_error ''Trailer line too long'' p" by (simp add: q_def parse_chunk_trailer_def rp_waits_def)
    with err show ?thesis by simp
  next
    case (Some e)
    have "q = (rp_erase 2 p)\<lparr>rp_state := Ps_complete\<rparr> \<or> (\<exists>m. q = rp_set_error m p) \<or>
        q = rp_erase (e + 2) (p\<lparr>rp_header_count := rp_header_count p + 1\<rparr>)"
      using Some by (auto simp: q_def parse_chunk_trailer_def)
    then show ?thesis
    proof (elim disjE exE)
      assume q': "q = (rp_erase 2 p)\<lparr>rp_state := Ps_complete\<rparr>"
      have "rp_weight q < rp_weight p" using find_crlf_length [OF Some] unfolding q' by (intro rp_weight_less) simp
      then show ?thesis by (simp add: q' rp_good_def)
    next
      assume q': "q = rp_erase (e + 2) (p\<lparr>rp_header_count := rp_header_count p + 1\<rparr>)"
      have "rp_weight q < rp_weight p" using find_crlf_length [OF Some] unfolding q' by (intro rp_weight_less) simp
      then show ?thesis using st by (simp add: q' rp_good_def)
    qed (use err in simp)
  qed
qed

lemma rp_step_good:
  assumes g: "rp_good p" and q: "rp_step pton p = Some q"
  shows "rp_good q \<and> rp_weight q < rp_weight p"
proof -
  have ne: "rp_buffer p \<noteq> []" using q by (auto simp: rp_step_def)
  show ?thesis
  proof (cases "rp_state p")
    case Ps_request_line
    with q ne obtain e where "find_crlf (rp_buffer p) = Some e" "q = snd (parse_request_line pton p)"
      by (auto simp: rp_step_def split: if_splits)
    with parse_request_line_good [OF g Ps_request_line] show ?thesis by simp
  next
    case Ps_headers
    with q ne have "rp_header_step p = Some q" by (auto simp: rp_step_def split: if_splits)
    then show ?thesis by (rule rp_header_step_good [OF g Ps_headers])
  next
    case Ps_body
    with q ne have "q = snd (parse_body p)" by (auto simp: rp_step_def)
    with parse_body_good [OF _ Ps_body ne] g Ps_body show ?thesis by (simp add: rp_good_def)
  next
    case Ps_chunk_size
    with q ne have "\<not> rp_waits p" "q = snd (parse_chunk_size p)" by (auto simp: rp_step_def split: if_splits)
    with parse_chunk_size_good [OF Ps_chunk_size] show ?thesis by simp
  next
    case Ps_chunk_data
    with q ne have "\<not> length (rp_buffer p) < unat (rp_chunk_size p + 2)" "q = snd (parse_chunk_data p)"
      by (auto simp: rp_step_def split: if_splits)
    with parse_chunk_data_good [OF Ps_chunk_data ne] show ?thesis by simp
  next
    case Ps_chunk_trailer
    with q ne have "\<not> rp_waits p" "q = snd (parse_chunk_trailer p)" by (auto simp: rp_step_def split: if_splits)
    with parse_chunk_trailer_good [OF Ps_chunk_trailer] show ?thesis by simp
  qed (use q ne in \<open>auto simp: rp_step_def\<close>)
qed

lemma rp_good_feed: "rp_good p \<Longrightarrow> rp_good (rp_feed p b)"
  by (simp add: rp_good_def rp_feed_def)

interpretation rpi: incremental_parser "rp_step pton" rp_feed rp_weight rp_good for pton
  by unfold_locales (simp_all add: rp_step_good rp_good_feed rp_step_feed)

end
