(* ===== verification/Http_Request_Props.thy ===== *)
theory Http_Request_Props
  imports Http_Request_Steps
begin

text \<open>
  Properties of the request parser: it always returns, it does not matter how the bytes arrive, and what it accepts is
  framed in exactly one way.
\<close>

section \<open>The loop runs the steps to the end\<close>

definition rp_result :: "request_parser \<Rightarrow> parse_result" where
  "rp_result p = (if rp_state p = Ps_error then Parse_Error else if rp_state p = Ps_complete then Complete else Need_More)"

lemma rp_weight_buffer: "rp_weight q < rp_weight p \<Longrightarrow> length (rp_buffer q) \<le> length (rp_buffer p)"
  by (auto simp: rp_weight_def split: if_splits)

lemma rp_step_error: "rp_state q = Ps_error \<Longrightarrow> rp_step pton q = None"
  by (simp add: rp_step_def)

lemma rp_header_step_parse:
  assumes "\<not> rp_waits p" "rp_header_step p = Some q"
  shows "parse_headers p =
    (if find_crlf (rp_buffer p) = Some 0 then Inr (finish_headers (rp_erase 2 p))
     else if rp_state q = Ps_error then Inr (False, q) else parse_headers q)"
proof (cases "find_crlf (rp_buffer p)")
  case None
  with assms have "q = rp_set_error ''Header line too long'' p" "buffered_line_size (rp_buffer p) > unat (rp_max_header_size p)"
    by (simp_all add: rp_header_step_def rp_waits_def)
  with None show ?thesis by (subst parse_headers.simps) simp
next
  case (Some e)
  show ?thesis
  proof (cases "e = 0")
    case True
    with Some show ?thesis by (subst parse_headers.simps) simp
  next
    case False
    with Some assms(2) obtain r where r: "header_field (take e (rp_buffer p)) p = Inr r"
        "q = (if rp_state r = Ps_error then r else rp_erase (e + 2) r)"
      by (auto simp: rp_header_step_def split: sum.splits)
    have "r\<lparr>rp_buffer := drop (e + 2) (rp_buffer p)\<rparr> = rp_erase (e + 2) r"
      using header_field_buffer(2) [OF r(1)] by (simp add: rp_erase_def)
    with Some False r show ?thesis by (subst parse_headers.simps) simp
  qed
qed

lemma rp_header_step_total: "\<not> rp_waits p \<Longrightarrow> \<exists>q. rp_header_step p = Some q"
  using header_field_no_throw
  by (auto simp: rp_header_step_def split: option.split sum.split)

text \<open>What a round of the loop does, in steps: it goes on from a later state, or returns the last one.\<close>

definition rp_round :: "(string \<Rightarrow> bool) \<Rightarrow> request_parser \<Rightarrow> bool \<Rightarrow> request_parser \<Rightarrow> bool" where
  "rp_round pton p go q \<longleftrightarrow>
     (if go then rp_good q \<and> rp_weight q < rp_weight p \<and> (\<forall>u. halts (rp_step pton) p u \<longleftrightarrow> halts (rp_step pton) q u)
      else halts (rp_step pton) p q \<and> length (rp_buffer q) \<le> length (rp_buffer p) \<and> rp_state q \<noteq> Ps_complete \<and>
        (rp_state q = Ps_error \<longrightarrow> rp_state p = Ps_request_line \<or> rp_state p = Ps_headers))"

definition rp_rounds :: "(string \<Rightarrow> bool) \<Rightarrow> request_parser \<Rightarrow> header_error + bool \<times> request_parser \<Rightarrow> bool" where
  "rp_rounds pton p d = (case d of Inl _ \<Rightarrow> False | Inr (go, q) \<Rightarrow> rp_round pton p go q)"

lemma rp_rounds_simps [simp]: "rp_rounds pton p (Inr (go, q)) = rp_round pton p go q" "\<not> rp_rounds pton p (Inl e)"
  "rp_rounds pton p (Inr r) = rp_round pton p (fst r) (snd r)"
  by (simp_all add: rp_rounds_def split: prod.split)

lemma rp_round_go:
  assumes "rp_good p" "rp_step pton p = Some q"
  shows "rp_round pton p True q"
  using rp_step_good [OF assms] halts_first [of "rp_step pton", OF assms(2)] by (simp add: rp_round_def)

lemma rp_round_wait:
  assumes "rp_step pton p = None" "rp_state p \<noteq> Ps_complete" "rp_state p \<noteq> Ps_error"
  shows "rp_round pton p False p"
  using assms by (simp add: rp_round_def halts_stop)

lemma rp_round_error:
  assumes "rp_good p" "rp_step pton p = Some q" "rp_state q = Ps_error" "rp_state p = Ps_request_line \<or> rp_state p = Ps_headers"
  shows "rp_round pton p False q"
proof -
  have "halts (rp_step pton) p q"
    using assms(2) by (rule halts_go) (simp add: halts_stop rp_step_error assms(3))
  moreover have "length (rp_buffer q) \<le> length (rp_buffer p)"
    using rp_step_good [OF assms(1,2)] rp_weight_buffer by blast
  ultimately show ?thesis using assms(3,4) by (simp add: rp_round_def)
qed

lemma rp_round_trans:
  assumes "rp_good p" "rp_step pton p = Some q" "rp_state q = rp_state p" "rp_round pton q go r"
  shows "rp_round pton p go r"
  using assms(3,4) rp_step_good [OF assms(1,2)] halts_first [of "rp_step pton", OF assms(2)] rp_weight_buffer [of q p]
  unfolding rp_round_def by (auto split: if_splits)

lemma parse_headers_round:
  assumes "rp_good p" "rp_state p = Ps_headers" "rp_buffer p \<noteq> []"
  shows "rp_rounds pton p (parse_headers p)"
  using assms
proof (induction "rp_weight p" arbitrary: p rule: less_induct)
  case less
  note g = less.prems(1) and st = less.prems(2) and ne = less.prems(3)
  show ?case
  proof (cases "rp_waits p")
    case True
    then have "parse_headers p = Inr (False, p)" by (subst parse_headers.simps) (simp add: rp_waits_def)
    moreover have "rp_step pton p = None" using st True by (simp add: rp_step_def)
    ultimately show ?thesis using rp_round_wait [of pton p] st by simp
  next
    case False
    obtain q where q: "rp_header_step p = Some q" using rp_header_step_total [OF False] by blast
    then have s: "rp_step pton p = Some q" using st ne False by (simp add: rp_step_def)
    note gq = rp_step_good [OF g s] and ph = rp_header_step_parse [OF False q]
    show ?thesis
    proof (cases "find_crlf (rp_buffer p) = Some 0")
      case True
      with q have q': "q = snd (finish_headers (rp_erase 2 p))" by (simp add: rp_header_step_def)
      obtain go where fh: "finish_headers (rp_erase 2 p) = (go, q)" using q' by (cases "finish_headers (rp_erase 2 p)") simp
      have "rp_round pton p go q"
      proof (cases go)
        case True
        with rp_round_go [OF g s] show ?thesis by simp
      next
        case F: False
        with fh have "rp_state q = Ps_error" using st
          by (cases "content_length (rp_headers p)")
             (auto simp: finish_headers_def Let_def rp_set_error_def rp_erase_def split: if_splits)
        with rp_round_error [OF g s] st F show ?thesis by simp
      qed
      with ph True fh show ?thesis by simp
    next
      case no: False
      show ?thesis
      proof (cases "rp_state q = Ps_error")
        case True
        with ph no rp_round_error [OF g s True] st show ?thesis by simp
      next
        case ok: False
        then have stq: "rp_state q = rp_state p" using q no st
          by (auto simp: rp_header_step_def dest: header_field_state(1) split: option.splits sum.splits if_splits)
        show ?thesis
        proof (cases "rp_buffer q = []")
          case True
          then have "parse_headers q = Inr (False, q)" by (subst parse_headers.simps) (simp add: buffered_line_size_def)
          moreover have "rp_step pton q = None" using True by (simp add: rp_step_def)
          ultimately show ?thesis
            using ph no ok rp_round_trans [OF g s stq rp_round_wait] stq st by simp
        next
          case False
          from less.hyps [OF conjunct2 [OF gq] conjunct1 [OF gq]] stq st False
          have "rp_rounds pton q (parse_headers q)" by simp
          then obtain go r where "parse_headers q = Inr (go, r)" "rp_round pton q go r"
            by (auto simp: rp_rounds_def split: sum.splits prod.splits)
          with ph no ok rp_round_trans [OF g s stq] show ?thesis by simp
        qed
      qed
    qed
  qed
qed

lemma rp_dispatch_round:
  assumes g: "rp_good p" and ne: "rp_buffer p \<noteq> []" and st: "rp_state p \<noteq> Ps_complete" "rp_state p \<noteq> Ps_error"
  shows "rp_rounds pton p (rp_dispatch pton p)"
proof (cases "rp_state p")
  case Ps_request_line
  show ?thesis
  proof (cases "find_crlf (rp_buffer p)")
    case None
    then have "parse_request_line pton p = (False, p)" by (simp add: parse_request_line_def)
    moreover have "rp_step pton p = None" using None Ps_request_line by (simp add: rp_step_def)
    ultimately show ?thesis using Ps_request_line rp_round_wait by (simp add: rp_dispatch_def)
  next
    case (Some e)
    then have s: "rp_step pton p = Some (snd (parse_request_line pton p))" using ne Ps_request_line by (simp add: rp_step_def)
    show ?thesis
    proof (cases "rp_state (snd (parse_request_line pton p)) = Ps_error")
      case True
      then have "\<not> fst (parse_request_line pton p)" using Some by (auto simp: parse_request_line_def Let_def split: if_splits)
      moreover have "rp_round pton p False (snd (parse_request_line pton p))"
        using rp_round_error [OF g s True] Ps_request_line by simp
      ultimately show ?thesis using Ps_request_line by (simp add: rp_dispatch_def)
    next
      case False
      then have "fst (parse_request_line pton p)" using Some by (auto simp: parse_request_line_def Let_def split: if_splits)
      then show ?thesis using Ps_request_line rp_round_go [OF g s] by (simp add: rp_dispatch_def)
    qed
  qed
next
  case Ps_headers
  with parse_headers_round [OF g Ps_headers ne] show ?thesis by (simp add: rp_dispatch_def)
next
  case Ps_body
  let ?q = "snd (parse_body p)"
  have r: "rp_body_received p < rp_content_length p" using g Ps_body by (simp add: rp_good_def)
  have s: "rp_step pton p = Some ?q" using Ps_body ne by (simp add: rp_step_def)
  have "rp_round pton p (fst (parse_body p)) ?q"
  proof (cases "fst (parse_body p)")
    case True
    with rp_round_go [OF g s] show ?thesis by simp
  next
    case False
    then have q: "rp_buffer ?q = [] \<and> rp_state ?q = Ps_body"
      using parse_body_eq(1,3) [OF r] Ps_body by (simp add: Let_def)
    have "rp_round pton ?q False ?q" using q by (intro rp_round_wait) (simp_all add: rp_step_def)
    with False q Ps_body rp_round_trans [OF g s] show ?thesis by simp
  qed
  with Ps_body show ?thesis by (simp add: rp_dispatch_def prod_eq_iff)
next
  case Ps_chunk_size
  show ?thesis
  proof (cases "rp_waits p")
    case True
    then have "parse_chunk_size p = (False, p)" by (simp add: parse_chunk_size_def rp_waits_def)
    moreover have "rp_step pton p = None" using True Ps_chunk_size by (simp add: rp_step_def)
    ultimately show ?thesis using Ps_chunk_size rp_round_wait by (simp add: rp_dispatch_def)
  next
    case False
    then have "fst (parse_chunk_size p)"
      by (auto simp: parse_chunk_size_def rp_waits_def Let_def split: option.split sum.split)
    moreover have "rp_step pton p = Some (snd (parse_chunk_size p))" using False Ps_chunk_size ne by (simp add: rp_step_def)
    ultimately show ?thesis using Ps_chunk_size rp_round_go [OF g] by (simp add: rp_dispatch_def prod_eq_iff)
  qed
next
  case Ps_chunk_data
  show ?thesis
  proof (cases "length (rp_buffer p) < unat (rp_chunk_size p + 2)")
    case True
    then have "parse_chunk_data p = (False, p)" by (simp add: parse_chunk_data_def Let_def)
    moreover have "rp_step pton p = None" using True Ps_chunk_data by (simp add: rp_step_def)
    ultimately show ?thesis using Ps_chunk_data rp_round_wait by (simp add: rp_dispatch_def)
  next
    case False
    then have "fst (parse_chunk_data p)" by (simp add: parse_chunk_data_def Let_def)
    moreover have "rp_step pton p = Some (snd (parse_chunk_data p))" using False Ps_chunk_data ne by (simp add: rp_step_def)
    ultimately show ?thesis using Ps_chunk_data rp_round_go [OF g] by (simp add: rp_dispatch_def prod_eq_iff)
  qed
next
  case Ps_chunk_trailer
  show ?thesis
  proof (cases "rp_waits p")
    case True
    then have "parse_chunk_trailer p = (False, p)" by (simp add: parse_chunk_trailer_def rp_waits_def)
    moreover have "rp_step pton p = None" using True Ps_chunk_trailer by (simp add: rp_step_def)
    ultimately show ?thesis using Ps_chunk_trailer rp_round_wait by (simp add: rp_dispatch_def)
  next
    case False
    then have "fst (parse_chunk_trailer p)" by (auto simp: parse_chunk_trailer_def rp_waits_def split: option.split)
    moreover have "rp_step pton p = Some (snd (parse_chunk_trailer p))" using False Ps_chunk_trailer ne by (simp add: rp_step_def)
    ultimately show ?thesis using Ps_chunk_trailer rp_round_go [OF g] by (simp add: rp_dispatch_def prod_eq_iff)
  qed
qed (use st g in \<open>simp_all add: rp_good_def\<close>)

lemma rp_loop_halts:
  assumes "rp_good p"
  shows "\<exists>q. halts (rp_step pton) p q \<and> length (rp_buffer q) \<le> length (rp_buffer p) \<and>
    rp_loop pton n p = Some (Inr (rp_result q, n + (length (rp_buffer p) - length (rp_buffer q)), q))"
  using assms
proof (induction "rp_weight p" arbitrary: p n rule: less_induct)
  case less
  note g = less.prems
  show ?case
  proof (cases "rp_buffer p \<noteq> [] \<and> rp_state p \<noteq> Ps_complete \<and> rp_state p \<noteq> Ps_error")
    case False
    then have "rp_step pton p = None" by (auto simp: rp_step_def)
    then have "halts (rp_step pton) p p" by (rule halts_stop)
    moreover have "rp_loop pton n p = Some (Inr (rp_result p, n, p))"
      using False by (subst rp_loop.simps) (auto simp: rp_result_def)
    ultimately show ?thesis by auto
  next
    case True
    then obtain go q where d: "rp_dispatch pton p = Inr (go, q)" and r: "rp_round pton p go q"
      using rp_dispatch_round [OF g, of pton] by (auto simp: rp_rounds_def split: sum.splits prod.splits)
    have l: "rp_loop pton n p =
      (if go then rp_loop pton (n + (length (rp_buffer p) - length (rp_buffer q))) q
       else Some (Inr (if (rp_state p = Ps_request_line \<or> rp_state p = Ps_headers) \<and> rp_state q = Ps_error
                       then Parse_Error else Need_More, n + (length (rp_buffer p) - length (rp_buffer q)), q)))"
      using True d by (subst rp_loop.simps) simp
    show ?thesis
    proof (cases go)
      case go: True
      with r have gq: "rp_good q" "rp_weight q < rp_weight p" "\<And>u. halts (rp_step pton) p u \<longleftrightarrow> halts (rp_step pton) q u"
        by (auto simp: rp_round_def)
      from less.hyps [OF gq(2,1)] obtain u where u: "halts (rp_step pton) q u" "length (rp_buffer u) \<le> length (rp_buffer q)"
        "rp_loop pton (n + (length (rp_buffer p) - length (rp_buffer q))) q =
           Some (Inr (rp_result u, n + (length (rp_buffer p) - length (rp_buffer q)) + (length (rp_buffer q) - length (rp_buffer u)), u))"
        by blast
      have "length (rp_buffer q) \<le> length (rp_buffer p)" using gq(2) by (rule rp_weight_buffer)
      with u gq(3) l go show ?thesis by (intro exI [of _ u]) simp
    next
      case False
      with r l show ?thesis by (intro exI [of _ q]) (auto simp: rp_round_def rp_result_def)
    qed
  qed
qed

lemma rp_parse_halts:
  assumes "rp_good p"
  shows "\<exists>q. halts (rp_step pton) (rp_feed p data) q \<and> length (rp_buffer q) \<le> length (rp_buffer p @ data) \<and>
    rp_parse pton data p = Some (Inr (rp_result q, length (rp_buffer p @ data) - length (rp_buffer q), q))"
  using rp_loop_halts [OF rp_good_feed [OF assms], of pton data 0] by (simp add: rp_parse_def rp_feed_def)

section \<open>Cutting the stream\<close>

text \<open>Parsing the pieces of a stream one after the other: the last result, the bytes consumed so far, the parser.\<close>

fun rp_parse_pieces ::
  "(string \<Rightarrow> bool) \<Rightarrow> parse_result \<Rightarrow> nat \<Rightarrow> string list \<Rightarrow> request_parser \<Rightarrow> (header_error + parse_result \<times> nat \<times> request_parser) option" where
  "rp_parse_pieces pton r n [] p = Some (Inr (r, n, p))"
| "rp_parse_pieces pton r n (c # cs) p =
     (case rp_parse pton c p of
        Some (Inr (r', m, q)) \<Rightarrow> rp_parse_pieces pton r' (n + m) cs q
      | x \<Rightarrow> x)"

lemma rp_reset_good: "rp_good (rp_reset p)"
  by (simp add: rp_good_def rp_reset_def)

lemma rp_parse_pieces_halts:
  assumes "rp_good p" "halts (rp_step pton) p q" "length (rp_buffer q) \<le> length (rp_buffer p)"
  shows "\<exists>u. halts (rp_step pton) (rp_feed p (concat cs)) u \<and> length (rp_buffer u) \<le> length (rp_buffer p @ concat cs) \<and>
    rp_parse_pieces pton (rp_result q) (k + (length (rp_buffer p) - length (rp_buffer q))) cs q =
      Some (Inr (rp_result u, k + (length (rp_buffer p @ concat cs) - length (rp_buffer u)), u))"
  using assms
proof (induction cs arbitrary: p q k)
  case Nil
  then show ?case by auto
next
  case (Cons c cs)
  note gp = Cons.prems(1) and h = Cons.prems(2) and l = Cons.prems(3)
  have gq: "rp_good q" using rpi.good_halts [OF h gp] .
  obtain v where v: "halts (rp_step pton) (rp_feed q c) v" "length (rp_buffer v) \<le> length (rp_buffer q @ c)"
      "rp_parse pton c q = Some (Inr (rp_result v, length (rp_buffer q @ c) - length (rp_buffer v), v))"
    using rp_parse_halts [OF gq] by blast
  have hv: "halts (rp_step pton) (rp_feed p c) v" using rpi.feed_halted [OF h gp] v(1) by blast
  have lv: "length (rp_buffer v) \<le> length (rp_buffer (rp_feed p c))" using v(2) l by simp
  from Cons.IH [OF rp_good_feed [OF gp] hv lv, of k]
  obtain u where u: "halts (rp_step pton) (rp_feed (rp_feed p c) (concat cs)) u"
      "length (rp_buffer u) \<le> length (rp_buffer (rp_feed p c) @ concat cs)"
      "rp_parse_pieces pton (rp_result v) (k + (length (rp_buffer (rp_feed p c)) - length (rp_buffer v))) cs v =
        Some (Inr (rp_result u, k + (length (rp_buffer (rp_feed p c) @ concat cs) - length (rp_buffer u)), u))"
    by blast
  have "k + (length (rp_buffer p) - length (rp_buffer q)) + (length (rp_buffer q @ c) - length (rp_buffer v)) =
      k + (length (rp_buffer (rp_feed p c)) - length (rp_buffer v))"
    using l v(2) by simp
  with v(3) u show ?case by (intro exI [of _ u]) (simp add: add.assoc)
qed

text \<open>
  C33: the request parser does not depend on how the network cuts the stream, and it always returns. Starting from a
  parser that was just created or reset, with any bytes still buffered from the connection, feeding the pieces of a
  stream one after the other ends with the same result, the same number of
  consumed bytes and the same parser as one call on the whole stream; no call loops forever and none throws.
\<close>

theorem http_request_pieces:
  "\<exists>r n q. rp_parse pton (concat (c # cs)) (rp_reset p) = Some (Inr (r, n, q)) \<and>
     rp_parse_pieces pton Need_More 0 (c # cs) (rp_reset p) = Some (Inr (r, n, q))"
proof -
  let ?p = "rp_reset p"
  obtain v where v: "halts (rp_step pton) (rp_feed ?p c) v" "length (rp_buffer v) \<le> length (rp_buffer ?p @ c)"
      "rp_parse pton c ?p = Some (Inr (rp_result v, length (rp_buffer ?p @ c) - length (rp_buffer v), v))"
    using rp_parse_halts [OF rp_reset_good] by blast
  obtain w where w: "halts (rp_step pton) (rp_feed ?p (concat (c # cs))) w"
      "rp_parse pton (concat (c # cs)) ?p =
        Some (Inr (rp_result w, length (rp_buffer ?p @ concat (c # cs)) - length (rp_buffer w), w))"
    using rp_parse_halts [OF rp_reset_good] by blast
  have "length (rp_buffer v) \<le> length (rp_buffer (rp_feed ?p c))" using v(2) by simp
  from rp_parse_pieces_halts [OF rp_good_feed [OF rp_reset_good] v(1) this, of cs 0]
  obtain u where u: "halts (rp_step pton) (rp_feed ?p (concat (c # cs))) u"
      "rp_parse_pieces pton (rp_result v) (length (rp_buffer ?p @ c) - length (rp_buffer v)) cs v =
        Some (Inr (rp_result u, length (rp_buffer ?p @ concat (c # cs)) - length (rp_buffer u), u))"
    by auto
  have "u = w" using halts_unique [OF u(1) w(1)] .
  with v(3) u(2) w(2) show ?thesis by simp
qed

section \<open>What is accepted\<close>

text \<open>Lines as they are found: without a line end inside.\<close>

definition wire_line :: "string \<Rightarrow> bool" where
  "wire_line l \<longleftrightarrow> find_crlf (l @ [cr]) = None"

definition wire_lines :: "string list \<Rightarrow> string" where
  "wire_lines ls = concat (map (\<lambda>l. l @ crlf) ls)"

fun add_lines :: "string list \<Rightarrow> headers \<Rightarrow> headers option" where
  "add_lines [] h = Some h"
| "add_lines (l # ls) h =
     (case find_char (CHR '':'') l of
        None \<Rightarrow> None
      | Some colon \<Rightarrow>
          (case headers_add (take colon l) (trim_ows (drop (colon + 1) l)) h of
             Inl _ \<Rightarrow> None
           | Inr h' \<Rightarrow> add_lines ls h'))"

text \<open>The request line and the header lines say what the parser holds.\<close>

definition request_head :: "(string \<Rightarrow> bool) \<Rightarrow> string \<Rightarrow> string list \<Rightarrow> request_parser \<Rightarrow> bool" where
  "request_head pton rl hls q \<longleftrightarrow>
     wire_line rl \<and> list_all wire_line hls \<and> [] \<notin> set hls \<and>
     (let r = request_line_fields pton rl request_parser_ctor in
      rp_state r = Ps_headers \<and> rp_method r = rp_method q \<and> rp_path r = rp_path q \<and> rp_query r = rp_query q \<and>
      rp_version r = rp_version q) \<and>
     add_lines hls no_headers = Some (rp_headers q)"

text \<open>A chunked body: the chunks before the last one, then the whole.\<close>

inductive chunk_prefix :: "string \<Rightarrow> string \<Rightarrow> bool" where
  chunk_none: "chunk_prefix [] []"
| chunk_more: "chunk_prefix w b \<Longrightarrow> wire_line l \<Longrightarrow> parse_chunk_size_line l = Inr n \<Longrightarrow> n \<noteq> 0 \<Longrightarrow> length d = unat n \<Longrightarrow>
    chunk_prefix (w @ l @ crlf @ d @ crlf) (b @ d)"

definition chunked_wire :: "string \<Rightarrow> string \<Rightarrow> bool" where
  "chunked_wire w b \<longleftrightarrow> (\<exists>v l ts. chunk_prefix v b \<and> wire_line l \<and> parse_chunk_size_line l = Inr 0 \<and>
     list_all (\<lambda>t. wire_line t \<and> t \<noteq> [] \<and> validate_chunk_trailer_line t) ts \<and>
     w = v @ l @ crlf @ wire_lines ts @ crlf)"

text \<open>The one framing of the body the header fields select.\<close>

definition request_body :: "request_parser \<Rightarrow> string \<Rightarrow> bool" where
  "request_body q w =
     (let te = headers_contains (rp_headers q) ''Transfer-Encoding'';
          cl = headers_contains (rp_headers q) ''Content-Length'' in
      \<not> (te \<and> cl) \<and>
      (rp_version q = ''HTTP/1.1'' \<longrightarrow> length (headers_get_all (rp_headers q) ''Host'') = 1) \<and>
      (if rp_method q = CONNECT then \<not> te \<and> w = [] \<and> rp_body q = []
       else if te then is_chunked (rp_headers q) \<and> chunked_wire w (rp_body q)
       else if cl then content_length (rp_headers q) = Some (length w) \<and> rp_body q = w
       else w = [] \<and> rp_body q = []))"

text \<open>What the consumed bytes \<open>pre\<close> are, state by state.\<close>

definition head_wire :: "string \<Rightarrow> string list \<Rightarrow> string" where
  "head_wire rl hls = rl @ crlf @ wire_lines hls"

definition body_state :: "(string \<Rightarrow> bool) \<Rightarrow> string \<Rightarrow> request_parser \<Rightarrow> (request_parser \<Rightarrow> string \<Rightarrow> bool) \<Rightarrow> bool" where
  "body_state pton pre p f \<longleftrightarrow> (\<exists>rl hls w. pre = head_wire rl hls @ crlf @ w \<and> request_head pton rl hls p \<and> f p w)"

definition no_body_yet :: "request_parser \<Rightarrow> bool" where
  "no_body_yet p \<longleftrightarrow> rp_body p = [] \<and> rp_body_received p = 0"

definition framing_ok :: "request_parser \<Rightarrow> bool \<Rightarrow> bool \<Rightarrow> bool" where
  "framing_ok p te cl \<longleftrightarrow> headers_contains (rp_headers p) ''Transfer-Encoding'' = te \<and>
     headers_contains (rp_headers p) ''Content-Length'' = cl \<and> rp_method p \<noteq> CONNECT \<and>
     (rp_version p = ''HTTP/1.1'' \<longrightarrow> length (headers_get_all (rp_headers p) ''Host'') = 1)"

definition length_body :: "request_parser \<Rightarrow> string \<Rightarrow> bool" where
  "length_body p w \<longleftrightarrow> framing_ok p False True \<and> content_length (rp_headers p) = Some (unat (rp_content_length p)) \<and>
     rp_body p = w \<and> unat (rp_body_received p) = length w"

definition chunk_body :: "request_parser \<Rightarrow> string \<Rightarrow> bool" where
  "chunk_body p w \<longleftrightarrow> framing_ok p True False \<and> is_chunked (rp_headers p) \<and> chunk_prefix w (rp_body p)"

definition chunk_open :: "request_parser \<Rightarrow> string \<Rightarrow> bool" where
  "chunk_open p w \<longleftrightarrow> (\<exists>v l. w = v @ l @ crlf \<and> chunk_body p v \<and> wire_line l \<and>
     parse_chunk_size_line l = Inr (rp_chunk_size p) \<and> rp_chunk_size p \<noteq> 0)"

definition chunk_end :: "request_parser \<Rightarrow> string \<Rightarrow> bool" where
  "chunk_end p w \<longleftrightarrow> (\<exists>v l ts. w = v @ l @ crlf @ wire_lines ts \<and> chunk_body p v \<and> wire_line l \<and>
     parse_chunk_size_line l = Inr 0 \<and> list_all (\<lambda>t. wire_line t \<and> t \<noteq> [] \<and> validate_chunk_trailer_line t) ts)"

definition rp_seen :: "(string \<Rightarrow> bool) \<Rightarrow> string \<Rightarrow> request_parser \<Rightarrow> bool" where
  "rp_seen pton pre p =
     (case rp_state p of
        Ps_request_line \<Rightarrow> pre = [] \<and> rp_query p = [] \<and> rp_headers p = no_headers \<and> no_body_yet p
      | Ps_headers \<Rightarrow> (\<exists>rl hls. pre = head_wire rl hls \<and> request_head pton rl hls p) \<and> no_body_yet p
      | Ps_body \<Rightarrow> body_state pton pre p length_body
      | Ps_chunk_size \<Rightarrow> body_state pton pre p chunk_body
      | Ps_chunk_data \<Rightarrow> body_state pton pre p chunk_open
      | Ps_chunk_trailer \<Rightarrow> body_state pton pre p chunk_end
      | Ps_complete \<Rightarrow> body_state pton pre p request_body
      | _ \<Rightarrow> False)"

text \<open>The line in front of a line end that was found.\<close>

lemma found_line:
  assumes "find_crlf s = Some e"
  shows "wire_line (take e s)" "s = take e s @ crlf @ drop (e + 2) s"
proof -
  obtain a b where ab: "s = a @ cr # lf # b" "e = length a" "find_crlf (a @ [cr]) = None"
    using assms by (rule find_crlf_Some)
  then show "wire_line (take e s)" "s = take e s @ crlf @ drop (e + 2) s" by (simp_all add: wire_line_def)
qed

lemma wire_lines_snoc: "wire_lines (ls @ [l]) = wire_lines ls @ l @ crlf"
  by (simp add: wire_lines_def)

lemma add_lines_append: "add_lines (ls @ ms) h = Option.bind (add_lines ls h) (add_lines ms)"
  by (induction ls arbitrary: h) (auto split: option.split sum.split)

text \<open>What a request line sets does not depend on the rest of the parser.\<close>

lemma request_line_fields_same:
  assumes "rp_query p = []" "rp_state (request_line_fields pton l p) \<noteq> Ps_error"
  defines "q \<equiv> request_line_fields pton l p" and "r \<equiv> request_line_fields pton l request_parser_ctor"
  shows "rp_state r = Ps_headers \<and> rp_method r = rp_method q \<and> rp_path r = rp_path q \<and> rp_query r = rp_query q \<and>
    rp_version r = rp_version q \<and> rp_headers q = rp_headers p \<and> rp_body q = rp_body p \<and> rp_body_received q = rp_body_received p \<and>
    rp_state q = Ps_headers"
  using assms(1,2) unfolding q_def r_def
  by (cases rule: request_line_fields_cases [of pton l])
     (auto simp: Let_def rp_set_error_def request_parser_ctor_def split: if_splits)

lemma rp_step_seen_line:
  assumes seen: "rp_seen pton pre p" and st: "rp_state p = Ps_request_line"
    and e: "find_crlf (rp_buffer p) = Some e" and q: "q = snd (parse_request_line pton p)" "rp_state q \<noteq> Ps_error"
  shows "\<exists>d. rp_buffer p = d @ rp_buffer q \<and> rp_seen pton (pre @ d) q"
proof -
  let ?l = "take e (rp_buffer p)" and ?r = "request_line_fields pton (take e (rp_buffer p)) p"
  have q': "q = rp_erase (e + 2) ?r" "rp_state ?r \<noteq> Ps_error"
    using q e by (auto simp: parse_request_line_def Let_def split: if_splits)
  have p: "pre = []" "rp_query p = []" "rp_headers p = no_headers" "no_body_yet p" using seen st by (simp_all add: rp_seen_def)
  note f = request_line_fields_same [OF p(2) q'(2)] and fl = found_line [OF e]
  have "request_head pton ?l [] q"
    using f fl(1) p(3) by (simp add: request_head_def q'(1) rp_erase_def Let_def)
  then have "\<exists>rl hls. ?l @ crlf = head_wire rl hls \<and> request_head pton rl hls q"
    by (intro exI [of _ ?l] exI [of _ "[]"]) (simp add: head_wire_def wire_lines_def)
  moreover have "rp_state q = Ps_headers" "no_body_yet q" using f p(4) by (simp_all add: q'(1) rp_erase_def no_body_yet_def)
  ultimately have "rp_seen pton (?l @ crlf) q" by (simp add: rp_seen_def)
  moreover have "rp_buffer p = (?l @ crlf) @ rp_buffer q" using fl(2) by (simp add: q'(1))
  ultimately show ?thesis unfolding p(1) append_Nil by blast
qed

lemma request_head_cong:
  assumes "request_head pton rl hls p" "rp_method q = rp_method p" "rp_path q = rp_path p" "rp_query q = rp_query p"
    "rp_version q = rp_version p" "rp_headers q = rp_headers p"
  shows "request_head pton rl hls q"
  using assms by (simp add: request_head_def)

text \<open>The fields of a head that later states keep.\<close>

definition same_head :: "request_parser \<Rightarrow> request_parser \<Rightarrow> bool" where
  "same_head p q \<longleftrightarrow> rp_method q = rp_method p \<and> rp_path q = rp_path p \<and> rp_query q = rp_query p \<and>
     rp_version q = rp_version p \<and> rp_headers q = rp_headers p"

lemma body_state_step:
  assumes "body_state pton pre p f" "same_head p q" "\<And>w. f p w \<Longrightarrow> g q (w @ d)"
  shows "body_state pton (pre @ d) q g"
proof -
  obtain rl hls w where w: "pre = head_wire rl hls @ crlf @ w" "request_head pton rl hls p" "f p w"
    using assms(1) by (auto simp: body_state_def)
  have "request_head pton rl hls q" using assms(2) by (intro request_head_cong [OF w(2)]) (simp_all add: same_head_def)
  with w assms(3) [OF w(3)] show ?thesis unfolding body_state_def by (intro exI [of _ rl] exI [of _ hls] exI [of _ "w @ d"]) simp
qed

lemma header_field_adds:
  assumes "header_field l p = Inr q" "rp_state q \<noteq> Ps_error"
  shows "\<exists>colon. find_char (CHR '':'') l = Some colon \<and>
      headers_add (take colon l) (trim_ows (drop (colon + 1) l)) (rp_headers p) = Inr (rp_headers q)"
    "rp_method q = rp_method p \<and> rp_path q = rp_path p \<and> rp_query q = rp_query p \<and> rp_version q = rp_version p \<and>
      rp_body q = rp_body p \<and> rp_body_received q = rp_body_received p \<and> rp_state q = rp_state p"
  using assms by (auto simp: header_field_def Let_def ebind_Inr_iff split: option.splits if_splits)

lemma finish_headers_cases:
  assumes ne: "rp_state (snd (finish_headers p)) \<noteq> Ps_error"
  defines "te \<equiv> headers_contains (rp_headers p) ''Transfer-Encoding''" and "cl \<equiv> headers_contains (rp_headers p) ''Content-Length''"
    and "q \<equiv> snd (finish_headers p)"
  obtains (conn) "\<not> (te \<and> cl)" "rp_version p = ''HTTP/1.1'' \<longrightarrow> length (headers_get_all (rp_headers p) ''Host'') = 1"
      "rp_method p = CONNECT" "\<not> te" "q = p\<lparr>rp_state := Ps_complete\<rparr>"
    | (te) "\<not> (te \<and> cl)" "rp_version p = ''HTTP/1.1'' \<longrightarrow> length (headers_get_all (rp_headers p) ''Host'') = 1"
      "rp_method p \<noteq> CONNECT" "te" "is_chunked (rp_headers p)" "q = p\<lparr>rp_chunked := True, rp_state := Ps_chunk_size\<rparr>"
    | (cl) len where "\<not> (te \<and> cl)" "rp_version p = ''HTTP/1.1'' \<longrightarrow> length (headers_get_all (rp_headers p) ''Host'') = 1"
      "rp_method p \<noteq> CONNECT" "\<not> te" "cl" "content_length (rp_headers p) = Some len"
      "q = p\<lparr>rp_content_length := of_nat len, rp_state := if (of_nat len :: size_t) > 0 then Ps_body else Ps_complete\<rparr>"
    | (none) "\<not> (te \<and> cl)" "rp_version p = ''HTTP/1.1'' \<longrightarrow> length (headers_get_all (rp_headers p) ''Host'') = 1"
      "rp_method p \<noteq> CONNECT" "\<not> te" "\<not> cl" "q = p\<lparr>rp_state := Ps_complete\<rparr>"
proof -
  note f = finish_headers_def Let_def te_def [symmetric] cl_def [symmetric]
  have tc: "\<not> (te \<and> cl)"
  proof
    assume "te \<and> cl"
    then have "rp_state (snd (finish_headers p)) = Ps_error" by (simp add: f)
    with ne show False ..
  qed
  have host: "\<not> (rp_version p = ''HTTP/1.1'' \<and> length (headers_get_all (rp_headers p) ''Host'') \<noteq> 1)"
  proof
    assume a: "rp_version p = ''HTTP/1.1'' \<and> length (headers_get_all (rp_headers p) ''Host'') \<noteq> 1"
    have "rp_state (snd (finish_headers p)) = Ps_error"
      unfolding f if_not_P [OF tc] if_P [OF a] by simp
    with ne show False ..
  qed
  have fh: "finish_headers p =
     (if rp_method p = CONNECT then
        if te then (False, rp_set_error ''CONNECT request cannot use Transfer-Encoding'' p)
        else if cl \<and> content_length (rp_headers p) \<noteq> Some 0 then
          (False, rp_set_error ''CONNECT request cannot have content'' p)
        else (True, p\<lparr>rp_state := Ps_complete\<rparr>)
      else if te then
        if \<not> is_chunked (rp_headers p) then
          (False, rp_set_error ''Unsupported Transfer-Encoding (chunked must be final)'' p)
        else (True, p\<lparr>rp_chunked := True, rp_state := Ps_chunk_size\<rparr>)
      else if cl then
        (case content_length (rp_headers p) of
           None \<Rightarrow> (False, rp_set_error ''Invalid Content-Length'' p)
         | Some len \<Rightarrow>
             if rp_content_length (p\<lparr>rp_content_length := of_nat len\<rparr>) > 0
             then (True, p\<lparr>rp_content_length := of_nat len, rp_state := Ps_body\<rparr>)
             else (True, p\<lparr>rp_content_length := of_nat len, rp_state := Ps_complete\<rparr>))
      else (True, p\<lparr>rp_state := Ps_complete\<rparr>))"
    unfolding f if_not_P [OF tc] if_not_P [OF host] ..
  have h: "rp_version p = ''HTTP/1.1'' \<longrightarrow> length (headers_get_all (rp_headers p) ''Host'') = 1" using host by blast
  note se = rp_buffer_upd(4)
  show thesis
  proof (cases "rp_method p = CONNECT")
    case True
    with ne fh have "\<not> te" "q = p\<lparr>rp_state := Ps_complete\<rparr>" by (auto simp: q_def se split: if_splits)
    with conn tc h True show thesis by blast
  next
    case m: False
    show thesis
    proof (cases te)
      case True
      with ne fh m have "is_chunked (rp_headers p)" "q = p\<lparr>rp_chunked := True, rp_state := Ps_chunk_size\<rparr>"
        by (auto simp: q_def se split: if_splits)
      with te tc h m True show thesis by blast
    next
      case t: False
      show thesis
      proof (cases cl)
        case True
        show thesis
        proof (cases "content_length (rp_headers p)")
          case None
          with ne fh m t True show thesis by simp
        next
          case (Some len)
          with fh m t True have "q = p\<lparr>rp_content_length := of_nat len, rp_state := if (of_nat len :: size_t) > 0 then Ps_body else Ps_complete\<rparr>"
            by (simp add: q_def)
          with cl [OF tc h m t True Some] show thesis .
        qed
      next
        case False
        with fh m t have "q = p\<lparr>rp_state := Ps_complete\<rparr>" by (simp add: q_def)
        with none [OF tc h m t False] show thesis .
      qed
    qed
  qed
qed

lemma content_length_less: "content_length h = Some n \<Longrightarrow> n < 2 ^ 64"
  by (auto simp: content_length_def Let_def from_chars_def split: option.splits if_splits)

lemma finish_headers_seen:
  assumes h: "request_head pton rl hls p" and nb: "no_body_yet p" and q: "q = snd (finish_headers p)"
    and ne: "rp_state q \<noteq> Ps_error"
  shows "rp_seen pton (head_wire rl hls @ crlf) q"
proof -
  have b: "body_state pton (head_wire rl hls @ crlf) q f" if "f q []" "same_head p q" for f
  proof -
    have "request_head pton rl hls q" using that(2) by (intro request_head_cong [OF h]) (simp_all add: same_head_def)
    with that show ?thesis unfolding body_state_def by (intro exI [of _ rl] exI [of _ hls] exI [of _ "[]"]) simp
  qed
  have nb': "rp_body p = []" "rp_body_received p = 0" using nb by (simp_all add: no_body_yet_def)
  from ne [unfolded q] show ?thesis
  proof (cases rule: finish_headers_cases)
    case conn
    with nb' q have "request_body q []" by (auto simp: request_body_def Let_def)
    with b [of request_body] conn q show ?thesis by (simp add: rp_seen_def same_head_def)
  next
    case te
    with nb' q have "chunk_body q []" by (auto simp: chunk_body_def framing_ok_def chunk_none)
    with b [of chunk_body] te q show ?thesis by (simp add: rp_seen_def same_head_def)
  next
    case (cl len)
    have len: "unat (of_nat len :: size_t) = len" using content_length_less [OF cl(6)] by (rule unat_of_nat_small)
    show ?thesis
    proof (cases "len = 0")
      case True
      with cl nb' q have "request_body q []" by (auto simp: request_body_def Let_def)
      with b [of request_body] cl True q show ?thesis by (simp add: rp_seen_def same_head_def)
    next
      case False
      then have pos: "(of_nat len :: size_t) > 0" using len by (metis unat_0 word_gt_0)
      with cl nb' q len have "length_body q []" by (auto simp: length_body_def framing_ok_def)
      with b [of length_body] cl pos q show ?thesis by (simp add: rp_seen_def same_head_def)
    qed
  next
    case none
    with nb' q have "request_body q []" by (auto simp: request_body_def Let_def)
    with b [of request_body] none q show ?thesis by (simp add: rp_seen_def same_head_def)
  qed
qed

lemma rp_step_seen_header:
  assumes seen: "rp_seen pton pre p" and st: "rp_state p = Ps_headers"
    and q: "rp_header_step p = Some q" "rp_state q \<noteq> Ps_error"
  shows "\<exists>d. rp_buffer p = d @ rp_buffer q \<and> rp_seen pton (pre @ d) q"
proof -
  obtain rl hls where p: "pre = head_wire rl hls" "request_head pton rl hls p" "no_body_yet p"
    using seen st by (auto simp: rp_seen_def)
  obtain e where e: "find_crlf (rp_buffer p) = Some e" using q by (cases "find_crlf (rp_buffer p)") (auto simp: rp_header_step_def)
  note fl = found_line [OF e]
  show ?thesis
  proof (cases "e = 0")
    case True
    with q e have q': "q = snd (finish_headers (rp_erase 2 p))" by (simp add: rp_header_step_def)
    have h: "request_head pton rl hls (rp_erase 2 p)" by (rule request_head_cong [OF p(2)]) (simp_all add: rp_erase_def)
    have nb: "no_body_yet (rp_erase 2 p)" using p(3) by (simp add: no_body_yet_def rp_erase_def)
    have "rp_seen pton (pre @ crlf) q" unfolding p(1) by (rule finish_headers_seen [OF h nb q' q(2)])
    moreover have "rp_buffer p = crlf @ drop 2 (rp_buffer p)" using fl(2) unfolding True by (simp only: take_0 append_Nil add_0)
    then have "rp_buffer p = crlf @ rp_buffer q" by (simp add: q')
    ultimately show ?thesis by blast
  next
    case False
    with q e obtain r where r: "header_field (take e (rp_buffer p)) p = Inr r"
        "q = (if rp_state r = Ps_error then r else rp_erase (e + 2) r)"
      by (auto simp: rp_header_step_def split: sum.splits)
    with q(2) have rs: "rp_state r \<noteq> Ps_error" and q': "q = rp_erase (e + 2) r" by (auto split: if_splits)
    let ?l = "take e (rp_buffer p)"
    obtain colon where c: "find_char (CHR '':'') ?l = Some colon"
        "headers_add (take colon ?l) (trim_ows (drop (colon + 1) ?l)) (rp_headers p) = Inr (rp_headers r)"
      using header_field_adds(1) [OF r(1) rs] by blast
    note k = header_field_adds(2) [OF r(1) rs]
    have ne: "?l \<noteq> []" using False e by auto
    have "add_lines (hls @ [?l]) no_headers = Some (rp_headers r)"
      using p(2) c by (simp add: add_lines_append request_head_def)
    then have h: "request_head pton rl (hls @ [?l]) q"
      using p(2) k fl(1) ne by (auto simp: request_head_def q' rp_erase_def Let_def)
    have "pre @ ?l @ crlf = head_wire rl (hls @ [?l])" by (simp add: p(1) head_wire_def wire_lines_snoc)
    with h k st p(3) have "rp_seen pton (pre @ ?l @ crlf) q"
      unfolding rp_seen_def q' by (auto simp: rp_erase_def no_body_yet_def)
    moreover have "rp_buffer p = (?l @ crlf) @ rp_buffer q"
      using fl(2) header_field_buffer(2) [OF r(1)] by (simp add: q')
    ultimately show ?thesis by blast
  qed
qed

lemma rp_step_seen_body:
  assumes seen: "rp_seen pton pre p" and st: "rp_state p = Ps_body" and g: "rp_good p" and q: "q = snd (parse_body p)"
  shows "\<exists>d. rp_buffer p = d @ rp_buffer q \<and> rp_seen pton (pre @ d) q"
proof -
  have r: "rp_body_received p < rp_content_length p" using g st by (simp add: rp_good_def)
  define m where "m = unat (rp_content_length p) - unat (rp_body_received p)"
  define a where "a = min m (length (rp_buffer p))"
  note e = parse_body_eq [OF r, folded m_def]
  have q': "q = p\<lparr>rp_body := rp_body p @ take a (rp_buffer p), rp_buffer := drop a (rp_buffer p),
       rp_body_received := rp_body_received p + of_nat a,
       rp_state := if m \<le> length (rp_buffer p) then Ps_complete else rp_state p\<rparr>"
    using e(1) q by (simp add: Let_def a_def)
  have same: "same_head p q" by (simp add: same_head_def q')
  have u: "unat (rp_body_received p + of_nat a) = unat (rp_body_received p) + a" by (rule e(2)) (simp add: a_def)
  have bs: "body_state pton pre p length_body" using seen st by (simp add: rp_seen_def)
  let ?d = "take a (rp_buffer p)"
  have la: "length ?d = a" by (simp add: a_def)
  have lt: "unat (rp_body_received p) < unat (rp_content_length p)" using r by (simp add: word_less_nat_alt)
  have "rp_seen pton (pre @ ?d) q"
  proof (cases "m \<le> length (rp_buffer p)")
    case True
    then have am: "a = m" by (simp add: a_def)
    have "request_body q (w @ ?d)" if "length_body p w" for w
    proof -
      have "length (w @ ?d) = unat (rp_content_length p)"
        using that am la lt by (simp add: length_body_def m_def)
      with that show ?thesis by (simp add: length_body_def framing_ok_def request_body_def Let_def q')
    qed
    then show ?thesis using body_state_step [OF bs same] True by (simp add: rp_seen_def q')
  next
    case False
    have "length_body q (w @ ?d)" if "length_body p w" for w
      using that u la by (simp add: length_body_def framing_ok_def q')
    then show ?thesis using body_state_step [OF bs same] False st by (simp add: rp_seen_def q')
  qed
  moreover have "rp_buffer p = ?d @ rp_buffer q" by (simp add: q')
  ultimately show ?thesis by blast
qed

lemma chunk_body_cong:
  "chunk_body p w \<Longrightarrow> same_head p q \<Longrightarrow> rp_body q = rp_body p \<Longrightarrow> chunk_body q w"
  by (simp add: chunk_body_def same_head_def framing_ok_def)

lemma rp_step_seen_chunk_size:
  assumes seen: "rp_seen pton pre p" and st: "rp_state p = Ps_chunk_size" and w: "\<not> rp_waits p"
    and q: "q = snd (parse_chunk_size p)" "rp_state q \<noteq> Ps_error"
  shows "\<exists>d. rp_buffer p = d @ rp_buffer q \<and> rp_seen pton (pre @ d) q"
proof -
  obtain e where e: "find_crlf (rp_buffer p) = Some e"
    using q w by (cases "find_crlf (rp_buffer p)") (auto simp: parse_chunk_size_def rp_waits_def)
  note fl = found_line [OF e]
  let ?l = "take e (rp_buffer p)"
  obtain n where n: "parse_chunk_size_line ?l = Inr n" and
      q': "q = (rp_erase (e + 2) (p\<lparr>rp_chunk_size := n\<rparr>))\<lparr>rp_state := if n = 0 then Ps_chunk_trailer else Ps_chunk_data\<rparr>"
    using q e by (auto simp: parse_chunk_size_def Let_def split: if_splits sum.splits)
  have same: "same_head p q" "rp_body q = rp_body p" by (simp_all add: same_head_def q' rp_erase_def)
  have bs: "body_state pton pre p chunk_body" using seen st by (simp add: rp_seen_def)
  have "rp_seen pton (pre @ ?l @ crlf) q"
  proof (cases "n = 0")
    case True
    have "chunk_end q (v @ ?l @ crlf)" if "chunk_body p v" for v
      using that True fl(1) n same chunk_body_cong [OF that same] unfolding chunk_end_def
      by (intro exI [of _ v] exI [of _ ?l] exI [of _ "[]"]) (simp add: wire_lines_def)
    then show ?thesis using body_state_step [OF bs same(1)] True by (simp add: rp_seen_def q')
  next
    case False
    have "chunk_open q (v @ ?l @ crlf)" if "chunk_body p v" for v
      using that False fl(1) n same chunk_body_cong [OF that same] unfolding chunk_open_def
      by (intro exI [of _ v] exI [of _ ?l]) (simp add: q')
    then show ?thesis using body_state_step [OF bs same(1)] False by (simp add: rp_seen_def q')
  qed
  moreover have "rp_buffer p = (?l @ crlf) @ rp_buffer q" using fl(2) by (simp add: q')
  ultimately show ?thesis by blast
qed

lemma rp_step_seen_chunk_data:
  assumes seen: "rp_seen pton pre p" and st: "rp_state p = Ps_chunk_data" and g: "rp_good p"
    and l: "\<not> length (rp_buffer p) < unat (rp_chunk_size p + 2)"
    and q: "q = snd (parse_chunk_data p)" "rp_state q \<noteq> Ps_error"
  shows "\<exists>d. rp_buffer p = d @ rp_buffer q \<and> rp_seen pton (pre @ d) q"
proof -
  let ?n = "unat (rp_chunk_size p)"
  have "?n \<le> 2 ^ 30" using g st by (simp add: rp_good_def)
  then have "unat (rp_chunk_size p + 2) = ?n + 2" by (subst unat_add_small) simp_all
  with l have ln: "?n + 2 \<le> length (rp_buffer p)" by simp
  have cl: "rp_buffer p ! ?n = cr" "rp_buffer p ! (?n + 1) = lf"
    and q': "q = rp_erase (?n + 2) (p\<lparr>rp_body := rp_body p @ take ?n (rp_buffer p), rp_state := Ps_chunk_size\<rparr>)"
    using q l by (auto simp: parse_chunk_data_def Let_def split: if_splits)
  let ?d = "take ?n (rp_buffer p)"
  have "drop ?n (rp_buffer p) = cr # drop (?n + 1) (rp_buffer p)" using ln cl(1) by (subst Cons_nth_drop_Suc [symmetric]) simp_all
  also have "drop (?n + 1) (rp_buffer p) = lf # drop (?n + 2) (rp_buffer p)"
    using ln cl(2) by (subst Cons_nth_drop_Suc [symmetric]) simp_all
  finally have b: "rp_buffer p = (?d @ crlf) @ rp_buffer q" using append_take_drop_id [of ?n "rp_buffer p"] by (simp add: q')
  have same: "same_head p q" by (simp add: same_head_def q' rp_erase_def)
  have bs: "body_state pton pre p chunk_open" using seen st by (simp add: rp_seen_def)
  have ld: "length ?d = ?n" using ln by simp
  have "chunk_body q (w @ ?d @ crlf)" if w: "chunk_open p w" for w
  proof -
    obtain v k where v: "w = v @ k @ crlf" "chunk_body p v" "wire_line k" "parse_chunk_size_line k = Inr (rp_chunk_size p)"
      "rp_chunk_size p \<noteq> 0" using w by (auto simp: chunk_open_def)
    have "chunk_prefix (v @ k @ crlf @ ?d @ crlf) (rp_body p @ ?d)"
      by (rule chunk_more [OF _ v(3,4,5) ld]) (use v(2) in \<open>simp add: chunk_body_def\<close>)
    with v same show ?thesis by (simp add: chunk_body_def framing_ok_def same_head_def q' rp_erase_def)
  qed
  then have "rp_seen pton (pre @ ?d @ crlf) q" using body_state_step [OF bs same] by (simp add: rp_seen_def q')
  with b show ?thesis by blast
qed

lemma rp_step_seen_trailer:
  assumes seen: "rp_seen pton pre p" and st: "rp_state p = Ps_chunk_trailer" and w: "\<not> rp_waits p"
    and q: "q = snd (parse_chunk_trailer p)" "rp_state q \<noteq> Ps_error"
  shows "\<exists>d. rp_buffer p = d @ rp_buffer q \<and> rp_seen pton (pre @ d) q"
proof -
  obtain e where e: "find_crlf (rp_buffer p) = Some e"
    using q w by (cases "find_crlf (rp_buffer p)") (auto simp: parse_chunk_trailer_def rp_waits_def)
  note fl = found_line [OF e]
  have bs: "body_state pton pre p chunk_end" using seen st by (simp add: rp_seen_def)
  show ?thesis
  proof (cases "e = 0")
    case True
    then have q': "q = (rp_erase 2 p)\<lparr>rp_state := Ps_complete\<rparr>" using q e by (simp add: parse_chunk_trailer_def)
    have same: "same_head p q" by (simp add: same_head_def q' rp_erase_def)
    have "request_body q (v @ crlf)" if "chunk_end p v" for v
      using that same unfolding chunk_end_def chunk_body_def framing_ok_def request_body_def Let_def chunked_wire_def same_head_def
      by (auto simp: q' rp_erase_def)
    then have "rp_seen pton (pre @ crlf) q" using body_state_step [OF bs same] by (simp add: rp_seen_def q')
    moreover have "rp_buffer p = crlf @ drop 2 (rp_buffer p)" using fl(2) unfolding True by (simp only: take_0 append_Nil add_0)
    then have "rp_buffer p = crlf @ rp_buffer q" by (simp add: q')
    ultimately show ?thesis by blast
  next
    case False
    let ?l = "take e (rp_buffer p)"
    have v: "validate_chunk_trailer_line ?l"
      and q': "q = rp_erase (e + 2) (p\<lparr>rp_header_count := rp_header_count p + 1\<rparr>)"
      using q e False by (auto simp: parse_chunk_trailer_def split: if_splits)
    have ne: "?l \<noteq> []" using False e by auto
    have same: "same_head p q" "rp_body q = rp_body p" by (simp_all add: same_head_def q' rp_erase_def)
    have "chunk_end q (u @ ?l @ crlf)" if ce: "chunk_end p u" for u
    proof -
      obtain x k ts where x: "u = x @ k @ crlf @ wire_lines ts" "chunk_body p x" "wire_line k" "parse_chunk_size_line k = Inr 0"
          "list_all (\<lambda>t. wire_line t \<and> t \<noteq> [] \<and> validate_chunk_trailer_line t) ts"
        using ce unfolding chunk_end_def by (elim exE conjE) (rule that)
      show ?thesis unfolding chunk_end_def
        using x chunk_body_cong [OF x(2) same] fl(1) ne v
        by (intro exI [of _ x] exI [of _ k] exI [of _ "ts @ [?l]"]) (simp add: wire_lines_snoc)
    qed
    then have "rp_seen pton (pre @ ?l @ crlf) q" using body_state_step [OF bs same(1)] st by (simp add: rp_seen_def q')
    moreover have "rp_buffer p = (?l @ crlf) @ rp_buffer q" using fl(2) by (simp add: q')
    ultimately show ?thesis by blast
  qed
qed

lemma rp_step_seen:
  assumes seen: "rp_seen pton pre p" and g: "rp_good p" and q: "rp_step pton p = Some q" "rp_state q \<noteq> Ps_error"
  shows "\<exists>d. rp_buffer p = d @ rp_buffer q \<and> rp_seen pton (pre @ d) q"
proof -
  have ne: "rp_buffer p \<noteq> []" using q by (auto simp: rp_step_def)
  show ?thesis
  proof (cases "rp_state p")
    case Ps_request_line
    with q ne obtain e where "find_crlf (rp_buffer p) = Some e" "q = snd (parse_request_line pton p)"
      by (auto simp: rp_step_def split: if_splits)
    with rp_step_seen_line [OF seen Ps_request_line _ _ q(2)] show ?thesis by simp
  next
    case Ps_headers
    with q ne have "rp_header_step p = Some q" by (auto simp: rp_step_def split: if_splits)
    then show ?thesis by (rule rp_step_seen_header [OF seen Ps_headers _ q(2)])
  next
    case Ps_body
    with q ne have "q = snd (parse_body p)" by (auto simp: rp_step_def)
    then show ?thesis by (rule rp_step_seen_body [OF seen Ps_body g])
  next
    case Ps_chunk_size
    with q ne have "\<not> rp_waits p" "q = snd (parse_chunk_size p)" by (auto simp: rp_step_def split: if_splits)
    then show ?thesis by (rule rp_step_seen_chunk_size [OF seen Ps_chunk_size _ _ q(2)])
  next
    case Ps_chunk_data
    with q ne have "\<not> length (rp_buffer p) < unat (rp_chunk_size p + 2)" "q = snd (parse_chunk_data p)"
      by (auto simp: rp_step_def split: if_splits)
    then show ?thesis by (rule rp_step_seen_chunk_data [OF seen Ps_chunk_data g _ _ q(2)])
  next
    case Ps_chunk_trailer
    with q ne have "\<not> rp_waits p" "q = snd (parse_chunk_trailer p)" by (auto simp: rp_step_def split: if_splits)
    then show ?thesis by (rule rp_step_seen_trailer [OF seen Ps_chunk_trailer _ _ q(2)])
  qed (use q ne in \<open>auto simp: rp_step_def\<close>)
qed

lemma halts_seen:
  "halts (rp_step pton) p q \<Longrightarrow> rp_good p \<Longrightarrow> rp_seen pton pre p \<Longrightarrow> rp_state q \<noteq> Ps_error \<Longrightarrow>
    \<exists>d. rp_buffer p = d @ rp_buffer q \<and> rp_seen pton (pre @ d) q"
proof (induction arbitrary: pre rule: halts.induct)
  case (halts_stop s)
  then show ?case by (intro exI [of _ "[]"]) simp
next
  case (halts_go s t u)
  have "rp_state t \<noteq> Ps_error"
  proof
    assume "rp_state t = Ps_error"
    then have "u = t" using halts_go.hyps(2) halts_stopped [of "rp_step pton" t u] by (simp add: rp_step_error)
    with \<open>rp_state t = Ps_error\<close> halts_go.prems(3) show False by simp
  qed
  then obtain d where d: "rp_buffer s = d @ rp_buffer t" "rp_seen pton (pre @ d) t"
    using rp_step_seen [OF halts_go.prems(2,1) halts_go.hyps(1)] by blast
  obtain d' where "rp_buffer t = d' @ rp_buffer u" "rp_seen pton (pre @ d @ d') u"
    using halts_go.IH [OF rpi.good_stp [OF halts_go.prems(1) halts_go.hyps(1)] d(2) halts_go.prems(3)] by auto
  with d show ?case by (intro exI [of _ "d @ d'"]) simp
qed

text \<open>
  C32: a request that is accepted is framed in exactly one way. When the parser of a fresh or reset connection reports
  Complete, the bytes it consumed are a request line, header lines, an empty line and a body; method, target and version are
  those of the line and the header collection is that of the lines. The fields select one framing: never both
  Transfer-Encoding and Content-Length; with Transfer-Encoding the body is the
  concatenation of well-formed chunks with sizes up to 1 GiB, with Content-Length it is
  exactly that many bytes, otherwise and for CONNECT it is empty. The bytes behind are left
  for the next request.
\<close>

theorem http_request_framed:
  assumes "rp_parse pton data (rp_reset p) = Some (Inr (Complete, n, q))"
  shows "\<exists>rl hls w. rp_buffer p @ data = head_wire rl hls @ crlf @ w @ rp_buffer q \<and>
    n = length (head_wire rl hls @ crlf @ w) \<and> request_head pton rl hls q \<and> request_body q w"
proof -
  obtain u where u: "halts (rp_step pton) (rp_feed (rp_reset p) data) u"
      "rp_parse pton data (rp_reset p) =
        Some (Inr (rp_result u, length (rp_buffer (rp_reset p) @ data) - length (rp_buffer u), u))"
    using rp_parse_halts [OF rp_reset_good] by blast
  with assms have q: "u = q" "rp_state q = Ps_complete" "n = length (rp_buffer p @ data) - length (rp_buffer q)"
    by (auto simp: rp_result_def rp_reset_def split: if_splits)
  have "rp_seen pton [] (rp_feed (rp_reset p) data)"
    by (simp add: rp_seen_def rp_feed_def rp_reset_def no_body_yet_def headers_clear_def)
  then obtain d where d: "rp_buffer (rp_feed (rp_reset p) data) = d @ rp_buffer q" "rp_seen pton d q"
    using halts_seen [OF u(1) rp_good_feed [OF rp_reset_good]] q by fastforce
  then obtain rl hls w where "d = head_wire rl hls @ crlf @ w" "request_head pton rl hls q" "request_body q w"
    using q(2) by (auto simp: rp_seen_def body_state_def)
  moreover have "rp_buffer p @ data = d @ rp_buffer q" using d(1) by (simp add: rp_reset_def)
  ultimately show ?thesis using q(3) by (intro exI [of _ rl] exI [of _ hls] exI [of _ w]) simp
qed

declare rp_loop.simps [code]

definition sample_parser :: request_parser where
  "sample_parser = rp_set_max_header_size 30 request_parser_ctor"

definition sample_request :: string where
  "sample_request =
     ''POST /a?b HTTP/1.1'' @ crlf @ ''Host: h'' @ crlf @ ''Transfer-Encoding: chunked'' @ crlf @ crlf @
     ''3'' @ crlf @ ''abc'' @ crlf @ ''0'' @ crlf @ crlf @ ''GET''"

definition request_parsed :: "(header_error + parse_result \<times> nat \<times> request_parser) option \<Rightarrow> string \<Rightarrow> string \<Rightarrow> bool" where
  "request_parsed r body rest = (case r of Some (Inr (k, n, q)) \<Rightarrow> k = Complete \<and> rp_body q = body \<and> rp_buffer q = rest | _ \<Rightarrow> False)"

lemma request_parsedD: "request_parsed r body rest \<Longrightarrow> \<exists>n q. r = Some (Inr (Complete, n, q)) \<and> rp_body q = body \<and> rp_buffer q = rest"
  by (auto simp: request_parsed_def split: option.splits sum.splits)

lemma sample_request_parsed: "request_parsed (rp_parse (\<lambda>_. False) sample_request (rp_reset sample_parser)) ''abc'' ''GET''"
  by code_simp

theorem http_request_framed_witness:
  "\<exists>n q rl hls w. rp_parse (\<lambda>_. False) sample_request (rp_reset sample_parser) = Some (Inr (Complete, n, q)) \<and>
     sample_request = head_wire rl hls @ crlf @ w @ ''GET'' \<and> request_body q w"
proof -
  obtain n q where q: "rp_parse (\<lambda>_. False) sample_request (rp_reset sample_parser) = Some (Inr (Complete, n, q))"
      "rp_buffer q = ''GET''"
    using request_parsedD [OF sample_request_parsed] by blast
  from http_request_framed [OF q(1)] q show ?thesis by (auto simp: sample_parser_def rp_set_max_header_size_def request_parser_ctor_def)
qed

end
