(* ===== verification/Http_Response.thy ===== *)
theory Http_Response
  imports Http_Request
begin

text \<open>
  The response decoder and the accumulating response parser of src/include/elio/http/http\_parser.hpp. The decoder
  is fed slices of input and returns one event per call; only framing lines are stored. The exception
  headers::add may throw is the left value of the results. When a chunk-size line is refused the value it had reached is
  not kept in the remaining count, which nothing reads in the error state.
\<close>

section \<open>State\<close>

datatype decoder_state =
    Ds_status_line | Ds_headers | Ds_fixed_body | Ds_close_body | Ds_chunk_size | Ds_chunk_body
  | Ds_chunk_cr | Ds_chunk_lf | Ds_trailers | Ds_complete | Ds_error

datatype response_event = Ev_need_more | Ev_headers_complete | Ev_body | Ev_message_complete | Ev_protocol_handoff | Ev_error

record response_decoder =
  rd_state :: decoder_state
  rd_status :: http_status
  rd_version :: string
  rd_reason :: string
  rd_headers :: headers
  rd_line :: string
  rd_error_message :: string
  rd_request_method :: "http_method option"
  rd_remaining :: size_t
  rd_max_headers :: size_t
  rd_max_header_size :: size_t
  rd_header_count :: size_t
  rd_headers_complete :: bool
  rd_close_delimited :: bool
  rd_handoff :: bool
  rd_limit_exceeded :: bool

definition response_decoder_ctor :: response_decoder where
  "response_decoder_ctor =
     \<lparr>rd_state = Ds_status_line, rd_status = 200, rd_version = [], rd_reason = [], rd_headers = no_headers, rd_line = [],
      rd_error_message = [], rd_request_method = None, rd_remaining = 0, rd_max_headers = 100, rd_max_header_size = 8192,
      rd_header_count = 0, rd_headers_complete = False, rd_close_delimited = False, rd_handoff = False,
      rd_limit_exceeded = False\<rparr>"

definition rd_set_max_headers :: "size_t \<Rightarrow> response_decoder \<Rightarrow> response_decoder" where
  "rd_set_max_headers n d = d\<lparr>rd_max_headers := n\<rparr>"

definition rd_set_max_header_size :: "size_t \<Rightarrow> response_decoder \<Rightarrow> response_decoder" where
  "rd_set_max_header_size n d = d\<lparr>rd_max_header_size := n\<rparr>"

definition rd_set_request_method :: "http_method \<Rightarrow> response_decoder \<Rightarrow> response_decoder" where
  "rd_set_request_method m d = d\<lparr>rd_request_method := Some m\<rparr>"

definition rd_reset :: "response_decoder \<Rightarrow> response_decoder" where
  "rd_reset d = d\<lparr>rd_state := Ds_status_line, rd_status := 200, rd_version := [], rd_reason := [],
     rd_headers := headers_clear (rd_headers d), rd_line := [], rd_error_message := [], rd_remaining := 0,
     rd_header_count := 0, rd_headers_complete := False, rd_close_delimited := False, rd_handoff := False,
     rd_limit_exceeded := False, rd_request_method := None\<rparr>"

definition rd_fail :: "string \<Rightarrow> response_decoder \<Rightarrow> response_decoder" where
  "rd_fail msg d = d\<lparr>rd_error_message := msg, rd_state := Ds_error\<rparr>"

definition rd_fail_limit :: "string \<Rightarrow> response_decoder \<Rightarrow> response_decoder" where
  "rd_fail_limit msg d = rd_fail msg (d\<lparr>rd_limit_exceeded := True\<rparr>)"

section \<open>Lines\<close>

definition select_framing :: "response_decoder \<Rightarrow> response_decoder" where
  "select_framing d =
     (let code = rd_status d;
          d = d\<lparr>rd_handoff := code = 101 \<or> rd_request_method d = Some CONNECT \<and> code \<ge> 200 \<and> code < 300\<rparr>
      in if rd_handoff d \<or> rd_request_method d = Some HEAD \<or> status_forbids_response_body code
         then d\<lparr>rd_state := Ds_complete\<rparr>
         else
           let has_te = headers_contains (rd_headers d) ''Transfer-Encoding'';
               has_cl = headers_contains (rd_headers d) ''Content-Length''
           in if has_te \<and> has_cl then rd_fail ''Both Transfer-Encoding and Content-Length present'' d
              else if has_te then
                if \<not> ascii_iequals (trim_ows (headers_get (rd_headers d) ''Transfer-Encoding'')) ''chunked''
                then rd_fail ''Unsupported Transfer-Encoding'' d
                else d\<lparr>rd_state := Ds_chunk_size\<rparr>
              else if has_cl then
                (case content_length (rd_headers d) of
                   None \<Rightarrow> rd_fail ''Invalid Content-Length'' d
                 | Some len \<Rightarrow>
                     let d = d\<lparr>rd_remaining := of_nat len\<rparr> in
                     d\<lparr>rd_state := if rd_remaining d = 0 then Ds_complete else Ds_fixed_body\<rparr>)
              else d\<lparr>rd_close_delimited := True, rd_state := Ds_close_body\<rparr>)"

definition decode_status_line :: "string \<Rightarrow> response_decoder \<Rightarrow> response_decoder" where
  "decode_status_line line d =
     (case find_char (CHR '' '') line of
        None \<Rightarrow> rd_fail ''Invalid status line: no version'' d
      | Some first \<Rightarrow>
          if \<not> is_valid_http_version (take first line) then rd_fail ''Invalid HTTP version'' d
          else
            let d = d\<lparr>rd_version := take first line\<rparr>;
                rest = drop (first + 1) line;
                code = (case find_char (CHR '' '') rest of None \<Rightarrow> rest | Some sp \<Rightarrow> take sp rest)
            in case from_chars 16 code of
                 None \<Rightarrow> rd_fail ''Invalid status code'' d
               | Some (number, left) \<Rightarrow>
                   if length code \<noteq> 3 \<or> left \<noteq> [] then rd_fail ''Invalid status code'' d
                   else
                     let d = d\<lparr>rd_status := of_nat number\<rparr>;
                         d = (case find_char (CHR '' '') rest of None \<Rightarrow> d | Some sp \<Rightarrow> d\<lparr>rd_reason := drop (sp + 1) rest\<rparr>)
                     in d\<lparr>rd_state := Ds_headers\<rparr>)"

definition decode_header_line :: "string \<Rightarrow> response_decoder \<Rightarrow> header_error + response_decoder" where
  "decode_header_line line d =
     (case find_char (CHR '':'') line of
        None \<Rightarrow> Inr (rd_fail ''Invalid header line'' d)
      | Some colon \<Rightarrow>
          let name = take colon line; v = trim_ows (drop (colon + 1) line) in
          if \<not> is_valid_header_name name then Inr (rd_fail ''Invalid header name'' d)
          else if \<not> is_valid_header_value v then Inr (rd_fail ''Invalid header value'' d)
          else
            let tunnel_length = rd_request_method d = Some CONNECT \<and> rd_status d \<ge> 200 \<and> rd_status d < 300 \<and>
                  ascii_iequals name ''Content-Length''
            in if \<not> tunnel_length \<and> ascii_iequals name ''Content-Length'' \<and>
                  headers_contains (rd_headers d) ''Content-Length'' \<and>
                  trim_ows (headers_get (rd_headers d) ''Content-Length'') \<noteq> v
               then Inr (rd_fail ''Conflicting Content-Length headers'' d)
               else if rd_header_count d \<ge> rd_max_headers d then Inr (rd_fail_limit ''Too many headers'' d)
               else
                 let d = d\<lparr>rd_header_count := rd_header_count d + 1\<rparr> in
                 ebind (if tunnel_length then headers_set name v (rd_headers d) else headers_add name v (rd_headers d))
                   (\<lambda>hs. Inr (d\<lparr>rd_headers := hs\<rparr>)))"

definition process_line :: "string \<Rightarrow> response_decoder \<Rightarrow> header_error + response_decoder" where
  "process_line line d =
     (if rd_state d = Ds_status_line then Inr (decode_status_line line d)
      else if rd_state d = Ds_chunk_size then
        (case parse_chunk_size_line line of
           Inl e \<Rightarrow> Inr (rd_fail (chunk_error_message e) d)
         | Inr n \<Rightarrow> Inr (d\<lparr>rd_remaining := n, rd_state := if n = 0 then Ds_trailers else Ds_chunk_body\<rparr>))
      else if rd_state d = Ds_trailers then
        if line = [] then Inr (d\<lparr>rd_state := Ds_complete\<rparr>)
        else if rd_header_count d \<ge> rd_max_headers d then Inr (rd_fail_limit ''Too many headers'' d)
        else if \<not> validate_chunk_trailer_line line then Inr (rd_fail ''Invalid trailer header'' d)
        else Inr (d\<lparr>rd_header_count := rd_header_count d + 1\<rparr>)
      else if line = [] then Inr (select_framing d)
      else decode_header_line line d)"

section \<open>Decoding\<close>

definition line_limit_message :: "decoder_state \<Rightarrow> string" where
  "line_limit_message st =
     (if st = Ds_status_line then ''Status line too long''
      else if st = Ds_chunk_size then ''Chunk size line too long''
      else if st = Ds_trailers then ''Trailer line too long''
      else ''Header line too long'')"

text \<open>One byte of a framing line; the flag says that it ended the header section.\<close>

definition decode_line_char :: "char \<Rightarrow> response_decoder \<Rightarrow> header_error + bool \<times> response_decoder" where
  "decode_line_char ch d =
     (if rd_line d \<noteq> [] \<and> last (rd_line d) = cr \<and> ch \<noteq> lf then Inr (False, rd_fail ''Invalid framing line ending'' d)
      else if ch = lf then
        if rd_line d = [] \<or> last (rd_line d) \<noteq> cr then Inr (False, rd_fail ''Invalid framing line ending'' d)
        else
          let line = butlast (rd_line d);
              header_boundary = rd_state d = Ds_headers \<and> line = []
          in ebind (process_line line (d\<lparr>rd_line := line\<rparr>)) (\<lambda>d.
               let d = d\<lparr>rd_line := []\<rparr> in
               if rd_state d = Ds_error then Inr (False, d)
               else if header_boundary then Inr (True, d\<lparr>rd_headers_complete := True\<rparr>)
               else Inr (False, d))
      else if ch \<noteq> cr \<and> length (rd_line d) \<ge> unat (rd_max_header_size d) then
        Inr (False, rd_fail_limit (line_limit_message (rd_state d)) d)
      else Inr (False, d\<lparr>rd_line := rd_line d @ [ch]\<rparr>))"

definition is_body_state :: "decoder_state \<Rightarrow> bool" where
  "is_body_state st \<longleftrightarrow> st = Ds_fixed_body \<or> st = Ds_close_body \<or> st = Ds_chunk_body"

text \<open>A slice of a body: how many bytes, and the decoder behind them.\<close>

definition decode_body :: "nat \<Rightarrow> response_decoder \<Rightarrow> nat \<times> response_decoder" where
  "decode_body n d =
     (if rd_state d = Ds_close_body then (n, d)
      else
        let c = min (unat (rd_remaining d)) n;
            d' = d\<lparr>rd_remaining := rd_remaining d - of_nat c\<rparr>
        in (c, if rd_remaining d' = 0
               then d'\<lparr>rd_state := if rd_state d' = Ds_fixed_body then Ds_complete else Ds_chunk_cr\<rparr> else d'))"

type_synonym decode_result = "response_event \<times> nat \<times> string"

function decode_loop :: "nat \<Rightarrow> string \<Rightarrow> response_decoder \<Rightarrow> header_error + decode_result \<times> response_decoder" where
  "decode_loop used input d =
     (if rd_state d = Ds_error then Inr ((Ev_error, used, []), d)
      else if rd_state d = Ds_complete then
        Inr ((if rd_handoff d then Ev_protocol_handoff else Ev_message_complete, used, []), d)
      else if is_body_state (rd_state d) then
        if input = [] then Inr ((Ev_need_more, used, []), d)
        else (case decode_body (length input) d of (c, d') \<Rightarrow> Inr ((Ev_body, used + c, take c input), d'))
      else if rd_state d = Ds_chunk_cr \<or> rd_state d = Ds_chunk_lf then
        if input = [] then Inr ((Ev_need_more, used, []), d)
        else if hd input \<noteq> (if rd_state d = Ds_chunk_cr then cr else lf) then
          decode_loop used input (rd_fail ''Missing CRLF after chunk data'' d)
        else decode_loop (used + 1) (tl input)
               (d\<lparr>rd_state := if rd_state d = Ds_chunk_cr then Ds_chunk_lf else Ds_chunk_size\<rparr>)
      else if input = [] then Inr ((Ev_need_more, used, []), d)
      else case decode_line_char (hd input) d of
             Inl e \<Rightarrow> Inl e
           | Inr (boundary, d') \<Rightarrow>
               if boundary then Inr ((Ev_headers_complete, used + 1, []), d')
               else decode_loop (used + 1) (tl input) d')"
  by pat_completeness auto
termination
  by (relation "measure (\<lambda>(used, input, d). 2 * length input + (if rd_state d = Ds_error then 0 else 1))")
     (auto simp: rd_fail_def length_greater_0_conv [symmetric] simp del: length_greater_0_conv)

declare decode_loop.simps [simp del]

definition decode :: "string \<Rightarrow> response_decoder \<Rightarrow> header_error + decode_result \<times> response_decoder" where
  "decode input d = decode_loop 0 input d"

definition decoder_finish_eof :: "response_decoder \<Rightarrow> header_error + decode_result \<times> response_decoder" where
  "decoder_finish_eof d =
     (let d = (if rd_state d = Ds_close_body then d\<lparr>rd_state := Ds_complete\<rparr> else d);
          d = (if rd_state d \<noteq> Ds_complete \<and> rd_state d \<noteq> Ds_error
               then rd_fail ''Connection closed before response complete'' d else d)
      in decode [] d)"

section \<open>The accumulating parser\<close>

record response_parser =
  pr_decoder :: response_decoder
  pr_body :: string
  pr_buffer :: string

definition response_parser_ctor :: response_parser where
  "response_parser_ctor = \<lparr>pr_decoder = response_decoder_ctor, pr_body = [], pr_buffer = []\<rparr>"

definition pr_set_max_headers :: "size_t \<Rightarrow> response_parser \<Rightarrow> response_parser" where
  "pr_set_max_headers n p = p\<lparr>pr_decoder := rd_set_max_headers n (pr_decoder p)\<rparr>"

definition pr_set_max_header_size :: "size_t \<Rightarrow> response_parser \<Rightarrow> response_parser" where
  "pr_set_max_header_size n p = p\<lparr>pr_decoder := rd_set_max_header_size n (pr_decoder p)\<rparr>"

definition pr_set_request_method :: "http_method \<Rightarrow> response_parser \<Rightarrow> response_parser" where
  "pr_set_request_method m p = p\<lparr>pr_decoder := rd_set_request_method m (pr_decoder p)\<rparr>"

definition pr_result_kind :: "response_parser \<Rightarrow> parse_result" where
  "pr_result_kind p =
     (if rd_state (pr_decoder p) = Ds_error then Parse_Error
      else if rd_state (pr_decoder p) = Ds_complete then Complete else Need_More)"

definition pr_reset :: "response_parser \<Rightarrow> response_parser" where
  "pr_reset p = p\<lparr>pr_buffer := rd_line (pr_decoder p) @ pr_buffer p, pr_decoder := rd_reset (pr_decoder p), pr_body := []\<rparr>"

partial_function (option) pr_loop :: "nat \<Rightarrow> response_parser \<Rightarrow> (header_error + nat \<times> response_parser) option" where
  "pr_loop offset p =
     (case decode (drop offset (pr_buffer p)) (pr_decoder p) of
        Inl e \<Rightarrow> Some (Inl e)
      | Inr ((ev, c, piece), d) \<Rightarrow>
          (if ev = Ev_need_more \<or> ev = Ev_error \<or> ev = Ev_message_complete \<or> ev = Ev_protocol_handoff
           then Some (Inr (offset + c, p\<lparr>pr_decoder := d\<rparr>))
           else pr_loop (offset + c) (p\<lparr>pr_decoder := d, pr_body := pr_body p @ (if ev = Ev_body then piece else [])\<rparr>)))"

definition pr_parse :: "string \<Rightarrow> response_parser \<Rightarrow> (header_error + (parse_result \<times> nat) \<times> response_parser) option" where
  "pr_parse data p =
     (let old_pending = length (rd_line (pr_decoder p)) in
      case pr_loop 0 (p\<lparr>pr_buffer := pr_buffer p @ data\<rparr>) of
        None \<Rightarrow> None
      | Some (Inl e) \<Rightarrow> Some (Inl e)
      | Some (Inr (offset, q)) \<Rightarrow>
          let q = q\<lparr>pr_buffer := drop offset (pr_buffer q)\<rparr>
          in Some (Inr ((pr_result_kind q, old_pending + offset - length (rd_line (pr_decoder q))), q)))"

definition pr_finish_eof :: "response_parser \<Rightarrow> header_error + (parse_result \<times> nat) \<times> response_parser" where
  "pr_finish_eof p =
     ebind (decoder_finish_eof (pr_decoder p)) (\<lambda>(r, d).
       let q = p\<lparr>pr_decoder := d\<rparr> in Inr ((pr_result_kind q, 0), q))"

definition pr_take_remaining :: "response_parser \<Rightarrow> string \<times> response_parser" where
  "pr_take_remaining p =
     (rd_line (pr_decoder p) @ pr_buffer p,
      p\<lparr>pr_decoder := (pr_decoder p)\<lparr>rd_line := []\<rparr>, pr_buffer := []\<rparr>)"

definition pr_bytes_remaining :: "response_parser \<Rightarrow> nat" where
  "pr_bytes_remaining p = length (rd_line (pr_decoder p)) + length (pr_buffer p)"

definition pr_bytes_buffered :: "response_parser \<Rightarrow> nat" where
  "pr_bytes_buffered p = length (pr_body p) + pr_bytes_remaining p"

end
