(* ===== verification/Http_Response_Steps.thy ===== *)
theory Http_Response_Steps
  imports Http_Response Http_Request_Steps
begin

text \<open>
  The response parser byte by byte. Slices of a body are sequences of single bytes, so the slices the decoder
  hands out do not show in the state the parser ends in, and it is an incremental parser.
\<close>

section \<open>Steps\<close>

definition pr_byte :: "char \<Rightarrow> response_decoder \<Rightarrow> bool \<times> string \<times> response_decoder" where
  "pr_byte c d =
     (if is_body_state (rd_state d) then (True, [c], snd (decode_body 1 d))
      else if rd_state d = Ds_chunk_cr \<or> rd_state d = Ds_chunk_lf then
        if c \<noteq> (if rd_state d = Ds_chunk_cr then cr else lf) then (False, [], rd_fail ''Missing CRLF after chunk data'' d)
        else (True, [], d\<lparr>rd_state := if rd_state d = Ds_chunk_cr then Ds_chunk_lf else Ds_chunk_size\<rparr>)
      else case decode_line_char c d of Inl e \<Rightarrow> (True, [], d) | Inr (b, d') \<Rightarrow> (True, [], d'))"

definition pr_step :: "response_parser \<Rightarrow> response_parser option" where
  "pr_step p =
     (case pr_buffer p of
        [] \<Rightarrow> None
      | c # cs \<Rightarrow>
          if rd_state (pr_decoder p) = Ds_error \<or> rd_state (pr_decoder p) = Ds_complete then None
          else case pr_byte c (pr_decoder p) of
            (used, x, d) \<Rightarrow> Some (p\<lparr>pr_decoder := d, pr_body := pr_body p @ x, pr_buffer := if used then cs else c # cs\<rparr>))"

definition pr_feed :: "response_parser \<Rightarrow> string \<Rightarrow> response_parser" where
  "pr_feed p b = p\<lparr>pr_buffer := pr_buffer p @ b\<rparr>"

definition pr_weight :: "response_parser \<Rightarrow> nat" where
  "pr_weight p = 2 * length (pr_buffer p) + (if rd_state (pr_decoder p) = Ds_error then 0 else 1)"

definition rd_good :: "response_decoder \<Rightarrow> bool" where
  "rd_good d \<longleftrightarrow> (rd_state d = Ds_fixed_body \<or> rd_state d = Ds_chunk_body \<longrightarrow> rd_remaining d \<noteq> 0)"

definition pr_good :: "response_parser \<Rightarrow> bool" where
  "pr_good p \<longleftrightarrow> rd_good (pr_decoder p)"

section \<open>No exception, and the body states have bytes to read\<close>

lemma rd_fail_simps [simp]:
  "rd_state (rd_fail m d) = Ds_error" "rd_state (rd_fail_limit m d) = Ds_error"
  "rd_line (rd_fail m d) = rd_line d" "rd_line (rd_fail_limit m d) = rd_line d"
  "rd_max_header_size (rd_fail m d) = rd_max_header_size d" "rd_max_header_size (rd_fail_limit m d) = rd_max_header_size d"
  "rd_max_headers (rd_fail m d) = rd_max_headers d" "rd_max_headers (rd_fail_limit m d) = rd_max_headers d"
  "rd_header_count (rd_fail m d) = rd_header_count d" "rd_header_count (rd_fail_limit m d) = rd_header_count d"
  by (simp_all add: rd_fail_def rd_fail_limit_def)

lemma rd_fail_good [simp]: "rd_good (rd_fail m d)" "rd_good (rd_fail_limit m d)"
  by (simp_all add: rd_good_def)

lemma decode_status_line_good: "rd_good (decode_status_line l d)"
  by (auto simp: decode_status_line_def Let_def rd_good_def split: option.splits)

lemma select_framing_good: "rd_good (select_framing d)"
  by (auto simp: select_framing_def Let_def rd_good_def split: option.splits)

definition header_added :: "response_decoder \<Rightarrow> header_error + response_decoder \<Rightarrow> bool" where
  "header_added d r \<longleftrightarrow> rd_header_count d < rd_max_headers d \<and>
     (\<exists>hs. r = Inr (d\<lparr>rd_header_count := rd_header_count d + 1, rd_headers := hs\<rparr>))"

definition header_refused :: "response_decoder \<Rightarrow> header_error + response_decoder \<Rightarrow> bool" where
  "header_refused d r \<longleftrightarrow> (\<exists>m. r = Inr (rd_fail m d)) \<or> r = Inr (rd_fail_limit ''Too many headers'' d)"

lemma header_refused_simps [simp]: "header_refused d (Inr (rd_fail m d))" "header_refused d (Inr (rd_fail_limit ''Too many headers'' d))"
  by (auto simp: header_refused_def)

lemma decode_header_line_result: "header_refused d (decode_header_line l d) \<or> header_added d (decode_header_line l d)"
proof (cases "find_char (CHR '':'') l")
  case None
  then show ?thesis by (simp add: decode_header_line_def)
next
  case (Some colon)
  let ?n = "take colon l" and ?v = "trim_ows (drop (colon + 1) l)"
  let ?cl = "ascii_iequals ?n ''Content-Length''"
  let ?t = "rd_request_method d = Some CONNECT \<and> rd_status d \<ge> 200 \<and> rd_status d < 300 \<and> ?cl"
  let ?conflict = "?cl \<and> headers_contains (rd_headers d) ''Content-Length'' \<and>
    trim_ows (headers_get (rd_headers d) ''Content-Length'') \<noteq> trim_ows (drop (colon + 1) l)"
  show ?thesis
  proof (cases "is_valid_header_name ?n \<and> is_valid_header_value ?v \<and> (?t \<or> \<not> ?conflict) \<and> rd_header_count d < rd_max_headers d")
    case False
    then have "header_refused d (decode_header_line l d)"
      unfolding decode_header_line_def Some option.case Let_def
      by (cases "is_valid_header_name ?n"; cases "is_valid_header_value ?v"; cases "\<not> ?t \<and> ?conflict") (auto simp: not_less)
    then show ?thesis ..
  next
    case True
    have "\<exists>hs. (if ?t then headers_set ?n ?v (rd_headers d) else headers_add ?n ?v (rd_headers d)) = Inr hs"
    proof (cases ?t)
      case tunnel: True
      then show ?thesis using True by (simp add: headers_set_def)
    next
      case False
      then have "\<not> ?conflict" using True by blast
      with True False show ?thesis using headers_add_no_throw [of ?n "drop (colon + 1) l" "rd_headers d"] by auto
    qed
    then obtain hs where "(if ?t then headers_set ?n ?v (rd_headers d) else headers_add ?n ?v (rd_headers d)) = Inr hs" ..
    with True have "decode_header_line l d = Inr (d\<lparr>rd_header_count := rd_header_count d + 1, rd_headers := hs\<rparr>)"
      unfolding decode_header_line_def Some option.case Let_def by (auto simp: not_le split: if_splits)
    with True show ?thesis by (auto simp: header_added_def)
  qed
qed

lemma decode_header_line_cases:
  obtains (refused) m where "decode_header_line l d = Inr (rd_fail m d)"
  | (limit) "decode_header_line l d = Inr (rd_fail_limit ''Too many headers'' d)"
  | (added) hs where "decode_header_line l d = Inr (d\<lparr>rd_header_count := rd_header_count d + 1, rd_headers := hs\<rparr>)"
      "rd_header_count d < rd_max_headers d"
  using decode_header_line_result [of d l] unfolding header_refused_def header_added_def by blast

lemma process_line_no_throw: "\<exists>d'. process_line l d = Inr d'"
  by (cases rule: decode_header_line_cases [of l d]) (auto simp: process_line_def split: sum.splits)

lemma rd_good_line [simp]:
  "rd_good (d\<lparr>rd_line := l\<rparr>) = rd_good d" "rd_good (d\<lparr>rd_headers_complete := b\<rparr>) = rd_good d"
  "rd_good (d\<lparr>rd_header_count := n\<rparr>) = rd_good d" "rd_good (d\<lparr>rd_headers := hs\<rparr>) = rd_good d"
  "rd_good (d\<lparr>rd_state := Ds_complete\<rparr>)"
  "rd_good (d\<lparr>rd_remaining := k, rd_state := if k = 0 then Ds_trailers else Ds_chunk_body\<rparr>)"
  by (simp_all add: rd_good_def)

lemma process_line_good:
  assumes "process_line l d = Inr d'" "rd_good d"
  shows "rd_good d'"
proof -
  have h: "decode_header_line l d = Inr e \<Longrightarrow> rd_good e" for e
    using assms(2) by (cases rule: decode_header_line_cases [of l d]) auto
  show ?thesis
  proof (cases "rd_state d = Ds_chunk_size")
    case True
    with assms show ?thesis
      by (cases "parse_chunk_size_line l") (simp add: process_line_def; (elim subst)?; simp)+
  next
    case False
    with assms h show ?thesis
      by (auto simp: process_line_def decode_status_line_good select_framing_good split: if_splits)
  qed
qed

lemma decode_line_char_no_throw: "\<exists>b d'. decode_line_char c d = Inr (b, d')"
proof -
  obtain d' where "process_line (butlast (rd_line d)) (d\<lparr>rd_line := butlast (rd_line d)\<rparr>) = Inr d'"
    using process_line_no_throw by blast
  then have "decode_line_char c d \<noteq> Inl e" for e by (simp add: decode_line_char_def Let_def)
  then show ?thesis by (cases "decode_line_char c d") auto
qed

lemma decode_line_char_good:
  assumes "decode_line_char c d = Inr (b, d')" "rd_good d"
  shows "rd_good d'"
proof -
  obtain e where e: "process_line (butlast (rd_line d)) (d\<lparr>rd_line := butlast (rd_line d)\<rparr>) = Inr e"
    using process_line_no_throw by blast
  with process_line_good [OF e] assms show ?thesis by (auto simp: decode_line_char_def Let_def split: if_splits)
qed

lemma decode_body_good: "0 < n \<Longrightarrow> rd_good d \<Longrightarrow> is_body_state (rd_state d) \<Longrightarrow> rd_good (snd (decode_body n d))"
  by (auto simp: decode_body_def rd_good_def is_body_state_def Let_def)

lemma pr_byte_good: "pr_byte c d = (used, x, d') \<Longrightarrow> rd_good d \<Longrightarrow> rd_good d'"
  using decode_line_char_no_throw [of c d]
  by (auto simp: pr_byte_def decode_body_good rd_good_def [of "_\<lparr>rd_state := _\<rparr>"] dest: decode_line_char_good split: if_splits)

lemma pr_byte_unused: "pr_byte c d = (False, x, d') \<Longrightarrow> rd_state d' = Ds_error"
  by (auto simp: pr_byte_def split: if_splits sum.splits prod.splits)

section \<open>Bounds\<close>

text \<open>A line may exceed the limit by the carriage return of its line end only.\<close>

definition rd_bounded :: "response_decoder \<Rightarrow> bool" where
  "rd_bounded d \<longleftrightarrow> length (rd_line d) \<le> unat (rd_max_header_size d) + (if rd_line d \<noteq> [] \<and> last (rd_line d) = cr then 1 else 0) \<and>
     rd_header_count d \<le> rd_max_headers d"

definition same_limits :: "response_decoder \<Rightarrow> response_decoder \<Rightarrow> bool" where
  "same_limits d e \<longleftrightarrow> rd_max_header_size d = rd_max_header_size e \<and> rd_max_headers d = rd_max_headers e"

lemma decode_status_line_keeps:
  "same_limits d (decode_status_line l d)" "rd_line (decode_status_line l d) = rd_line d"
  "rd_header_count (decode_status_line l d) = rd_header_count d"
  by (auto simp: decode_status_line_def Let_def same_limits_def split: option.splits)

lemma select_framing_keeps:
  "same_limits d (select_framing d)" "rd_line (select_framing d) = rd_line d"
  "rd_header_count (select_framing d) = rd_header_count d"
  by (auto simp: select_framing_def Let_def same_limits_def split: option.splits)

lemma process_line_keeps:
  assumes "process_line l d = Inr d'"
  shows "same_limits d d' \<and> rd_line d' = rd_line d \<and>
    (rd_header_count d \<le> rd_max_headers d \<longrightarrow> rd_header_count d' \<le> rd_max_headers d)"
proof -
  have h: "decode_header_line l d = Inr e \<Longrightarrow> same_limits d e \<and> rd_line e = rd_line d \<and>
      (rd_header_count d \<le> rd_max_headers d \<longrightarrow> rd_header_count e \<le> rd_max_headers d)" for e
    by (cases rule: decode_header_line_cases [of l d]) (auto simp: same_limits_def inc_le)
  show ?thesis
  proof (cases "rd_state d = Ds_chunk_size")
    case True
    with assms show ?thesis by (cases "parse_chunk_size_line l") (auto simp: process_line_def same_limits_def)
  next
    case False
    have r: "same_limits d d" by (simp add: same_limits_def)
    from False assms h decode_status_line_keeps [where l = l and d = d] select_framing_keeps [of d] r show ?thesis
      by (auto simp: process_line_def same_limits_def inc_le not_le split: if_splits)
  qed
qed

lemma decode_line_char_bounded:
  assumes "decode_line_char c d = Inr (b, d')" "rd_bounded d"
  shows "rd_bounded d' \<and> same_limits d d' \<and> length (rd_line d') \<le> Suc (length (rd_line d))"
proof -
  obtain e where e: "process_line (butlast (rd_line d)) (d\<lparr>rd_line := butlast (rd_line d)\<rparr>) = Inr e"
    using process_line_no_throw by blast
  note k = process_line_keeps [OF e]
  show ?thesis
  proof (cases "c = lf")
    case True
    with assms e k show ?thesis
      by (auto simp: decode_line_char_def Let_def rd_bounded_def same_limits_def split: if_splits)
  next
    case False
    with assms show ?thesis
      by (auto simp: decode_line_char_def Let_def rd_bounded_def same_limits_def split: if_splits)
  qed
qed

lemma decode_body_keeps:
  "same_limits d (snd (decode_body n d))" "rd_line (snd (decode_body n d)) = rd_line d"
  "rd_header_count (snd (decode_body n d)) = rd_header_count d"
  by (auto simp: decode_body_def same_limits_def Let_def)

lemma pr_byte_bounded:
  assumes "pr_byte c d = (used, x, d')" "rd_bounded d"
  shows "rd_bounded d' \<and> same_limits d d' \<and> length (rd_line d') \<le> (if used then Suc (length (rd_line d)) else length (rd_line d))"
proof -
  consider "is_body_state (rd_state d)" | "\<not> is_body_state (rd_state d)" "rd_state d = Ds_chunk_cr \<or> rd_state d = Ds_chunk_lf"
    | "\<not> is_body_state (rd_state d)" "\<not> (rd_state d = Ds_chunk_cr \<or> rd_state d = Ds_chunk_lf)" by blast
  then show ?thesis
  proof cases
    case 1
    then have d': "d' = snd (decode_body 1 d)" "used" using assms(1) by (simp_all add: pr_byte_def)
    have l: "rd_max_header_size d' = rd_max_header_size d" "rd_max_headers d' = rd_max_headers d"
      using decode_body_keeps(1) [of d 1] unfolding d' same_limits_def by simp_all
    have k: "rd_line d' = rd_line d" "rd_header_count d' = rd_header_count d" unfolding d' by (rule decode_body_keeps)+
    from l k assms(2) show ?thesis unfolding rd_bounded_def same_limits_def by simp
  next
    case 2
    with assms show ?thesis unfolding pr_byte_def rd_bounded_def same_limits_def by (auto split: if_splits)
  next
    case 3
    obtain b e where e: "decode_line_char c d = Inr (b, e)" using decode_line_char_no_throw by blast
    with 3 assms(1) have "used" "d' = e" by (simp_all add: pr_byte_def)
    with decode_line_char_bounded [OF e assms(2)] show ?thesis by simp
  qed
qed

lemma pr_step_bounded:
  assumes "pr_step p = Some q" "rd_bounded (pr_decoder p)"
  shows "rd_bounded (pr_decoder q) \<and> same_limits (pr_decoder p) (pr_decoder q) \<and> pr_bytes_remaining q \<le> pr_bytes_remaining p"
proof -
  obtain c cs used x d where "pr_buffer p = c # cs" "pr_byte c (pr_decoder p) = (used, x, d)"
      "q = p\<lparr>pr_decoder := d, pr_body := pr_body p @ x, pr_buffer := if used then cs else c # cs\<rparr>"
    using assms(1) by (auto simp: pr_step_def split: list.splits if_splits prod.splits)
  with pr_byte_bounded [OF this(2) assms(2)] show ?thesis by (auto simp: pr_bytes_remaining_def)
qed

lemma halts_bounded:
  "halts pr_step p q \<Longrightarrow> rd_bounded (pr_decoder p) \<Longrightarrow>
    rd_bounded (pr_decoder q) \<and> same_limits (pr_decoder p) (pr_decoder q) \<and> pr_bytes_remaining q \<le> pr_bytes_remaining p"
proof (induction rule: halts.induct)
  case (halts_go s t u)
  from pr_step_bounded [OF halts_go.hyps(1) halts_go.prems] halts_go.IH show ?case by (auto simp: same_limits_def)
qed (simp add: same_limits_def)

section \<open>The interface\<close>

lemma pr_step_good: "pr_good p \<Longrightarrow> pr_step p = Some q \<Longrightarrow> pr_good q"
  by (auto simp: pr_step_def pr_good_def split: list.splits if_splits prod.splits dest: pr_byte_good)

lemma pr_step_weight: "pr_step p = Some q \<Longrightarrow> pr_weight q < pr_weight p"
  by (auto simp: pr_step_def pr_weight_def split: list.splits if_splits prod.splits dest: pr_byte_unused)

lemma pr_step_feed: "pr_step p = Some q \<Longrightarrow> pr_step (pr_feed p b) = Some (pr_feed q b)"
  by (auto simp: pr_step_def pr_feed_def split: list.splits if_splits prod.splits)

interpretation pri: incremental_parser pr_step pr_feed pr_weight pr_good
proof
  fix s t b and u :: response_parser and a
  show "pr_good s \<Longrightarrow> pr_step s = Some t \<Longrightarrow> pr_good t" by (rule pr_step_good)
  show "pr_step s = Some t \<Longrightarrow> pr_weight t < pr_weight s" by (rule pr_step_weight)
  show "pr_good s \<Longrightarrow> pr_good (pr_feed s b)" by (simp add: pr_good_def pr_feed_def)
  show "pr_feed (pr_feed s a) b = pr_feed s (a @ b)" by (simp add: pr_feed_def)
  show "halts pr_step (pr_feed s b) u \<longleftrightarrow> halts pr_step (pr_feed t b) u" if "pr_step s = Some t"
    using pr_step_feed [OF that, of b] by (rule halts_first)
qed

end
