(* ===== verification/Http_Response_Props.thy ===== *)
theory Http_Response_Props
  imports Http_Response_Steps Http_Request_Props
begin

text \<open>
  The response parser returns, and its result does not depend on the pieces of the stream; its memory for framing
  lines is bounded.
\<close>

section \<open>The loops as steps\<close>

definition pr_at :: "response_parser \<Rightarrow> response_decoder \<Rightarrow> string \<Rightarrow> string \<Rightarrow> response_parser" where
  "pr_at p d input b = p\<lparr>pr_decoder := d, pr_body := b, pr_buffer := input\<rparr>"

lemma pr_at_simps [simp]:
  "pr_decoder (pr_at p d input b) = d" "pr_buffer (pr_at p d input b) = input" "pr_body (pr_at p d input b) = b"
  "pr_at (pr_at p d input b) d' input' b' = pr_at p d' input' b'"
  "(pr_at p d input b)\<lparr>pr_decoder := d', pr_body := b', pr_buffer := input'\<rparr> = pr_at p d' input' b'"
  by (simp_all add: pr_at_def)

lemma pr_step_at:
  "pr_step (pr_at p d (x # xs) b) =
     (if rd_state d = Ds_error \<or> rd_state d = Ds_complete then None
      else case pr_byte x d of (used, y, d') \<Rightarrow> Some (pr_at p d' (if used then xs else x # xs) (b @ y)))"
  "pr_step (pr_at p d [] b) = None"
  by (auto simp: pr_step_def pr_at_def split: prod.splits)

lemma decode_body_split:
  assumes "is_body_state (rd_state d)" "rd_good d" "0 < n"
  shows "(fst (decode_body (Suc n) d) = 1 \<and> snd (decode_body (Suc n) d) = snd (decode_body 1 d)) \<or>
    (let d1 = snd (decode_body 1 d) in is_body_state (rd_state d1) \<and> rd_good d1 \<and>
      fst (decode_body (Suc n) d) = Suc (fst (decode_body n d1)) \<and> snd (decode_body (Suc n) d) = snd (decode_body n d1))"
proof (cases "rd_state d = Ds_close_body")
  case True
  then show ?thesis using assms by (simp add: decode_body_def is_body_state_def)
next
  case False
  then have r: "rd_remaining d \<noteq> 0" using assms by (auto simp: rd_good_def is_body_state_def)
  then have u: "unat (rd_remaining d - 1) = unat (rd_remaining d) - 1" "0 < unat (rd_remaining d)"
    by (simp_all add: unat_minus_one unat_gt_0)
  show ?thesis
  proof (cases "rd_remaining d = 1")
    case True
    then show ?thesis using False assms by (simp add: decode_body_def Let_def)
  next
    case ne: False
    then have n1: "unat (rd_remaining d) \<noteq> 1" by (simp add: word_unat_eq_iff)
    with u have n2: "\<not> unat (rd_remaining d) \<le> Suc 0" by linarith
    have d1: "snd (decode_body 1 d) = d\<lparr>rd_remaining := rd_remaining d - 1\<rparr>"
      using False ne n2 by (simp add: decode_body_def Let_def min_def)
    have m: "min (unat (rd_remaining d)) (Suc n) = Suc (min (unat (rd_remaining d - 1)) n)" using u by (simp add: min_def) arith
    show ?thesis unfolding d1 using False assms ne m
      by (simp add: decode_body_def Let_def rd_good_def diff_diff_eq)
  qed
qed

lemma body_steps:
  assumes "is_body_state (rd_state d)" "rd_good d" "input \<noteq> []"
  shows "halts pr_step (pr_at p d input b) u \<longleftrightarrow>
    halts pr_step (pr_at p (snd (decode_body (length input) d)) (drop (fst (decode_body (length input) d)) input)
      (b @ take (fst (decode_body (length input) d)) input)) u"
  using assms
proof (induction input arbitrary: d b)
  case (Cons x xs)
  let ?d1 = "snd (decode_body 1 d)"
  have "pr_step (pr_at p d (x # xs) b) = Some (pr_at p ?d1 xs (b @ [x]))"
    using Cons.prems by (auto simp: pr_step_at pr_byte_def is_body_state_def)
  then have s: "halts pr_step (pr_at p d (x # xs) b) u \<longleftrightarrow> halts pr_step (pr_at p ?d1 xs (b @ [x])) u" by (rule halts_first)
  show ?case
  proof (cases "xs = []")
    case True
    have "fst (decode_body 1 d) = 1"
      using Cons.prems unat_gt_0 [of "rd_remaining d"] by (auto simp: decode_body_def Let_def rd_good_def is_body_state_def)
    with s True show ?thesis by simp
  next
    case False
    then have "0 < length xs" by simp
    from decode_body_split [OF Cons.prems(1,2) this] show ?thesis
    proof
      assume "fst (decode_body (Suc (length xs)) d) = 1 \<and> snd (decode_body (Suc (length xs)) d) = ?d1"
      with s show ?thesis by simp
    next
      assume a: "let d1 = ?d1 in is_body_state (rd_state d1) \<and> rd_good d1 \<and>
        fst (decode_body (Suc (length xs)) d) = Suc (fst (decode_body (length xs) d1)) \<and>
        snd (decode_body (Suc (length xs)) d) = snd (decode_body (length xs) d1)"
      then have "halts pr_step (pr_at p ?d1 xs (b @ [x])) u \<longleftrightarrow>
        halts pr_step (pr_at p (snd (decode_body (length xs) ?d1)) (drop (fst (decode_body (length xs) ?d1)) xs)
          ((b @ [x]) @ take (fst (decode_body (length xs) ?d1)) xs)) u"
        using False by (intro Cons.IH) (auto simp: Let_def)
      with s a show ?thesis by (simp add: Let_def)
    qed
  qed
qed simp

definition stops :: "response_event \<Rightarrow> bool" where
  "stops ev \<longleftrightarrow> ev = Ev_need_more \<or> ev = Ev_error \<or> ev = Ev_message_complete \<or> ev = Ev_protocol_handoff"

text \<open>One call of decode, as steps of the parser.\<close>

definition decodes :: "response_parser \<Rightarrow> string \<Rightarrow> nat \<Rightarrow> string \<Rightarrow> response_decoder \<Rightarrow> bool" where
  "decodes p b used input d \<longleftrightarrow>
     (\<exists>ev c x d'. decode_loop used input d = Inr ((ev, used + c, x), d') \<and> c \<le> length input \<and> rd_good d' \<and>
       (\<forall>u. halts pr_step (pr_at p d input b) u \<longleftrightarrow> halts pr_step (pr_at p d' (drop c input) (b @ x)) u) \<and>
       (stops ev \<longrightarrow> pr_step (pr_at p d' (drop c input) (b @ x)) = None) \<and> (\<not> stops ev \<longrightarrow> 0 < c) \<and>
       (ev \<noteq> Ev_body \<longrightarrow> x = []))"

lemma decodes_stop:
  "decode_loop used input d = Inr ((ev, used, []), d) \<Longrightarrow> stops ev \<Longrightarrow> rd_good d \<Longrightarrow>
    pr_step (pr_at p d input b) = None \<Longrightarrow> decodes p b used input d"
  unfolding decodes_def by (intro exI [of _ ev] exI [of _ 0] exI [of _ "[]"] exI [of _ d]) (auto simp: stops_def)

lemma decodes_used:
  assumes "decode_loop used (y # ys) d = decode_loop (used + 1) ys d1" "decodes p b (used + 1) ys d1"
    "pr_step (pr_at p d (y # ys) b) = Some (pr_at p d1 ys b)"
  shows "decodes p b used (y # ys) d"
proof -
  obtain ev c x d' where c: "decode_loop (used + 1) ys d1 = Inr ((ev, used + 1 + c, x), d')" "c \<le> length ys" "rd_good d'"
      "\<And>u. halts pr_step (pr_at p d1 ys b) u \<longleftrightarrow> halts pr_step (pr_at p d' (drop c ys) (b @ x)) u"
      "stops ev \<longrightarrow> pr_step (pr_at p d' (drop c ys) (b @ x)) = None" "\<not> stops ev \<longrightarrow> 0 < c" "ev \<noteq> Ev_body \<longrightarrow> x = []"
    using assms(2) unfolding decodes_def by blast
  show ?thesis unfolding decodes_def
    using c assms(1) halts_first [where stp = pr_step, OF assms(3)]
    by (intro exI [of _ ev] exI [of _ "Suc c"] exI [of _ x] exI [of _ d']) simp
qed

lemma decodes_unused:
  assumes "decode_loop used input d = decode_loop used input d1" "decodes p b used input d1"
    "pr_step (pr_at p d input b) = Some (pr_at p d1 input b)"
  shows "decodes p b used input d"
  using assms(1,2) halts_first [where stp = pr_step, OF assms(3)] unfolding decodes_def by simp

lemma decodes_line:
  assumes "rd_good d" "rd_state d \<noteq> Ds_error" "rd_state d \<noteq> Ds_complete" "\<not> is_body_state (rd_state d)"
    "rd_state d \<noteq> Ds_chunk_cr" "rd_state d \<noteq> Ds_chunk_lf"
    and next_line: "\<And>d'. decode_line_char y d = Inr (False, d') \<Longrightarrow> decodes p b (used + 1) ys d'"
  shows "decodes p b used (y # ys) d"
proof -
  obtain h d' where h: "decode_line_char y d = Inr (h, d')" using decode_line_char_no_throw by blast
  have s: "pr_step (pr_at p d (y # ys) b) = Some (pr_at p d' ys b)" using assms h by (simp add: pr_step_at pr_byte_def)
  show ?thesis
  proof (cases h)
    case True
    then have "decode_loop used (y # ys) d = Inr ((Ev_headers_complete, used + 1, []), d')"
      using assms h by (simp add: decode_loop.simps [of used "y # ys"])
    moreover have "rd_good d'" using decode_line_char_good [OF h assms(1)] .
    ultimately show ?thesis unfolding decodes_def using halts_first [where stp = pr_step, OF s]
      by (intro exI [of _ Ev_headers_complete] exI [of _ 1] exI [of _ "[]"] exI [of _ d']) (simp add: stops_def)
  next
    case False
    then have "decode_loop used (y # ys) d = decode_loop (used + 1) ys d'"
      using assms h by (simp add: decode_loop.simps [of used "y # ys"])
    then show ?thesis using s next_line False h by (intro decodes_used [where ?d1.0 = d']) simp_all
  qed
qed

lemma decodes_body:
  assumes "rd_good d" "is_body_state (rd_state d)" "input \<noteq> []"
  shows "decodes p b used input d"
proof -
  let ?c = "fst (decode_body (length input) d)" and ?d = "snd (decode_body (length input) d)"
  have "decode_loop used input d = Inr ((Ev_body, used + ?c, take ?c input), ?d)"
    using assms by (auto simp: decode_loop.simps [of used input] is_body_state_def split: prod.split)
  moreover have "?c \<le> length input" by (simp add: decode_body_def Let_def)
  moreover have "rd_good ?d" using assms by (intro decode_body_good) simp_all
  moreover have "0 < ?c" using assms unat_gt_0 [of "rd_remaining d"]
    by (auto simp: decode_body_def Let_def rd_good_def is_body_state_def)
  ultimately show ?thesis unfolding decodes_def using body_steps [OF assms(2,1,3)]
    by (intro exI [of _ Ev_body] exI [of _ ?c] exI [of _ "take ?c input"] exI [of _ ?d]) (simp add: stops_def)
qed

lemma decodes_error: "rd_state d = Ds_error \<Longrightarrow> decodes p b used input d"
  by (cases input) (auto intro!: decodes_stop simp: decode_loop.simps pr_step_at stops_def rd_good_def)

lemma decodes_chunk_end:
  assumes "rd_state d = Ds_chunk_cr \<or> rd_state d = Ds_chunk_lf"
    and more: "\<And>d'. rd_good d' \<Longrightarrow> decodes p b (used + 1) ys d'"
  shows "decodes p b used (y # ys) d"
proof (cases "y = (if rd_state d = Ds_chunk_cr then cr else lf)")
  case True
  let ?d = "d\<lparr>rd_state := if rd_state d = Ds_chunk_cr then Ds_chunk_lf else Ds_chunk_size\<rparr>"
  have "decode_loop used (y # ys) d = decode_loop (used + 1) ys ?d"
    using assms(1) True by (subst decode_loop.simps) (auto simp: is_body_state_def)
  moreover have "pr_step (pr_at p d (y # ys) b) = Some (pr_at p ?d ys b)"
    using assms(1) True by (auto simp: pr_step_at pr_byte_def is_body_state_def)
  moreover have "rd_good ?d" by (simp add: rd_good_def)
  ultimately show ?thesis using more by (intro decodes_used [where ?d1.0 = ?d]) simp_all
next
  case False
  let ?d = "rd_fail ''Missing CRLF after chunk data'' d"
  have l: "decode_loop used (y # ys) d = decode_loop used (y # ys) ?d"
    using assms(1) False by (subst decode_loop.simps) (auto simp: is_body_state_def)
  have s: "pr_step (pr_at p d (y # ys) b) = Some (pr_at p ?d (y # ys) b)"
    using assms(1) False by (auto simp: pr_step_at pr_byte_def is_body_state_def)
  show ?thesis using l _ s by (rule decodes_unused) (simp add: decodes_error)
qed

lemma decode_loop_decodes: "rd_good d \<Longrightarrow> decodes p b used input d"
proof (induction input arbitrary: used d)
  case Nil
  show ?case
  proof (rule decodes_stop)
    show "decode_loop used [] d =
        Inr ((if rd_state d = Ds_error then Ev_error else if rd_state d = Ds_complete
          then (if rd_handoff d then Ev_protocol_handoff else Ev_message_complete) else Ev_need_more, used, []), d)"
      by (simp add: decode_loop.simps)
  qed (use Nil in \<open>simp_all add: stops_def pr_step_at\<close>)
next
  case (Cons y ys)
  consider "rd_state d = Ds_error" | "rd_state d = Ds_complete" | "is_body_state (rd_state d)"
    | "rd_state d = Ds_chunk_cr \<or> rd_state d = Ds_chunk_lf"
    | "rd_state d \<noteq> Ds_error" "rd_state d \<noteq> Ds_complete" "\<not> is_body_state (rd_state d)"
      "rd_state d \<noteq> Ds_chunk_cr" "rd_state d \<noteq> Ds_chunk_lf" by blast
  then show ?case
  proof cases
    case 1
    then show ?thesis by (rule decodes_error)
  next
    case 2
    then show ?thesis using Cons.prems
      by (intro decodes_stop [where ev = "if rd_handoff d then Ev_protocol_handoff else Ev_message_complete"])
        (simp_all add: decode_loop.simps pr_step_at stops_def)
  next
    case 3
    with Cons.prems show ?thesis by (intro decodes_body) simp_all
  next
    case 4
    then show ?thesis by (rule decodes_chunk_end) (rule Cons.IH)
  next
    case 5
    with Cons show ?thesis by (intro decodes_line) (auto dest: decode_line_char_good)
  qed
qed

lemma pr_loop_halts:
  assumes "rd_good (pr_decoder p)" "offset \<le> length (pr_buffer p)"
  shows "\<exists>offset' q. pr_loop offset p = Some (Inr (offset', q)) \<and> offset' \<le> length (pr_buffer p) \<and> pr_buffer q = pr_buffer p \<and>
    halts pr_step (p\<lparr>pr_buffer := drop offset (pr_buffer p)\<rparr>) (q\<lparr>pr_buffer := drop offset' (pr_buffer p)\<rparr>)"
  using assms
proof (induction "length (pr_buffer p) - offset" arbitrary: p offset rule: less_induct)
  case less
  let ?in = "drop offset (pr_buffer p)"
  have at: "pr_at p d i b = p\<lparr>pr_decoder := d, pr_body := b\<rparr>\<lparr>pr_buffer := i\<rparr>" for d i b by (simp add: pr_at_def)
  obtain ev c x d where c: "decode ?in (pr_decoder p) = Inr ((ev, c, x), d)" "c \<le> length ?in" "rd_good d"
      "\<And>u. halts pr_step (p\<lparr>pr_buffer := ?in\<rparr>) u \<longleftrightarrow> halts pr_step (pr_at p d (drop c ?in) (pr_body p @ x)) u"
      "stops ev \<Longrightarrow> pr_step (pr_at p d (drop c ?in) (pr_body p @ x)) = None" "\<not> stops ev \<Longrightarrow> 0 < c" "ev \<noteq> Ev_body \<Longrightarrow> x = []"
    using decode_loop_decodes [OF less.prems(1), of p "pr_body p" 0 ?in] unfolding decodes_def decode_def at by auto
  have b: "pr_body p @ (if ev = Ev_body then x else []) = pr_body p @ x" using c(7) by simp
  have dr: "drop c ?in = drop (offset + c) (pr_buffer p)" by (simp add: add.commute)
  show ?case
  proof (cases "stops ev")
    case True
    then have x: "x = []" using c(7) by (auto simp: stops_def)
    have "pr_loop offset p = Some (Inr (offset + c, p\<lparr>pr_decoder := d\<rparr>))"
      using True c(1) by (subst pr_loop.simps) (simp add: stops_def)
    moreover have "halts pr_step (p\<lparr>pr_buffer := ?in\<rparr>) (pr_at p d (drop c ?in) (pr_body p @ x))"
      using c(4,5) True by (blast intro: halts_stop)
    then have "halts pr_step (p\<lparr>pr_buffer := ?in\<rparr>) (p\<lparr>pr_decoder := d\<rparr>\<lparr>pr_buffer := drop (offset + c) (pr_buffer p)\<rparr>)"
      unfolding dr x by (simp add: pr_at_def)
    ultimately show ?thesis using c(2) less.prems(2)
      by (intro exI [of _ "offset + c"] exI [of _ "p\<lparr>pr_decoder := d\<rparr>"]) simp
  next
    case False
    let ?q = "p\<lparr>pr_decoder := d, pr_body := pr_body p @ x\<rparr>"
    have l: "pr_loop offset p = pr_loop (offset + c) ?q"
      using False c(1) b by (subst pr_loop.simps) (auto simp: stops_def)
    have "\<exists>offset' q. pr_loop (offset + c) ?q = Some (Inr (offset', q)) \<and> offset' \<le> length (pr_buffer ?q) \<and> pr_buffer q = pr_buffer ?q \<and>
      halts pr_step (?q\<lparr>pr_buffer := drop (offset + c) (pr_buffer ?q)\<rparr>) (q\<lparr>pr_buffer := drop offset' (pr_buffer ?q)\<rparr>)"
      using c(2,3,6) False less.prems(2) by (intro less.hyps) auto
    then show ?thesis using l c(4) unfolding dr by (simp add: pr_at_def)
  qed
qed

lemma pr_parse_halts:
  assumes "pr_good p" "rd_bounded (pr_decoder p)"
  shows "\<exists>u. halts pr_step (pr_feed p data) u \<and> pr_bytes_remaining u \<le> pr_bytes_remaining p + length data \<and>
    pr_parse data p = Some (Inr ((pr_result_kind u, pr_bytes_remaining p + length data - pr_bytes_remaining u), u))"
proof -
  let ?p = "pr_feed p data"
  have "rd_good (pr_decoder ?p)" using assms by (simp add: pr_feed_def pr_good_def)
  from pr_loop_halts [OF this, of 0]
  obtain off q where q: "pr_loop 0 ?p = Some (Inr (off, q))" "off \<le> length (pr_buffer ?p)" "pr_buffer q = pr_buffer ?p"
      "halts pr_step ?p (q\<lparr>pr_buffer := drop off (pr_buffer ?p)\<rparr>)"
    by auto
  let ?u = "q\<lparr>pr_buffer := drop off (pr_buffer ?p)\<rparr>"
  have r: "pr_bytes_remaining ?p = pr_bytes_remaining p + length data" by (simp add: pr_bytes_remaining_def pr_feed_def)
  have "rd_bounded (pr_decoder ?p)" using assms by (simp add: pr_feed_def)
  from halts_bounded [OF q(4) this] r have le: "pr_bytes_remaining ?u \<le> pr_bytes_remaining p + length data" by simp
  have "length (rd_line (pr_decoder p)) + off - length (rd_line (pr_decoder ?u)) = pr_bytes_remaining p + length data - pr_bytes_remaining ?u"
    using q(2) by (simp add: pr_bytes_remaining_def pr_feed_def)
  moreover have "p\<lparr>pr_buffer := pr_buffer p @ data\<rparr> = ?p" by (simp add: pr_feed_def)
  ultimately have "pr_parse data p = Some (Inr ((pr_result_kind ?u, pr_bytes_remaining p + length data - pr_bytes_remaining ?u), ?u))"
    using q(1,3) by (simp add: pr_parse_def Let_def)
  with q(4) le show ?thesis by blast
qed

section \<open>Cutting the stream\<close>

fun pr_parse_pieces ::
  "parse_result \<Rightarrow> nat \<Rightarrow> string list \<Rightarrow> response_parser \<Rightarrow> (header_error + (parse_result \<times> nat) \<times> response_parser) option" where
  "pr_parse_pieces r n [] p = Some (Inr ((r, n), p))"
| "pr_parse_pieces r n (c # cs) p =
     (case pr_parse c p of
        Some (Inr ((r', m), q)) \<Rightarrow> pr_parse_pieces r' (n + m) cs q
      | x \<Rightarrow> x)"

text \<open>A parser made ready for the response to a request with the given method, or to an unknown one.\<close>

definition begin_response :: "http_method option \<Rightarrow> response_parser \<Rightarrow> response_parser" where
  "begin_response m p = (case m of None \<Rightarrow> pr_reset p | Some x \<Rightarrow> pr_set_request_method x (pr_reset p))"

lemma begin_response_ready:
  "pr_good (begin_response m p)" "rd_bounded (pr_decoder (begin_response m p))"
  "same_limits (pr_decoder p) (pr_decoder (begin_response m p))"
  by (cases m; simp add: begin_response_def pr_reset_def pr_good_def rd_good_def rd_reset_def pr_set_request_method_def
      rd_set_request_method_def rd_bounded_def same_limits_def)+

lemma pr_parse_pieces_halts:
  assumes "pr_good p" "rd_bounded (pr_decoder p)" "halts pr_step p q" "pr_bytes_remaining q \<le> pr_bytes_remaining p"
  shows "\<exists>u. halts pr_step (pr_feed p (concat cs)) u \<and> pr_bytes_remaining u \<le> pr_bytes_remaining p + length (concat cs) \<and>
    pr_parse_pieces (pr_result_kind q) (k + (pr_bytes_remaining p - pr_bytes_remaining q)) cs q =
      Some (Inr ((pr_result_kind u, k + (pr_bytes_remaining p + length (concat cs) - pr_bytes_remaining u)), u))"
  using assms
proof (induction cs arbitrary: p q k)
  case Nil
  then show ?case by (auto simp: pr_feed_def)
next
  case (Cons c cs)
  note g = Cons.prems(1) and bd = Cons.prems(2) and h = Cons.prems(3) and l = Cons.prems(4)
  obtain v where v: "halts pr_step (pr_feed q c) v" "pr_bytes_remaining v \<le> pr_bytes_remaining q + length c"
      "pr_parse c q = Some (Inr ((pr_result_kind v, pr_bytes_remaining q + length c - pr_bytes_remaining v), v))"
    using pr_parse_halts [OF pri.good_halts [OF h g], of c] halts_bounded [OF h bd] by blast
  have r: "pr_bytes_remaining (pr_feed p c) = pr_bytes_remaining p + length c" by (simp add: pr_bytes_remaining_def pr_feed_def)
  have hv: "halts pr_step (pr_feed p c) v" using pri.feed_halted [OF h g] v(1) by blast
  have gb: "pr_good (pr_feed p c)" "rd_bounded (pr_decoder (pr_feed p c))" using g bd by (simp_all add: pr_good_def pr_feed_def)
  have lv: "pr_bytes_remaining v \<le> pr_bytes_remaining (pr_feed p c)" using v(2) l r by linarith
  from Cons.IH [OF gb hv lv, of k] r
  obtain u where u: "halts pr_step (pr_feed (pr_feed p c) (concat cs)) u"
      "pr_bytes_remaining u \<le> pr_bytes_remaining p + length c + length (concat cs)"
      "pr_parse_pieces (pr_result_kind v) (k + (pr_bytes_remaining p + length c - pr_bytes_remaining v)) cs v =
        Some (Inr ((pr_result_kind u, k + (pr_bytes_remaining p + length c + length (concat cs) - pr_bytes_remaining u)), u))"
    by auto
  have e: "k + (pr_bytes_remaining p - pr_bytes_remaining q) + (pr_bytes_remaining q + length c - pr_bytes_remaining v) =
      k + (pr_bytes_remaining p + length c - pr_bytes_remaining v)"
    using l v(2) by linarith
  have f: "pr_feed (pr_feed p c) (concat cs) = pr_feed p (concat (c # cs))" by (simp add: pr_feed_def)
  show ?case using v(3) u e unfolding f by (intro exI [of _ u]) (simp add: add.assoc)
qed

lemma pr_pieces_from_start:
  "\<exists>u. halts pr_step (pr_feed (begin_response m p) (concat (c # cs))) u \<and>
    pr_parse_pieces Need_More 0 (c # cs) (begin_response m p) =
      Some (Inr ((pr_result_kind u, pr_bytes_remaining (begin_response m p) + length (concat (c # cs)) - pr_bytes_remaining u), u))"
proof -
  let ?p = "begin_response m p"
  note g = begin_response_ready(1,2) [of m p]
  obtain v where v: "halts pr_step (pr_feed ?p c) v" "pr_bytes_remaining v \<le> pr_bytes_remaining ?p + length c"
      "pr_parse c ?p = Some (Inr ((pr_result_kind v, pr_bytes_remaining ?p + length c - pr_bytes_remaining v), v))"
    using pr_parse_halts [OF g] by blast
  have r: "pr_bytes_remaining (pr_feed ?p c) = pr_bytes_remaining ?p + length c" by (simp add: pr_bytes_remaining_def pr_feed_def)
  have gb: "pr_good (pr_feed ?p c)" "rd_bounded (pr_decoder (pr_feed ?p c))" using g by (simp_all add: pr_good_def pr_feed_def)
  have f: "pr_feed (pr_feed ?p c) (concat cs) = pr_feed ?p (concat (c # cs))" by (simp add: pr_feed_def)
  from pr_parse_pieces_halts [OF gb v(1), of cs 0, unfolded f r] v(2,3) show ?thesis by (auto simp: add.assoc)
qed

text \<open>
  C35: the response parser does not depend on how the network cuts the stream, and it always returns. Ready for the
  response to any request, feeding the pieces of a stream one after the other ends with the same result, number of
  retired bytes, body and state as one call on the whole stream; no call loops forever and none throws.
\<close>

theorem http_response_pieces:
  "\<exists>r n q. pr_parse (concat (c # cs)) (begin_response m p) = Some (Inr ((r, n), q)) \<and>
     pr_parse_pieces Need_More 0 (c # cs) (begin_response m p) = Some (Inr ((r, n), q))"
proof -
  let ?p = "begin_response m p"
  obtain w where w: "halts pr_step (pr_feed ?p (concat (c # cs))) w"
      "pr_parse (concat (c # cs)) ?p =
        Some (Inr ((pr_result_kind w, pr_bytes_remaining ?p + length (concat (c # cs)) - pr_bytes_remaining w), w))"
    using pr_parse_halts [OF begin_response_ready(1,2)] by blast
  obtain u where u: "halts pr_step (pr_feed ?p (concat (c # cs))) u"
      "pr_parse_pieces Need_More 0 (c # cs) ?p =
        Some (Inr ((pr_result_kind u, pr_bytes_remaining ?p + length (concat (c # cs)) - pr_bytes_remaining u), u))"
    using pr_pieces_from_start by blast
  have "u = w" using halts_unique [OF u(1) w(1)] .
  with u(2) w(2) show ?thesis by simp
qed

text \<open>
  C36: what a peer sends cannot make the response parser store more framing data than the limits allow. However long
  a stream is and however it is cut, the unfinished line it keeps is at most one byte longer than the
  header size limit, the header and trailer lines it accepted are at most the header count limit, and while it asks
  for more input it has used up all it was given.
\<close>

theorem http_response_bounded:
  "\<exists>r n q. pr_parse_pieces Need_More 0 (c # cs) (begin_response m p) = Some (Inr ((r, n), q)) \<and>
     length (rd_line (pr_decoder q)) \<le> unat (rd_max_header_size (pr_decoder p)) + 1 \<and>
     rd_header_count (pr_decoder q) \<le> rd_max_headers (pr_decoder p) \<and>
     (r = Complete \<or> r = Parse_Error \<or> pr_buffer q = [])"
proof -
  let ?p = "begin_response m p"
  obtain u where u: "halts pr_step (pr_feed ?p (concat (c # cs))) u"
      "pr_parse_pieces Need_More 0 (c # cs) ?p =
        Some (Inr ((pr_result_kind u, pr_bytes_remaining ?p + length (concat (c # cs)) - pr_bytes_remaining u), u))"
    using pr_pieces_from_start by blast
  have "rd_bounded (pr_decoder (pr_feed ?p (concat (c # cs))))" using begin_response_ready(2) by (simp add: pr_feed_def)
  from halts_bounded [OF u(1) this] begin_response_ready(3) [of p m]
  have b: "rd_bounded (pr_decoder u)" "same_limits (pr_decoder p) (pr_decoder u)" by (simp_all add: same_limits_def pr_feed_def)
  have "pr_step u = None" using u(1) by (induction rule: halts.induct)
  then have "pr_result_kind u = Complete \<or> pr_result_kind u = Parse_Error \<or> pr_buffer u = []"
    by (auto simp: pr_step_def pr_result_kind_def split: list.splits if_splits prod.splits)
  with u(2) b show ?thesis by (auto simp: rd_bounded_def same_limits_def split: if_splits)
qed

end
