(* ===== verification/Http_Response_Framed.thy ===== *)
theory Http_Response_Framed
  imports Http_Response_Props
begin

text \<open>
  What an accepted response is: the bytes the parser took, state by state, are a status line, header lines and the
  body under the one framing that the request method, the status and the header fields select.
\<close>

section \<open>Responses on the wire\<close>

fun response_fields :: "http_method option \<Rightarrow> http_status \<Rightarrow> string list \<Rightarrow> headers \<Rightarrow> headers option" where
  "response_fields m st [] h = Some h"
| "response_fields m st (l # ls) h =
     (case find_char (CHR '':'') l of
        None \<Rightarrow> None
      | Some colon \<Rightarrow>
          let n = take colon l; v = trim_ows (drop (colon + 1) l);
              tunnel = m = Some CONNECT \<and> st \<ge> 200 \<and> st < 300 \<and> ascii_iequals n ''Content-Length''
          in case (if tunnel then headers_set n v h else headers_add n v h) of
               Inl e \<Rightarrow> None
             | Inr h' \<Rightarrow> response_fields m st ls h')"

definition response_head :: "string \<Rightarrow> string list \<Rightarrow> response_decoder \<Rightarrow> bool" where
  "response_head sl hls d \<longleftrightarrow>
     wire_line sl \<and> list_all wire_line hls \<and> [] \<notin> set hls \<and>
     (let r = decode_status_line sl response_decoder_ctor in
      rd_state r = Ds_headers \<and> rd_status r = rd_status d \<and> rd_version r = rd_version d \<and> rd_reason r = rd_reason d) \<and>
     response_fields (rd_request_method d) (rd_status d) hls no_headers = Some (rd_headers d)"

definition response_no_body :: "response_decoder \<Rightarrow> bool" where
  "response_no_body d \<longleftrightarrow> rd_status d = 101 \<or> rd_request_method d = Some CONNECT \<and> rd_status d \<ge> 200 \<and> rd_status d < 300 \<or>
     rd_request_method d = Some HEAD \<or> status_forbids_response_body (rd_status d)"

definition response_framing :: "response_decoder \<Rightarrow> bool \<Rightarrow> bool \<Rightarrow> bool" where
  "response_framing d te cl \<longleftrightarrow> \<not> response_no_body d \<and> headers_contains (rd_headers d) ''Transfer-Encoding'' = te \<and>
     headers_contains (rd_headers d) ''Content-Length'' = cl \<and>
     te = ascii_iequals (trim_ows (headers_get (rd_headers d) ''Transfer-Encoding'')) ''chunked''"

definition response_body :: "response_decoder \<Rightarrow> string \<Rightarrow> string \<Rightarrow> bool" where
  "response_body d w b \<longleftrightarrow>
     response_no_body d \<and> w = [] \<and> b = [] \<or>
     response_framing d True False \<and> chunked_wire w b \<or>
     response_framing d False True \<and> content_length (rd_headers d) = Some (length w) \<and> b = w"

section \<open>The invariant\<close>

definition open_chunk :: "string \<Rightarrow> string \<Rightarrow> string \<Rightarrow> size_t \<Rightarrow> string \<Rightarrow> bool" where
  "open_chunk w b x n y \<longleftrightarrow> (\<exists>v b0 l. w = v @ l @ crlf @ x @ y \<and> b = b0 @ x \<and> chunk_prefix v b0 \<and> wire_line l \<and>
     parse_chunk_size_line l = Inr n \<and> n \<noteq> 0)"

definition trailer_part :: "string \<Rightarrow> string \<Rightarrow> bool" where
  "trailer_part w b \<longleftrightarrow> (\<exists>v l ts. w = v @ l @ crlf @ wire_lines ts \<and> chunk_prefix v b \<and> wire_line l \<and> parse_chunk_size_line l = Inr 0 \<and>
     list_all (\<lambda>t. wire_line t \<and> t \<noteq> [] \<and> validate_chunk_trailer_line t) ts)"

definition rd_phase :: "response_decoder \<Rightarrow> string \<Rightarrow> string \<Rightarrow> bool" where
  "rd_phase d w b =
     (case rd_state d of
        Ds_fixed_body \<Rightarrow> response_framing d False True \<and> b = w \<and>
          content_length (rd_headers d) = Some (length w + unat (rd_remaining d))
      | Ds_close_body \<Rightarrow> True
      | Ds_chunk_size \<Rightarrow> response_framing d True False \<and> chunk_prefix w b
      | Ds_chunk_body \<Rightarrow> response_framing d True False \<and>
          (\<exists>x n. open_chunk w b x n [] \<and> length x + unat (rd_remaining d) = unat n)
      | Ds_chunk_cr \<Rightarrow> response_framing d True False \<and> (\<exists>x n. open_chunk w b x n [] \<and> length x = unat n)
      | Ds_chunk_lf \<Rightarrow> response_framing d True False \<and> (\<exists>x n. open_chunk w b x n [cr] \<and> length x = unat n)
      | Ds_trailers \<Rightarrow> response_framing d True False \<and> trailer_part w b
      | Ds_complete \<Rightarrow> response_body d w b
      | _ \<Rightarrow> False)"

definition rd_line_ok :: "response_decoder \<Rightarrow> bool" where
  "rd_line_ok d \<longleftrightarrow> cr \<notin> set (butlast (rd_line d)) \<and> lf \<notin> set (rd_line d) \<and>
     (rd_state d \<in> {Ds_fixed_body, Ds_close_body, Ds_chunk_body, Ds_chunk_cr, Ds_chunk_lf, Ds_complete} \<longrightarrow> rd_line d = [])"

definition rd_seen :: "string \<Rightarrow> response_decoder \<Rightarrow> string \<Rightarrow> bool" where
  "rd_seen pre d b \<longleftrightarrow> rd_line_ok d \<and>
     (if rd_state d = Ds_status_line then b = [] \<and> pre = rd_line d \<and> rd_headers d = no_headers \<and> rd_reason d = []
      else if rd_state d = Ds_headers then
        b = [] \<and> (\<exists>sl hls. pre = head_wire sl hls @ rd_line d \<and> response_head sl hls d)
      else \<exists>sl hls w. pre = head_wire sl hls @ crlf @ w @ rd_line d \<and> response_head sl hls d \<and> rd_phase d w b)"

section \<open>Lines\<close>

lemma clean_wire_line: "lf \<notin> set l \<Longrightarrow> wire_line l"
  by (simp add: wire_line_def find_crlf_no_lf)

definition set_complete :: "bool \<Rightarrow> response_decoder \<Rightarrow> response_decoder" where
  "set_complete h e = (if h then e\<lparr>rd_line := [], rd_headers_complete := True\<rparr> else e\<lparr>rd_line := []\<rparr>)"

lemma set_complete_simps [simp]:
  "rd_state (set_complete h e) = rd_state e" "rd_line (set_complete h e) = []" "rd_headers (set_complete h e) = rd_headers e"
  "rd_remaining (set_complete h e) = rd_remaining e" "rd_status (set_complete h e) = rd_status e"
  "rd_version (set_complete h e) = rd_version e" "rd_reason (set_complete h e) = rd_reason e"
  "rd_request_method (set_complete h e) = rd_request_method e"
  by (simp_all add: set_complete_def)

lemma decode_line_char_step:
  assumes "decode_line_char c d = Inr (h, d')" "rd_state d' \<noteq> Ds_error" "rd_line_ok d"
    "rd_state d \<in> {Ds_status_line, Ds_headers, Ds_chunk_size, Ds_trailers}"
  obtains (char) "d' = d\<lparr>rd_line := rd_line d @ [c]\<rparr>" "rd_line_ok d'"
  | (line) l e where "c = lf" "rd_line d = l @ [cr]" "wire_line l" "cr \<notin> set l" "lf \<notin> set l"
      "process_line l (d\<lparr>rd_line := l\<rparr>) = Inr e" "d' = set_complete h e" "rd_state e \<noteq> Ds_error"
proof (cases "c = lf")
  case True
  with assms(1,2) have ne: "rd_line d \<noteq> []" "last (rd_line d) = cr"
    by (auto simp: decode_line_char_def Let_def split: if_splits)
  let ?l = "butlast (rd_line d)"
  obtain e where e: "process_line ?l (d\<lparr>rd_line := ?l\<rparr>) = Inr e" using process_line_no_throw by blast
  have d': "d' = set_complete h e" "rd_state e \<noteq> Ds_error"
    using assms(1,2) True ne e by (auto simp: decode_line_char_def Let_def set_complete_def split: if_splits)
  have l: "rd_line d = ?l @ [cr]" using ne by (metis append_butlast_last_id)
  have "lf \<notin> set ?l" "cr \<notin> set ?l" using assms(3) by (auto simp: rd_line_ok_def dest: in_set_butlastD)
  then show thesis using line [OF True l _ _ _ e d'] clean_wire_line by blast
next
  case False
  with assms(1,2) have d': "d' = d\<lparr>rd_line := rd_line d @ [c]\<rparr>" "rd_line d = [] \<or> last (rd_line d) \<noteq> cr"
    by (auto simp: decode_line_char_def Let_def split: if_splits)
  have "cr \<notin> set (rd_line d)"
  proof (cases "rd_line d = []")
    case ne: False
    have "cr \<notin> set (butlast (rd_line d) @ [last (rd_line d)])" using d'(2) ne assms(3) unfolding rd_line_ok_def by (simp del: append_butlast_last_id)
    then show ?thesis unfolding append_butlast_last_id [OF ne] .
  qed simp
  moreover have "rd_state d \<notin> {Ds_fixed_body, Ds_close_body, Ds_chunk_body, Ds_chunk_cr, Ds_chunk_lf, Ds_complete}"
    using assms(4) by (elim insertE emptyE) simp_all
  moreover have "lf \<notin> set (rd_line d)" using assms(3) unfolding rd_line_ok_def by blast
  ultimately have "rd_line_ok d'" using False unfolding rd_line_ok_def d'(1) by simp
  with d'(1) show thesis by (rule char)
qed

lemma rd_seen_char:
  assumes "rd_seen pre d b" "rd_line_ok (d\<lparr>rd_line := rd_line d @ [c]\<rparr>)"
    "rd_state d \<in> {Ds_status_line, Ds_headers, Ds_chunk_size, Ds_trailers}"
  shows "rd_seen (pre @ [c]) (d\<lparr>rd_line := rd_line d @ [c]\<rparr>) b"
proof -
  have h: "response_head sl hls (d\<lparr>rd_line := x\<rparr>) = response_head sl hls d" for sl hls x by (simp add: response_head_def)
  have f: "response_framing (d\<lparr>rd_line := x\<rparr>) te cl = response_framing d te cl" for x te cl
    by (simp add: response_framing_def response_no_body_def)
  have p: "rd_phase (d\<lparr>rd_line := x\<rparr>) w b = rd_phase d w b" for x w
    using assms(3) by (auto simp: rd_phase_def f)
  show ?thesis using assms(1,2) unfolding rd_seen_def by (auto simp: h p)
qed

definition same_response :: "response_decoder \<Rightarrow> response_decoder \<Rightarrow> bool" where
  "same_response d e \<longleftrightarrow> rd_request_method d = rd_request_method e \<and> rd_status d = rd_status e \<and> rd_version d = rd_version e \<and>
     rd_reason d = rd_reason e \<and> rd_headers d = rd_headers e"

lemma same_response_cong:
  assumes "same_response d e"
  shows "response_head sl hls d = response_head sl hls e" "response_framing d te cl = response_framing e te cl"
    "response_no_body d = response_no_body e" "response_body d w b = response_body e w b"
  using assms
  by (simp_all add: same_response_def response_head_def response_framing_def response_no_body_def response_body_def)

lemma rd_seen_line_end:
  assumes "response_head sl hls e" "rd_phase e w b" "rd_state e \<noteq> Ds_status_line" "rd_state e \<noteq> Ds_headers"
  shows "rd_seen (head_wire sl hls @ crlf @ w) (set_complete h e) b"
proof -
  have s: "same_response (set_complete h e) e" by (simp add: same_response_def)
  have p: "rd_phase (set_complete h e) w b = rd_phase e w b" for w
    unfolding rd_phase_def same_response_cong [OF s] set_complete_simps ..
  have "\<exists>sl' hls' w'. head_wire sl hls @ crlf @ w = head_wire sl' hls' @ crlf @ w' @ [] \<and> response_head sl' hls' e \<and> rd_phase e w' b"
    if "rd_phase e w b" for w
    using assms(1) that by (intro exI [of _ sl] exI [of _ hls] exI [of _ w]) simp
  from this [OF assms(2)] assms(3,4) show ?thesis
    unfolding rd_seen_def rd_line_ok_def set_complete_simps same_response_cong [OF s] using p by simp
qed

lemma rd_seen_header_end:
  assumes "response_head sl hls e" "rd_state e = Ds_headers"
  shows "rd_seen (head_wire sl hls) (set_complete h e) []"
proof -
  have s: "same_response (set_complete h e) e" by (simp add: same_response_def)
  show ?thesis unfolding rd_seen_def rd_line_ok_def set_complete_simps same_response_cong [OF s] using assms by auto
qed

lemma decode_status_line_same:
  assumes "rd_reason d = []" "rd_state (decode_status_line l d) \<noteq> Ds_error"
  shows "rd_state (decode_status_line l d) = Ds_headers \<and> rd_headers (decode_status_line l d) = rd_headers d \<and>
    rd_request_method (decode_status_line l d) = rd_request_method d \<and>
    (let r = decode_status_line l response_decoder_ctor; e = decode_status_line l d in
      rd_state r = Ds_headers \<and> rd_status r = rd_status e \<and> rd_version r = rd_version e \<and> rd_reason r = rd_reason e)"
  using assms by (auto simp: decode_status_line_def Let_def response_decoder_ctor_def split: option.splits if_splits)

lemma seen_status_line:
  assumes "rd_seen pre d b" "rd_state d = Ds_status_line" "rd_line d = l @ [cr]" "wire_line l"
    "process_line l (d\<lparr>rd_line := l\<rparr>) = Inr e" "rd_state e \<noteq> Ds_error"
  shows "rd_seen (pre @ [lf]) (set_complete h e) b"
proof -
  let ?d = "d\<lparr>rd_line := l\<rparr>"
  have s: "b = []" "pre = l @ [cr]" "rd_headers d = no_headers" "rd_reason d = []"
    using assms(1-3) by (simp_all add: rd_seen_def)
  have e: "e = decode_status_line l ?d" using assms(2,5) by (simp add: process_line_def)
  have k: "rd_state e = Ds_headers" "response_head l [] e"
    using decode_status_line_same [of ?d l] assms(4,6) s unfolding e by (simp_all add: response_head_def Let_def)
  have "pre @ [lf] = head_wire l []" using s by (simp add: head_wire_def wire_lines_def)
  with rd_seen_header_end [OF k(2,1)] s(1) show ?thesis by simp
qed

lemma response_fields_append:
  "response_fields m st (ls @ ms) h = Option.bind (response_fields m st ls h) (response_fields m st ms)"
  by (induction ls arbitrary: h) (auto simp: Let_def split: option.split sum.split)

lemma decode_header_line_fields:
  assumes "decode_header_line l d = Inr e" "rd_state e \<noteq> Ds_error"
  shows "response_fields (rd_request_method d) (rd_status d) [l] (rd_headers d) = Some (rd_headers e)"
    "rd_request_method e = rd_request_method d \<and> rd_status e = rd_status d \<and> rd_version e = rd_version d \<and> rd_reason e = rd_reason d \<and>
      rd_state e = rd_state d"
  using assms by (auto simp: decode_header_line_def Let_def ebind_Inr_iff split: option.splits if_splits)

lemma content_length_word: "content_length h = Some n \<Longrightarrow> unat (of_nat n :: size_t) = n"
  using content_length_less [of h n] by (simp add: unat_of_nat)

lemma select_framing_seen:
  assumes "rd_state (select_framing d) \<noteq> Ds_error"
  shows "same_response (select_framing d) d" "rd_phase (select_framing d) [] []"
    "rd_state (select_framing d) \<noteq> Ds_status_line" "rd_state (select_framing d) \<noteq> Ds_headers"
proof -
  show s: "same_response (select_framing d) d"
    by (auto simp: select_framing_def Let_def same_response_def rd_fail_def split: option.splits)
  show "rd_state (select_framing d) \<noteq> Ds_status_line" "rd_state (select_framing d) \<noteq> Ds_headers"
    by (auto simp: select_framing_def Let_def rd_fail_def split: option.splits)
  let ?te = "headers_contains (rd_headers d) ''Transfer-Encoding''" and ?cl = "headers_contains (rd_headers d) ''Content-Length''"
  consider "response_no_body d" | "\<not> response_no_body d" "?te" | "\<not> response_no_body d" "\<not> ?te" "?cl" | "\<not> response_no_body d" "\<not> ?te" "\<not> ?cl"
    by blast
  then show "rd_phase (select_framing d) [] []"
  proof cases
    case 1
    then have "rd_state (select_framing d) = Ds_complete" by (auto simp: select_framing_def Let_def response_no_body_def)
    with 1 show ?thesis by (simp add: rd_phase_def same_response_cong [OF s] response_body_def)
  next
    case 2
    with assms have "rd_state (select_framing d) = Ds_chunk_size" "response_framing d True False"
      by (auto simp: select_framing_def Let_def response_no_body_def response_framing_def split: if_splits)
    then show ?thesis by (simp add: rd_phase_def same_response_cong [OF s] chunk_none)
  next
    case 3
    have nt: "trim_ows (headers_get (rd_headers d) ''Transfer-Encoding'') = []"
      using 3 by (simp add: headers_contains_def headers_get_def trim_ows_def)
    have f: "response_framing d False True" using 3 by (simp add: response_framing_def nt ascii_iequals_iff)
    have sel: "select_framing d =
        (case content_length (rd_headers d) of
           None \<Rightarrow> rd_fail ''Invalid Content-Length'' (d\<lparr>rd_handoff := False\<rparr>)
         | Some len \<Rightarrow> d\<lparr>rd_handoff := False, rd_remaining := of_nat len, rd_state := if (of_nat len :: size_t) = 0 then Ds_complete else Ds_fixed_body\<rparr>)"
      using 3 by (auto simp: select_framing_def Let_def response_no_body_def split: option.split)
    obtain len where len: "content_length (rd_headers d) = Some len" using assms sel by (cases "content_length (rd_headers d)") auto
    note u = content_length_word [OF len]
    have h: "rd_headers (select_framing d) = rd_headers d" using s by (simp add: same_response_def)
    show ?thesis
    proof (cases "(of_nat len :: size_t) = 0")
      case True
      then have "len = 0" using u by simp
      moreover have "rd_state (select_framing d) = Ds_complete" using sel len True by simp
      ultimately show ?thesis using f len by (simp add: rd_phase_def same_response_cong [OF s] response_body_def h)
    next
      case False
      then have "rd_state (select_framing d) = Ds_fixed_body" "rd_remaining (select_framing d) = of_nat len" using sel len by simp_all
      then show ?thesis using f len u by (simp add: rd_phase_def same_response_cong [OF s] h)
    qed
  next
    case 4
    then have "rd_state (select_framing d) = Ds_close_body" by (auto simp: select_framing_def Let_def response_no_body_def)
    then show ?thesis by (simp add: rd_phase_def)
  qed
qed

lemma seen_header_line:
  assumes "rd_seen pre d b" "rd_state d = Ds_headers" "rd_line d = l @ [cr]" "wire_line l"
    "process_line l (d\<lparr>rd_line := l\<rparr>) = Inr e" "rd_state e \<noteq> Ds_error"
  shows "rd_seen (pre @ [lf]) (set_complete h e) b"
proof -
  let ?d = "d\<lparr>rd_line := l\<rparr>"
  have sd: "same_response ?d d" by (simp add: same_response_def)
  obtain sl hls where s: "b = []" "pre = head_wire sl hls @ l @ [cr]" "response_head sl hls d"
    using assms(1-3) by (auto simp: rd_seen_def)
  show ?thesis
  proof (cases "l = []")
    case True
    then have e: "e = select_framing ?d" using assms(2,5) by (simp add: process_line_def)
    note f = select_framing_seen [OF assms(6) [unfolded e]]
    have "response_head sl hls e" unfolding e same_response_cong(1) [OF f(1)] same_response_cong(1) [OF sd] by (rule s(3))
    from rd_seen_line_end [OF this f(2-4) [folded e]] s True show ?thesis by simp
  next
    case False
    then have "decode_header_line l ?d = Inr e" using assms(2,5) by (simp add: process_line_def)
    note f = decode_header_line_fields [OF this assms(6)]
    have "response_fields (rd_request_method d) (rd_status d) [l] (rd_headers d) = Some (rd_headers e)" using f(1) by simp
    with f(2) s(3) assms(4) False have "response_head sl (hls @ [l]) e"
      by (simp add: response_head_def response_fields_append Let_def)
    moreover have "rd_state e = Ds_headers" using f(2) assms(2) by simp
    moreover have "pre @ [lf] = head_wire sl (hls @ [l])" using s(2) by (simp add: head_wire_def wire_lines_snoc)
    ultimately show ?thesis using rd_seen_header_end s(1) by simp
  qed
qed

lemma seen_late:
  assumes "rd_seen pre d b" "rd_state d \<noteq> Ds_status_line" "rd_state d \<noteq> Ds_headers"
  obtains sl hls w where "pre = head_wire sl hls @ crlf @ w @ rd_line d" "response_head sl hls d" "rd_phase d w b"
  using assms by (auto simp: rd_seen_def)

lemma seen_chunk_size_line:
  assumes "rd_seen pre d b" "rd_state d = Ds_chunk_size" "rd_line d = l @ [cr]" "wire_line l"
    "process_line l (d\<lparr>rd_line := l\<rparr>) = Inr e" "rd_state e \<noteq> Ds_error"
  shows "rd_seen (pre @ [lf]) (set_complete h e) b"
proof -
  obtain sl hls w where s: "pre = head_wire sl hls @ crlf @ w @ l @ [cr]" "response_head sl hls d" "rd_phase d w b"
    using seen_late [OF assms(1)] assms(2,3) by auto
  have ph: "response_framing d True False" "chunk_prefix w b" using s(3) assms(2) by (simp_all add: rd_phase_def)
  obtain n where n: "parse_chunk_size_line l = Inr n"
      and e: "e = d\<lparr>rd_line := l, rd_remaining := n, rd_state := if n = 0 then Ds_trailers else Ds_chunk_body\<rparr>"
    using assms(2,5,6) by (cases "parse_chunk_size_line l") (auto simp: process_line_def)
  have same: "same_response e d" by (simp add: same_response_def e)
  have "rd_phase e (w @ l @ crlf) b"
  proof (cases "n = 0")
    case True
    have "trailer_part (w @ l @ crlf) b" unfolding trailer_part_def using ph(2) assms(4) n True
      by (intro exI [of _ w] exI [of _ l] exI [of _ "[]"]) (simp add: wire_lines_def)
    with True ph(1) show ?thesis unfolding rd_phase_def same_response_cong [OF same] by (simp add: e)
  next
    case False
    have "open_chunk (w @ l @ crlf) b [] n []" unfolding open_chunk_def using ph(2) assms(4) n False
      by (intro exI [of _ w] exI [of _ b] exI [of _ l]) simp
    then have "\<exists>x m. open_chunk (w @ l @ crlf) b x m [] \<and> length x + unat n = unat m"
      by (intro exI [of _ "[]"] exI [of _ n]) simp
    with False ph(1) show ?thesis unfolding rd_phase_def same_response_cong [OF same] by (simp add: e)
  qed
  moreover have "response_head sl hls e" using s(2) same_response_cong(1) [OF same] by simp
  ultimately have "rd_seen (head_wire sl hls @ crlf @ w @ l @ crlf) (set_complete h e) b"
    by (intro rd_seen_line_end) (simp_all add: e)
  with s(1) show ?thesis by simp
qed

lemma seen_trailer_line:
  assumes "rd_seen pre d b" "rd_state d = Ds_trailers" "rd_line d = l @ [cr]" "wire_line l"
    "process_line l (d\<lparr>rd_line := l\<rparr>) = Inr e" "rd_state e \<noteq> Ds_error"
  shows "rd_seen (pre @ [lf]) (set_complete h e) b"
proof -
  obtain sl hls w where s: "pre = head_wire sl hls @ crlf @ w @ l @ [cr]" "response_head sl hls d" "rd_phase d w b"
    using seen_late [OF assms(1)] assms(2,3) by auto
  have fr: "response_framing d True False" and tp: "trailer_part w b" using s(3) assms(2) by (simp_all add: rd_phase_def)
  from tp obtain v k ts where t: "w = v @ k @ crlf @ wire_lines ts" "chunk_prefix v b" "wire_line k" "parse_chunk_size_line k = Inr 0"
      "list_all (\<lambda>t. wire_line t \<and> t \<noteq> [] \<and> validate_chunk_trailer_line t) ts"
    unfolding trailer_part_def by (elim exE conjE) (rule that)
  have "same_response e d \<and> rd_phase e (w @ l @ crlf) b \<and> rd_state e \<noteq> Ds_status_line \<and> rd_state e \<noteq> Ds_headers"
  proof (cases "l = []")
    case True
    then have e: "e = d\<lparr>rd_line := l, rd_state := Ds_complete\<rparr>" using assms(2,5) by (simp add: process_line_def)
    have same: "same_response e d" by (simp add: same_response_def e)
    have "chunked_wire (w @ l @ crlf) b" unfolding chunked_wire_def using t True
      by (intro exI [of _ v] exI [of _ k] exI [of _ ts]) simp
    with fr have "response_body d (w @ l @ crlf) b" by (simp add: response_body_def)
    then show ?thesis using same unfolding rd_phase_def same_response_cong [OF same] by (simp add: e)
  next
    case False
    then have e: "e = d\<lparr>rd_line := l, rd_header_count := rd_header_count d + 1\<rparr>" "validate_chunk_trailer_line l"
      using assms(2,5,6) by (auto simp: process_line_def split: if_splits)
    have same: "same_response e d" by (simp add: same_response_def e(1))
    have "trailer_part (w @ l @ crlf) b" unfolding trailer_part_def using t False e(2) assms(4)
      by (intro exI [of _ v] exI [of _ k] exI [of _ "ts @ [l]"]) (simp add: wire_lines_snoc)
    then show ?thesis using same fr assms(2) unfolding rd_phase_def same_response_cong [OF same] by (simp add: e)
  qed
  moreover from this have "response_head sl hls e" using s(2) same_response_cong(1) [of e d] by simp
  ultimately have "rd_seen (head_wire sl hls @ crlf @ w @ l @ crlf) (set_complete h e) b"
    by (intro rd_seen_line_end) simp_all
  with s(1) show ?thesis by simp
qed

lemma seen_line_byte:
  assumes "rd_seen pre d b" "decode_line_char c d = Inr (h, d')" "rd_state d' \<noteq> Ds_error"
    "rd_state d \<in> {Ds_status_line, Ds_headers, Ds_chunk_size, Ds_trailers}"
  shows "rd_seen (pre @ [c]) d' b"
proof -
  have "rd_line_ok d" using assms(1) by (simp add: rd_seen_def)
  from assms(2,3) this assms(4) show ?thesis
  proof (cases rule: decode_line_char_step)
    case char
    with rd_seen_char [OF assms(1) _ assms(4)] show ?thesis by simp
  next
    case (line l e)
    from assms(4) show ?thesis unfolding line(1,7)
      using seen_status_line [OF assms(1) _ line(2,3,6,8)] seen_header_line [OF assms(1) _ line(2,3,6,8)]
        seen_chunk_size_line [OF assms(1) _ line(2,3,6,8)] seen_trailer_line [OF assms(1) _ line(2,3,6,8)]
      by (elim insertE emptyE) simp_all
  qed
qed

section \<open>Bytes of a body\<close>

lemma rd_seen_raw:
  assumes "response_head sl hls e" "rd_phase e w b" "rd_state e \<noteq> Ds_status_line" "rd_state e \<noteq> Ds_headers" "rd_line e = []"
  shows "rd_seen (head_wire sl hls @ crlf @ w) e b"
proof -
  have "set_complete False e = e" using assms(5) by (simp add: set_complete_def)
  with rd_seen_line_end [OF assms(1-4), of False] show ?thesis by simp
qed

lemma decode_body_one:
  assumes "rd_state d \<noteq> Ds_close_body" "rd_remaining d \<noteq> 0"
  shows "snd (decode_body 1 d) =
    (if rd_remaining d = 1 then d\<lparr>rd_remaining := 0, rd_state := if rd_state d = Ds_fixed_body then Ds_complete else Ds_chunk_cr\<rparr>
     else d\<lparr>rd_remaining := rd_remaining d - 1\<rparr>)"
proof -
  have "1 \<le> unat (rd_remaining d)" using assms(2) unat_gt_0 [of "rd_remaining d"] by linarith
  then have m: "min (unat (rd_remaining d)) 1 = 1" by (rule min_absorb2)
  show ?thesis unfolding decode_body_def Let_def m using assms(1) by simp
qed

lemma phase_fixed_byte:
  assumes "rd_phase d w b" "rd_state d = Ds_fixed_body" "rd_remaining d \<noteq> 0"
  shows "rd_phase (snd (decode_body 1 d)) (w @ [c]) (b @ [c])"
proof -
  let ?e = "snd (decode_body 1 d)"
  have u: "unat (rd_remaining d - 1) = unat (rd_remaining d) - 1" "0 < unat (rd_remaining d)"
    using assms(3) by (simp_all add: unat_minus_one unat_gt_0)
  have ph: "response_framing d False True" "b = w" "content_length (rd_headers d) = Some (length w + unat (rd_remaining d))"
    using assms(1,2) by (simp_all add: rd_phase_def)
  have e: "?e = (if rd_remaining d = 1 then d\<lparr>rd_remaining := 0, rd_state := Ds_complete\<rparr> else d\<lparr>rd_remaining := rd_remaining d - 1\<rparr>)"
    using decode_body_one [of d] assms(2,3) by simp
  have same: "same_response ?e d" unfolding e by (simp add: same_response_def)
  show ?thesis
  proof (cases "rd_remaining d = 1")
    case True
    with ph have "response_body d (w @ [c]) (b @ [c])" by (simp add: response_body_def)
    with True show ?thesis unfolding rd_phase_def same_response_cong [OF same] unfolding e by simp
  next
    case False
    with ph u assms(2) show ?thesis unfolding rd_phase_def same_response_cong [OF same] unfolding e by simp
  qed
qed

lemma open_chunk_byte: "open_chunk w b x n [] \<Longrightarrow> open_chunk (w @ [c]) (b @ [c]) (x @ [c]) n []"
  unfolding open_chunk_def by fastforce

lemma phase_chunk_byte:
  assumes "rd_phase d w b" "rd_state d = Ds_chunk_body" "rd_remaining d \<noteq> 0"
  shows "rd_phase (snd (decode_body 1 d)) (w @ [c]) (b @ [c])"
proof -
  let ?e = "snd (decode_body 1 d)"
  have u: "unat (rd_remaining d - 1) = unat (rd_remaining d) - 1" "0 < unat (rd_remaining d)"
    using assms(3) by (simp_all add: unat_minus_one unat_gt_0)
  obtain x n where ph: "response_framing d True False" "open_chunk w b x n []" "length x + unat (rd_remaining d) = unat n"
    using assms(1,2) by (auto simp: rd_phase_def)
  note oc = open_chunk_byte [OF ph(2), of c]
  have e: "?e = (if rd_remaining d = 1 then d\<lparr>rd_remaining := 0, rd_state := Ds_chunk_cr\<rparr> else d\<lparr>rd_remaining := rd_remaining d - 1\<rparr>)"
    using decode_body_one [of d] assms(2,3) by simp
  have same: "same_response ?e d" unfolding e by (simp add: same_response_def)
  show ?thesis
  proof (cases "rd_remaining d = 1")
    case True
    then have "length (x @ [c]) = unat n" using ph(3) by simp
    with oc have "\<exists>x n. open_chunk (w @ [c]) (b @ [c]) x n [] \<and> length x = unat n" by blast
    with True ph(1) show ?thesis unfolding rd_phase_def same_response_cong [OF same] unfolding e by simp
  next
    case False
    have "length (x @ [c]) + unat (rd_remaining d - 1) = unat n" using ph(3) u by simp
    with oc have "\<exists>x n. open_chunk (w @ [c]) (b @ [c]) x n [] \<and> length x + unat (rd_remaining d - 1) = unat n" by blast
    with False ph(1) assms(2) show ?thesis unfolding rd_phase_def same_response_cong [OF same] unfolding e by simp
  qed
qed

lemma phase_chunk_end:
  assumes "rd_phase d w b"
  shows "rd_state d = Ds_chunk_cr \<Longrightarrow> rd_phase (d\<lparr>rd_state := Ds_chunk_lf\<rparr>) (w @ [cr]) b"
    "rd_state d = Ds_chunk_lf \<Longrightarrow> rd_phase (d\<lparr>rd_state := Ds_chunk_size\<rparr>) (w @ [lf]) b"
proof -
  have same: "same_response (d\<lparr>rd_state := x\<rparr>) d" for x by (simp add: same_response_def)
  show "rd_phase (d\<lparr>rd_state := Ds_chunk_lf\<rparr>) (w @ [cr]) b" if st: "rd_state d = Ds_chunk_cr"
  proof -
    obtain x n where ph: "response_framing d True False" "open_chunk w b x n []" "length x = unat n"
      using assms st by (auto simp: rd_phase_def)
    have "open_chunk (w @ [cr]) b x n [cr]" using ph(2) unfolding open_chunk_def by fastforce
    with ph show ?thesis unfolding rd_phase_def same_response_cong [OF same] by auto
  qed
  show "rd_phase (d\<lparr>rd_state := Ds_chunk_size\<rparr>) (w @ [lf]) b" if st: "rd_state d = Ds_chunk_lf"
  proof -
    obtain x n where ph: "response_framing d True False" "open_chunk w b x n [cr]" "length x = unat n"
      using assms st by (auto simp: rd_phase_def)
    obtain v b0 l where v: "w = v @ l @ crlf @ x @ [cr]" "b = b0 @ x" "chunk_prefix v b0" "wire_line l"
        "parse_chunk_size_line l = Inr n" "n \<noteq> 0"
      using ph(2) unfolding open_chunk_def by blast
    have "chunk_prefix (v @ l @ crlf @ x @ crlf) (b0 @ x)" using v(3-6) ph(3) by (rule chunk_more)
    with v(1,2) ph(1) show ?thesis unfolding rd_phase_def same_response_cong [OF same] by simp
  qed
qed

lemma seen_body_byte:
  assumes "rd_seen pre d b" "rd_good d" "is_body_state (rd_state d)"
  shows "rd_seen (pre @ [c]) (snd (decode_body 1 d)) (b @ [c])"
proof -
  let ?e = "snd (decode_body 1 d)"
  have st: "rd_state d \<noteq> Ds_status_line" "rd_state d \<noteq> Ds_headers" "rd_line d = []"
    using assms(1,3) by (auto simp: is_body_state_def rd_seen_def rd_line_ok_def)
  obtain sl hls w where s: "pre = head_wire sl hls @ crlf @ w" "response_head sl hls d" "rd_phase d w b"
    using seen_late [OF assms(1) st(1,2)] st(3) by auto
  have p: "rd_phase ?e (w @ [c]) (b @ [c])"
  proof (cases "rd_state d = Ds_close_body")
    case True
    then show ?thesis by (simp add: rd_phase_def decode_body_def)
  next
    case False
    with assms(2,3) have "rd_state d = Ds_fixed_body \<or> rd_state d = Ds_chunk_body" "rd_remaining d \<noteq> 0"
      by (auto simp: is_body_state_def rd_good_def)
    then show ?thesis using phase_fixed_byte [OF s(3)] phase_chunk_byte [OF s(3)] by blast
  qed
  have same: "same_response ?e d" "rd_line ?e = []" using st(3) by (auto simp: same_response_def decode_body_def Let_def)
  have se: "rd_state ?e \<noteq> Ds_status_line" "rd_state ?e \<noteq> Ds_headers" using st by (auto simp: decode_body_def Let_def)
  have "response_head sl hls ?e" using s(2) same_response_cong(1) [OF same(1)] by simp
  from rd_seen_raw [OF this p se same(2)] s(1) show ?thesis by simp
qed

lemma seen_chunk_end_byte:
  assumes "rd_seen pre d b" "rd_state d = Ds_chunk_cr \<or> rd_state d = Ds_chunk_lf" "c = (if rd_state d = Ds_chunk_cr then cr else lf)"
  shows "rd_seen (pre @ [c]) (d\<lparr>rd_state := if rd_state d = Ds_chunk_cr then Ds_chunk_lf else Ds_chunk_size\<rparr>) b"
proof -
  let ?e = "d\<lparr>rd_state := if rd_state d = Ds_chunk_cr then Ds_chunk_lf else Ds_chunk_size\<rparr>"
  have st: "rd_state d \<noteq> Ds_status_line" "rd_state d \<noteq> Ds_headers" "rd_line d = []"
    using assms(1,2) by (auto simp: rd_seen_def rd_line_ok_def)
  obtain sl hls w where s: "pre = head_wire sl hls @ crlf @ w" "response_head sl hls d" "rd_phase d w b"
    using seen_late [OF assms(1) st(1,2)] st(3) by auto
  have p: "rd_phase ?e (w @ [c]) b" using assms(2,3) phase_chunk_end [OF s(3)] by auto
  have same: "same_response ?e d" by (simp add: same_response_def)
  have "response_head sl hls ?e" using s(2) same_response_cong(1) [OF same] by simp
  from rd_seen_raw [OF this p] st(3) s(1) show ?thesis by simp
qed

section \<open>What is accepted\<close>

lemma process_line_method: "process_line l d = Inr e \<Longrightarrow> rd_request_method e = rd_request_method d"
proof -
  assume e: "process_line l d = Inr e"
  have "decode_header_line l d = Inr e \<Longrightarrow> rd_request_method e = rd_request_method d"
    by (cases rule: decode_header_line_cases [of l d]) (auto simp: rd_fail_def rd_fail_limit_def)
  moreover have "rd_request_method (decode_status_line l d) = rd_request_method d"
    by (auto simp: decode_status_line_def Let_def rd_fail_def split: option.splits)
  moreover have "rd_request_method (select_framing d) = rd_request_method d"
    by (auto simp: select_framing_def Let_def rd_fail_def split: option.splits)
  ultimately show ?thesis using e
    by (cases "parse_chunk_size_line l") (auto simp: process_line_def rd_fail_def rd_fail_limit_def split: if_splits)
qed

lemma pr_byte_seen:
  assumes "rd_seen pre d b" "rd_good d" "pr_byte c d = (used, x, d')" "rd_state d \<noteq> Ds_error" "rd_state d \<noteq> Ds_complete"
    "rd_state d' \<noteq> Ds_error"
  shows "used \<and> rd_seen (pre @ [c]) d' (b @ x)"
proof -
  consider "is_body_state (rd_state d)" | "\<not> is_body_state (rd_state d)" "rd_state d = Ds_chunk_cr \<or> rd_state d = Ds_chunk_lf"
    | "\<not> is_body_state (rd_state d)" "\<not> (rd_state d = Ds_chunk_cr \<or> rd_state d = Ds_chunk_lf)" by blast
  then show ?thesis
  proof cases
    case 1
    then have "used" "x = [c]" "d' = snd (decode_body 1 d)" using assms(3) by (simp_all add: pr_byte_def)
    with seen_body_byte [OF assms(1,2) 1] show ?thesis by simp
  next
    case 2
    have c: "c = (if rd_state d = Ds_chunk_cr then cr else lf)"
    proof (rule ccontr)
      assume "c \<noteq> (if rd_state d = Ds_chunk_cr then cr else lf)"
      then have "d' = rd_fail ''Missing CRLF after chunk data'' d" using 2 assms(3) by (simp add: pr_byte_def)
      with assms(6) show False by simp
    qed
    with 2 assms(3) have "used" "x = []"
      "d' = d\<lparr>rd_state := if rd_state d = Ds_chunk_cr then Ds_chunk_lf else Ds_chunk_size\<rparr>" by (auto simp: pr_byte_def)
    with seen_chunk_end_byte [OF assms(1) 2(2) c] show ?thesis by simp
  next
    case 3
    obtain h e where e: "decode_line_char c d = Inr (h, e)" using decode_line_char_no_throw by blast
    with 3 assms(3) have "used" "x = []" "d' = e" by (simp_all add: pr_byte_def)
    moreover have "rd_state d \<in> {Ds_status_line, Ds_headers, Ds_chunk_size, Ds_trailers}"
      using 3 assms(4,5) by (cases "rd_state d") (simp_all add: is_body_state_def)
    ultimately show ?thesis using seen_line_byte [OF assms(1) e] assms(6) by simp
  qed
qed

lemma pr_byte_method:
  assumes "pr_byte c d = (used, x, d')"
  shows "rd_request_method d' = rd_request_method d"
proof -
  obtain e where e: "process_line (butlast (rd_line d)) (d\<lparr>rd_line := butlast (rd_line d)\<rparr>) = Inr e"
    using process_line_no_throw by blast
  obtain h d1 where l: "decode_line_char c d = Inr (h, d1)" using decode_line_char_no_throw by blast
  have "rd_request_method d1 = rd_request_method d"
    using l e process_line_method [OF e] by (auto simp: decode_line_char_def Let_def rd_fail_def rd_fail_limit_def split: if_splits)
  moreover have "rd_request_method (snd (decode_body 1 d)) = rd_request_method d" by (simp add: decode_body_def Let_def)
  ultimately show ?thesis using assms l by (auto simp: pr_byte_def rd_fail_def split: if_splits)
qed

lemma halts_seen_response:
  "halts pr_step p u \<Longrightarrow> pr_good p \<Longrightarrow> rd_seen pre (pr_decoder p) (pr_body p) \<Longrightarrow> rd_state (pr_decoder u) \<noteq> Ds_error \<Longrightarrow>
    \<exists>t. pr_buffer p = t @ pr_buffer u \<and> rd_seen (pre @ t) (pr_decoder u) (pr_body u) \<and>
      rd_request_method (pr_decoder u) = rd_request_method (pr_decoder p)"
proof (induction arbitrary: pre rule: halts.induct)
  case (halts_stop s)
  then show ?case by auto
next
  case (halts_go s t u)
  obtain c cs used x d where s: "pr_buffer s = c # cs" "pr_byte c (pr_decoder s) = (used, x, d)"
      "rd_state (pr_decoder s) \<noteq> Ds_error" "rd_state (pr_decoder s) \<noteq> Ds_complete"
      "t = s\<lparr>pr_decoder := d, pr_body := pr_body s @ x, pr_buffer := if used then cs else c # cs\<rparr>"
    using halts_go.hyps(1) by (auto simp: pr_step_def split: list.splits if_splits prod.splits)
  have ne: "rd_state d \<noteq> Ds_error"
  proof
    assume "rd_state d = Ds_error"
    then have "pr_step t = None" by (simp add: pr_step_def s(5) split: list.split)
    with halts_go.hyps(2) have "u = t" by (simp add: halts_stopped)
    with \<open>rd_state d = Ds_error\<close> halts_go.prems(3) s(5) show False by simp
  qed
  from pr_byte_seen [OF halts_go.prems(2) halts_go.prems(1) [unfolded pr_good_def] s(2-4) ne]
  have b: "used" "rd_seen (pre @ [c]) (pr_decoder t) (pr_body t)" by (simp_all add: s(5))
  from halts_go.IH [OF pr_step_good [OF halts_go.prems(1) halts_go.hyps(1)] b(2) halts_go.prems(3)]
  obtain r where "pr_buffer t = r @ pr_buffer u" "rd_seen ((pre @ [c]) @ r) (pr_decoder u) (pr_body u)"
      "rd_request_method (pr_decoder u) = rd_request_method (pr_decoder t)" by blast
  with b(1) s(1,5) pr_byte_method [OF s(2)] show ?case by (intro exI [of _ "c # r"]) simp
qed

lemma begin_response_simps:
  "pr_body (begin_response m p) = []" "pr_buffer (begin_response m p) = rd_line (pr_decoder p) @ pr_buffer p"
  "rd_line (pr_decoder (begin_response m p)) = []" "rd_request_method (pr_decoder (begin_response m p)) = m"
  "rd_seen [] (pr_decoder (begin_response m p)) []"
  by (cases m; simp add: begin_response_def pr_reset_def rd_reset_def pr_set_request_method_def rd_set_request_method_def
      rd_seen_def rd_line_ok_def headers_clear_def)+

text \<open>
  C34: a response that is accepted is framed in exactly one way. When the parser, made ready for the response to a request
  with a given method, reports a complete response, the bytes it retired are a status line, header
  lines, an empty line and a body; status, version, reason and header collection are those of the lines. There
  is no body for HEAD, an upgrade, a tunnel and a status without content; otherwise exactly one of
  Transfer-Encoding and Content-Length is present, with the first the body is the concatenation of well-formed chunks, with
  the second exactly that many bytes. A body that ends with the connection is never reported complete by
  parsing. The bytes behind are left for the next response or the new protocol.
\<close>

theorem http_response_framed:
  assumes "pr_parse data (begin_response m p) = Some (Inr ((Complete, n), q))"
  shows "\<exists>sl hls w. rd_line (pr_decoder p) @ pr_buffer p @ data = head_wire sl hls @ crlf @ w @ pr_buffer q \<and>
    n = length (head_wire sl hls @ crlf @ w) \<and> response_head sl hls (pr_decoder q) \<and>
    response_body (pr_decoder q) w (pr_body q) \<and> rd_request_method (pr_decoder q) = m"
proof -
  let ?p = "begin_response m p"
  obtain u where u: "halts pr_step (pr_feed ?p data) u"
      "pr_parse data ?p = Some (Inr ((pr_result_kind u, pr_bytes_remaining ?p + length data - pr_bytes_remaining u), u))"
    using pr_parse_halts [OF begin_response_ready(1,2)] by blast
  with assms have q: "u = q" "rd_state (pr_decoder q) = Ds_complete" "n = pr_bytes_remaining ?p + length data - pr_bytes_remaining q"
    by (auto simp: pr_result_kind_def split: if_splits)
  have g: "pr_good (pr_feed ?p data)" using begin_response_ready(1) by (simp add: pr_good_def pr_feed_def)
  have "rd_seen [] (pr_decoder (pr_feed ?p data)) (pr_body (pr_feed ?p data))" by (simp add: pr_feed_def begin_response_simps)
  from halts_seen_response [OF u(1) g this] q
  obtain t where t: "rd_line (pr_decoder p) @ pr_buffer p @ data = t @ pr_buffer q" "rd_seen t (pr_decoder q) (pr_body q)"
      "rd_request_method (pr_decoder q) = m"
    by (auto simp: pr_feed_def begin_response_simps)
  obtain sl hls w where s: "t = head_wire sl hls @ crlf @ w @ rd_line (pr_decoder q)" "response_head sl hls (pr_decoder q)"
      "rd_phase (pr_decoder q) w (pr_body q)"
    using seen_late [OF t(2)] q(2) by auto
  have l: "rd_line (pr_decoder q) = []" using t(2) q(2) by (simp add: rd_seen_def rd_line_ok_def)
  have "response_body (pr_decoder q) w (pr_body q)" using s(3) q(2) by (simp add: rd_phase_def)
  moreover have "length (rd_line (pr_decoder p) @ pr_buffer p @ data) = length t + length (pr_buffer q)" unfolding t(1) by simp
  then have "n = length t" using q(3) l by (simp add: pr_bytes_remaining_def begin_response_simps)
  ultimately show ?thesis using t s l by (intro exI [of _ sl] exI [of _ hls] exI [of _ w]) simp
qed

declare pr_loop.simps [code]

lemma from_chars_code [code]:
  "from_chars w s =
     (let ds = takeWhile is_digit s in
      if ds = [] \<or> (2 :: int) ^ w \<le> int (dec_val ds) then None else Some (dec_val ds, dropWhile is_digit s))"
proof -
  have "(2 :: int) ^ w \<le> int (dec_val ds) \<longleftrightarrow> 2 ^ w \<le> dec_val ds" for ds
    by (metis of_nat_le_iff of_nat_numeral of_nat_power)
  then show ?thesis by (simp add: from_chars_def)
qed

definition sample_response_parser :: response_parser where
  "sample_response_parser = pr_set_max_header_size 30 response_parser_ctor"

definition sample_response :: string where
  "sample_response =
     ''HTTP/1.1 200 OK'' @ crlf @ ''Transfer-Encoding: chunked'' @ crlf @ crlf @
     ''3'' @ crlf @ ''abc'' @ crlf @ ''0'' @ crlf @ crlf @ ''HTTP''"

definition response_parsed :: "(header_error + (parse_result \<times> nat) \<times> response_parser) option \<Rightarrow> string \<Rightarrow> string \<Rightarrow> bool" where
  "response_parsed r body rest =
     (case r of Some (Inr ((k, n), q)) \<Rightarrow> k = Complete \<and> pr_body q = body \<and> pr_buffer q = rest | _ \<Rightarrow> False)"

lemma response_parsedD:
  "response_parsed r body rest \<Longrightarrow> \<exists>n q. r = Some (Inr ((Complete, n), q)) \<and> pr_body q = body \<and> pr_buffer q = rest"
  by (auto simp: response_parsed_def split: option.splits sum.splits)

lemma sample_response_parsed:
  "response_parsed (pr_parse sample_response (begin_response (Some GET) sample_response_parser)) ''abc'' ''HTTP''"
  by code_simp

theorem http_response_framed_witness:
  "\<exists>n q sl hls w. pr_parse sample_response (begin_response (Some GET) sample_response_parser) = Some (Inr ((Complete, n), q)) \<and>
     sample_response = head_wire sl hls @ crlf @ w @ ''HTTP'' \<and> response_body (pr_decoder q) w ''abc''"
proof -
  obtain n q where q: "pr_parse sample_response (begin_response (Some GET) sample_response_parser) = Some (Inr ((Complete, n), q))"
      "pr_body q = ''abc''" "pr_buffer q = ''HTTP''"
    using response_parsedD [OF sample_response_parsed] by blast
  from http_response_framed [OF q(1)] q show ?thesis
    by (auto simp: sample_response_parser_def pr_set_max_header_size_def rd_set_max_header_size_def response_parser_ctor_def
        response_decoder_ctor_def)
qed

end
