(* ===== verification/Block_Hash.thy ===== *)
theory Block_Hash
  imports Bytes
begin

text \<open>
  The context of src/include/elio/hash/sha1.hpp apart from its block processor: buffering of partial blocks, processing of
  full blocks from the input, padding. The functions take the block processor and work on any type of hash
  state. The buffer is the list of its valid bytes, so buffer\_len\_ is its length. The specification pads the whole
  message and folds the block processor over its blocks, as FIPS 180-4 has it.
\<close>

section \<open>Contexts\<close>

record 's hash_context =
  hc_state :: 's
  hc_count :: u64
  hc_buffer :: bytes

definition block_size :: nat where
  "block_size = 64"

text \<open>Complete the buffered block first; the input that is left.\<close>

definition fill_buffer :: "('s \<Rightarrow> bytes \<Rightarrow> 's) \<Rightarrow> bytes \<Rightarrow> 's hash_context \<Rightarrow> bytes \<times> 's hash_context" where
  "fill_buffer process_block input c =
     (if length (hc_buffer c) > 0 then
        let to_copy = min (block_size - length (hc_buffer c)) (length input);
            c = c\<lparr>hc_buffer := hc_buffer c @ take to_copy input\<rparr>;
            input = drop to_copy input
        in if length (hc_buffer c) = block_size
           then (input, c\<lparr>hc_state := process_block (hc_state c) (hc_buffer c), hc_buffer := []\<rparr>)
           else (input, c)
      else (input, c))"

function process_blocks :: "('s \<Rightarrow> bytes \<Rightarrow> 's) \<Rightarrow> bytes \<Rightarrow> 's hash_context \<Rightarrow> bytes \<times> 's hash_context" where
  "process_blocks process_block input c =
     (if length input \<ge> block_size
      then process_blocks process_block (drop block_size input)
             (c\<lparr>hc_state := process_block (hc_state c) (take block_size input)\<rparr>)
      else (input, c))"
  by pat_completeness auto
termination
  by (relation "measure (\<lambda>(f, input, c). length input)") (auto simp: block_size_def)

declare process_blocks.simps [simp del]

definition context_update :: "('s \<Rightarrow> bytes \<Rightarrow> 's) \<Rightarrow> bytes \<Rightarrow> 's hash_context \<Rightarrow> 's hash_context" where
  "context_update process_block data c =
     (let c = c\<lparr>hc_count := hc_count c + of_nat (length data)\<rparr>;
          (input, c) = fill_buffer process_block data c;
          (input, c) = process_blocks process_block input c
      in if length input > 0 then c\<lparr>hc_buffer := input\<rparr> else c)"

definition context_padding :: "'s hash_context \<Rightarrow> bytes" where
  "context_padding c =
     (let total_bits = hc_count c * 8;
          buffer_len = length (hc_buffer c);
          pad_len = (if buffer_len < 56 then 56 - buffer_len else 120 - buffer_len)
      in 0x80 # replicate (pad_len - 1) 0 @ map (\<lambda>i. ucast (drop_bit (56 - i * 8) total_bits)) [0..<8])"

definition context_finalize :: "('s \<Rightarrow> bytes \<Rightarrow> 's) \<Rightarrow> 's hash_context \<Rightarrow> 's hash_context" where
  "context_finalize process_block c =
     (let (input, c') = fill_buffer process_block (context_padding c) c;
          (input, c') = process_blocks process_block input c'
      in c')"

definition load_be32 :: "bytes \<Rightarrow> u32" where
  "load_be32 p = push_bit 24 (ucast (p ! 0)) OR push_bit 16 (ucast (p ! 1)) OR push_bit 8 (ucast (p ! 2)) OR ucast (p ! 3)"

definition store_be32 :: "u32 \<Rightarrow> bytes" where
  "store_be32 w = [ucast (drop_bit 24 w), ucast (drop_bit 16 w), ucast (drop_bit 8 w), ucast w]"

definition hex_chars :: string where
  "hex_chars = ''0123456789abcdef''"

definition digest_hex :: "bytes \<Rightarrow> string" where
  "digest_hex digest = concat (map (\<lambda>byte. [hex_chars ! unat (drop_bit 4 byte AND 0x0F), hex_chars ! unat (byte AND 0x0F)]) digest)"

section \<open>Specification\<close>

function blocks_of :: "'a list \<Rightarrow> 'a list list" where
  "blocks_of xs = (if length xs < 64 then [] else take 64 xs # blocks_of (drop 64 xs))"
  by pat_completeness auto
termination
  by (relation "measure length") auto

declare blocks_of.simps [simp del]

definition sha_padded :: "bytes \<Rightarrow> bytes" where
  "sha_padded m = m @ 0x80 # replicate ((119 - length m mod 64) mod 64) 0 @ be_bytes (of_nat (8 * length m) :: u64)"

definition sha_spec :: "('s \<Rightarrow> bytes \<Rightarrow> 's) \<Rightarrow> 's \<Rightarrow> bytes \<Rightarrow> 's" where
  "sha_spec compress init m = foldl compress init (blocks_of (sha_padded m))"

section \<open>Buffering is invisible\<close>

lemma blocks_of_short [simp]: "length xs < 64 \<Longrightarrow> blocks_of xs = []"
  by (simp add: blocks_of.simps)

lemma blocks_of_one: "length xs = 64 \<Longrightarrow> blocks_of (xs @ ys) = xs # blocks_of ys"
  by (subst blocks_of.simps) simp

lemma blocks_of_append: "64 dvd length xs \<Longrightarrow> blocks_of (xs @ ys) = blocks_of xs @ blocks_of ys"
proof (induction xs rule: blocks_of.induct)
  case (1 xs)
  show ?case
  proof (cases "length xs < 64")
    case True
    with 1(2) have "xs = []" by (metis dvd_imp_le length_0_conv linorder_not_less neq0_conv)
    then show ?thesis by simp
  next
    case False
    have "64 dvd length (drop 64 xs)" using 1(2) by (simp add: dvd_diff_nat)
    with False 1(1) have "blocks_of (drop 64 xs @ ys) = blocks_of (drop 64 xs) @ blocks_of ys" by blast
    moreover have "blocks_of (xs @ ys) = take 64 xs # blocks_of (drop 64 xs @ ys)"
      using False by (subst blocks_of.simps) simp
    moreover have "blocks_of xs = take 64 xs # blocks_of (drop 64 xs)" using False by (subst blocks_of.simps) simp
    ultimately show ?thesis by simp
  qed
qed

text \<open>What a context stands for: the message so far.\<close>

definition context_of :: "('s \<Rightarrow> bytes \<Rightarrow> 's) \<Rightarrow> 's \<Rightarrow> bytes \<Rightarrow> 's hash_context \<Rightarrow> bool" where
  "context_of f init m c \<longleftrightarrow> length (hc_buffer c) < 64 \<and>
     (\<exists>full. 64 dvd length full \<and> m = full @ hc_buffer c \<and> hc_state c = foldl f init (blocks_of full))"

lemma process_blocks_of:
  "64 dvd length full \<Longrightarrow> hc_state c = foldl f init (blocks_of full) \<Longrightarrow> process_blocks f input c = (rest, c') \<Longrightarrow>
    length rest < 64 \<and> hc_buffer c' = hc_buffer c \<and> hc_count c' = hc_count c \<and>
    (\<exists>full'. 64 dvd length full' \<and> full @ input = full' @ rest \<and> hc_state c' = foldl f init (blocks_of full'))"
proof (induction f input c arbitrary: full rule: process_blocks.induct)
  case (1 f input c)
  show ?case
  proof (cases "length input \<ge> 64")
    case False
    with 1(4) have "rest = input" "c' = c" by (auto simp: process_blocks.simps [of f input] block_size_def)
    with False 1(2,3) show ?thesis by auto
  next
    case True
    let ?c = "c\<lparr>hc_state := f (hc_state c) (take 64 input)\<rparr>"
    have dv: "64 dvd length (full @ take 64 input)" using 1(2) True by simp
    have "blocks_of (take 64 input) = [take 64 input]" using True blocks_of_one [of "take 64 input" "[]"] by simp
    then have st: "hc_state ?c = foldl f init (blocks_of (full @ take 64 input))"
      using 1(2,3) by (simp add: blocks_of_append)
    have "process_blocks f (drop 64 input) ?c = (rest, c')"
      using 1(4) True by (simp add: process_blocks.simps [of f input] block_size_def)
    from 1(1) [unfolded block_size_def, OF True dv st this] show ?thesis by auto
  qed
qed

lemma fill_buffer_of:
  assumes "context_of f init m c" "fill_buffer f input c = (rest, c')"
  shows "context_of f init (take (length (m @ input) - length rest) (m @ input)) c' \<and> (rest = [] \<or> hc_buffer c' = []) \<and>
    hc_count c' = hc_count c \<and> length rest \<le> length input \<and> (\<exists>used. input = used @ rest)"
proof -
  obtain full where full: "64 dvd length full" "m = full @ hc_buffer c" "hc_state c = foldl f init (blocks_of full)"
      and len: "length (hc_buffer c) < 64"
    using assms(1) by (auto simp: context_of_def)
  show ?thesis
  proof (cases "hc_buffer c = []")
    case True
    with assms show ?thesis by (auto simp: fill_buffer_def)
  next
    case ne: False
    let ?n = "min (64 - length (hc_buffer c)) (length input)"
    let ?b = "hc_buffer c @ take ?n input"
    have rest: "rest = drop ?n input"
      using assms(2) ne by (auto simp: fill_buffer_def block_size_def Let_def split: if_splits)
    have tk: "take (length (m @ input) - length rest) (m @ input) = full @ ?b" using full(2) by (simp add: rest)
    show ?thesis
    proof (cases "length ?b = 64")
      case True
      then have c': "c' = c\<lparr>hc_state := f (hc_state c) ?b, hc_buffer := []\<rparr>"
        using assms(2) ne by (simp add: fill_buffer_def block_size_def Let_def)
      have "blocks_of ?b = [?b]" using blocks_of_one [OF True, of "[]"] by simp
      then have "foldl f init (blocks_of (full @ ?b)) = f (hc_state c) ?b" using full by (simp add: blocks_of_append)
      moreover have "64 dvd length (full @ ?b)" using full(1) True by simp
      ultimately have "context_of f init (full @ ?b) c'" by (auto simp: context_of_def c' intro!: exI [of _ "full @ ?b"])
      then show ?thesis unfolding tk by (auto simp: c' rest intro!: exI [of _ "take ?n input"])
    next
      case False
      then have c': "c' = c\<lparr>hc_buffer := ?b\<rparr>" using assms(2) ne by (auto simp: fill_buffer_def block_size_def Let_def)
      have n: "?n = length input"
      proof (rule ccontr)
        assume "?n \<noteq> length input"
        then have "?n = 64 - length (hc_buffer c)" "64 - length (hc_buffer c) \<le> length input" by linarith+
        then have "length ?b = 64" using len by simp
        with False show False ..
      qed
      have "rest = []" unfolding rest n by simp
      moreover have "length ?b < 64"
      proof -
        have "length ?b = length (hc_buffer c) + ?n" by simp
        moreover have "?n \<le> 64 - length (hc_buffer c)" by (rule min.cobounded1)
        ultimately show ?thesis using False len by linarith
      qed
      then have "context_of f init (full @ ?b) c'" using full by (auto simp: context_of_def c')
      ultimately show ?thesis unfolding tk by (auto simp: c' rest intro!: exI [of _ "take ?n input"])
    qed
  qed
qed

lemma absorb_of:
  assumes "context_of f init m c" "fill_buffer f input c = (i1, c1)" "process_blocks f i1 c1 = (rest, c2)"
  shows "context_of f init (m @ input) (if length rest > 0 then c2\<lparr>hc_buffer := rest\<rparr> else c2)" "hc_count c2 = hc_count c"
proof -
  note fb = fill_buffer_of [OF assms(1,2)]
  let ?m1 = "take (length (m @ input) - length i1) (m @ input)"
  have m1: "?m1 @ i1 = m @ input" using fb by auto
  obtain full where full: "64 dvd length full" "?m1 = full @ hc_buffer c1" "hc_state c1 = foldl f init (blocks_of full)"
    using fb by (auto simp: context_of_def)
  note pb = process_blocks_of [OF full(1,3) assms(3)]
  obtain full' where full': "64 dvd length full'" "full @ i1 = full' @ rest" "hc_state c2 = foldl f init (blocks_of full')"
    using pb by blast
  show "hc_count c2 = hc_count c" using pb fb by simp
  show "context_of f init (m @ input) (if length rest > 0 then c2\<lparr>hc_buffer := rest\<rparr> else c2)"
  proof (cases "i1 = []")
    case True
    then have "rest = []" "c2 = c1" using assms(3) by (simp_all add: process_blocks.simps block_size_def)
    with fb m1 True show ?thesis by simp
  next
    case False
    then have b: "hc_buffer c1 = []" using fb by blast
    with pb have b2: "hc_buffer c2 = []" by simp
    have "m @ input = ?m1 @ i1" using m1 ..
    also have "\<dots> = full @ i1" by (simp only: full(2) b append_Nil2)
    also note full'(2)
    finally have "m @ input = full' @ rest" .
    then show ?thesis using full'(1,3) b2 pb by (auto simp: context_of_def)
  qed
qed

lemma context_update_of:
  assumes "context_of f init m c" "hc_count c = of_nat (length m)"
  shows "context_of f init (m @ data) (context_update f data c)" "hc_count (context_update f data c) = of_nat (length (m @ data))"
proof -
  let ?c = "c\<lparr>hc_count := hc_count c + of_nat (length data)\<rparr>"
  obtain i1 c1 where fill: "fill_buffer f data ?c = (i1, c1)" by (cases "fill_buffer f data ?c")
  obtain rest c2 where proc: "process_blocks f i1 c1 = (rest, c2)" by (cases "process_blocks f i1 c1")
  have "context_of f init m ?c" using assms(1) by (simp add: context_of_def)
  note ab = absorb_of [OF this fill proc]
  have u: "context_update f data c = (if length rest > 0 then c2\<lparr>hc_buffer := rest\<rparr> else c2)"
    unfolding context_update_def Let_def fill proc prod.case ..
  show "context_of f init (m @ data) (context_update f data c)" unfolding u by (rule ab(1))
  show "hc_count (context_update f data c) = of_nat (length (m @ data))" unfolding u using ab(2) assms(2) by simp
qed

lemma context_updates_of:
  assumes "context_of f init m c" "hc_count c = of_nat (length m)"
  shows "context_of f init (m @ concat ds) (foldl (\<lambda>c d. context_update f d c) c ds) \<and>
    hc_count (foldl (\<lambda>c d. context_update f d c) c ds) = of_nat (length (m @ concat ds))"
  using assms
proof (induction ds arbitrary: m c)
  case (Cons d ds)
  from Cons.IH [OF context_update_of [OF Cons.prems, of d]] show ?case by simp
qed simp

lemma length_field_bytes: "be_bytes (w :: u64) = map (\<lambda>i. ucast (drop_bit (56 - i * 8) w)) [0..<8]"
  by (simp add: be_bytes_def le_bytes_def upt_rec)

lemma padding_of:
  assumes "context_of f init m c" "hc_count c = of_nat (length m)"
  shows "m @ context_padding c = sha_padded m"
proof -
  obtain full where full: "64 dvd length full" "m = full @ hc_buffer c" and len: "length (hc_buffer c) < 64"
    using assms(1) by (auto simp: context_of_def)
  have md: "length m mod 64 = length (hc_buffer c)" using full len by (auto simp: dvd_def)
  have "(if length (hc_buffer c) < 56 then 56 - length (hc_buffer c) else 120 - length (hc_buffer c)) - 1 =
      (119 - length (hc_buffer c)) mod 64"
    using len by (cases "length (hc_buffer c) < 56") (simp_all add: mod_if)
  moreover have "hc_count c * 8 = of_nat (8 * length m)" using assms(2) by simp
  ultimately show ?thesis unfolding context_padding_def sha_padded_def Let_def length_field_bytes md by simp
qed

lemma sha_padded_blocks: "64 dvd length (sha_padded m)"
proof -
  define q r where qr: "q = length m div 64" "r = length m mod 64"
  have l: "length m = 64 * q + r" "r < 64" unfolding qr by simp_all
  have k: "(119 - r) mod 64 = (if r \<le> 55 then 55 - r else 119 - r)" using l(2) by (simp add: mod_if)
  have "length (sha_padded m) = 64 * q + r + 9 + (119 - r) mod 64" using l by (simp add: sha_padded_def)
  also have "\<dots> = 64 * (if r \<le> 55 then q + 1 else q + 2)" unfolding k using l(2) by simp
  finally show ?thesis by simp
qed

lemma context_finalize_of:
  assumes "context_of f init m c" "hc_count c = of_nat (length m)"
  shows "hc_state (context_finalize f c) = sha_spec f init m"
proof -
  obtain i1 c1 where fill: "fill_buffer f (context_padding c) c = (i1, c1)" by (cases "fill_buffer f (context_padding c) c")
  obtain rest c2 where proc: "process_blocks f i1 c1 = (rest, c2)" by (cases "process_blocks f i1 c1")
  let ?c = "if length rest > 0 then c2\<lparr>hc_buffer := rest\<rparr> else c2"
  from absorb_of(1) [OF assms(1) fill proc] padding_of [OF assms]
  obtain full where full: "64 dvd length full" "sha_padded m = full @ hc_buffer ?c" "hc_state ?c = foldl f init (blocks_of full)"
      "length (hc_buffer ?c) < 64"
    unfolding context_of_def by auto
  have "64 dvd length (hc_buffer ?c)" using sha_padded_blocks [of m] full(1) unfolding full(2) by (simp add: dvd_add_right_iff)
  then have "hc_buffer ?c = []" using full(4) by (metis dvd_imp_le length_0_conv linorder_not_less neq0_conv)
  then have "full = sha_padded m" using full(2) by simp
  moreover have "hc_state (context_finalize f c) = hc_state ?c" unfolding context_finalize_def Let_def fill proc prod.case by simp
  ultimately show ?thesis using full(3) by (simp add: sha_spec_def)
qed

lemma blocks_of_length: "b \<in> set (blocks_of m) \<Longrightarrow> length b = 64"
proof (induction m rule: blocks_of.induct)
  case (1 xs)
  then show ?case by (subst (asm) (2) blocks_of.simps) (auto split: if_splits)
qed

lemma foldl_blocks_cong:
  assumes "\<And>v b. length b = 64 \<Longrightarrow> f v b = g v b"
  shows "foldl f v (blocks_of m) = foldl g v (blocks_of m)"
  by (rule foldl_cong) (auto simp: assms dest: blocks_of_length)

lemma upt_split: "i \<le> k \<Longrightarrow> k \<le> j \<Longrightarrow> [i..<j] = [i..<k] @ [k..<j]" for i j k :: nat
  using upt_add_eq_append [of i k "j - k"] by simp

section \<open>Bytes and words\<close>

lemma rotl_bits:
  assumes "0 < n" "n < 32"
  shows "push_bit n x OR drop_bit (32 - n) x = word_rotl n (x :: u32)"
proof (rule bit_word_eqI)
  fix i assume i: "i < LENGTH(32)"
  have l: "bit (push_bit n x OR drop_bit (32 - n) x) i \<longleftrightarrow> n \<le> i \<and> bit x (i - n) \<or> bit x (32 - n + i)"
    using i by (simp add: bit_or_iff bit_push_bit_iff bit_drop_bit_eq)
  have r: "bit (word_rotl n x) i \<longleftrightarrow> bit x ((i + (32 - n mod 32)) mod 32)" using bit_word_rotl_iff [of n x i] i by simp
  show "bit (push_bit n x OR drop_bit (32 - n) x) i \<longleftrightarrow> bit (word_rotl n x) i"
  proof (cases "n \<le> i")
    case True
    have e: "(i + (32 - n mod 32)) mod 32 = i - n" using True assms i by (simp add: mod_if)
    have "\<not> bit x (32 - n + i)" using True assms bit_imp_le_length [of x "32 - n + i"] by auto
    with True show ?thesis unfolding l r e by simp
  next
    case False
    have e: "(i + (32 - n mod 32)) mod 32 = 32 - n + i" using False assms by (simp add: mod_if add.commute)
    from False show ?thesis unfolding l r e by simp
  qed
qed

lemma load_be32_be_word:
  assumes "4 \<le> length p"
  shows "load_be32 p = be_word (take 4 p)"
proof -
  obtain a b c d r where p: "p = a # b # c # d # r" using assms by (auto simp: numeral_eq_Suc Suc_le_length_iff)
  have "be_word [a, b, c, d] = (ucast d OR push_bit 8 (ucast c OR push_bit 8 (ucast b OR push_bit 8 (ucast a))) :: u32)"
    by (simp add: be_word_def)
  then show ?thesis by (simp add: p load_be32_def push_bit_or or.assoc or.commute or.left_commute)
qed

lemma store_be32_be_bytes: "store_be32 w = be_bytes w"
  by (simp add: store_be32_def be_bytes_def le_bytes_def upt_rec)

end
