(* ===== verification/Sha1.thy ===== *)
theory Sha1
  imports Block_Hash
begin

unbundle bit_operations_syntax

text \<open>
  SHA-1 (src/include/elio/hash/sha1.hpp): the software block processor with its rounds unrolled by five, where
  the five working variables keep their place and the roles rotate, and the context. The specification is the
  round function of FIPS 180-4. The processor intrinsics that may replace the block processor have no model.
\<close>

section \<open>The code\<close>

type_synonym sha1_state = "u32 \<times> u32 \<times> u32 \<times> u32 \<times> u32"

definition sha1_digest_size :: nat where
  "sha1_digest_size = 20"

definition sha1_rotl :: "u32 \<Rightarrow> nat \<Rightarrow> u32" where
  "sha1_rotl x n = push_bit n x OR drop_bit (32 - n) x"

definition sha1_f0 :: "u32 \<Rightarrow> u32 \<Rightarrow> u32 \<Rightarrow> u32" where
  "sha1_f0 b c d = (b AND c) OR (NOT b AND d)"

definition sha1_f1 :: "u32 \<Rightarrow> u32 \<Rightarrow> u32 \<Rightarrow> u32" where
  "sha1_f1 b c d = b XOR c XOR d"

definition sha1_f2 :: "u32 \<Rightarrow> u32 \<Rightarrow> u32 \<Rightarrow> u32" where
  "sha1_f2 b c d = (b AND c) OR (b AND d) OR (c AND d)"

text \<open>A round macro: the new values of its last and of its second argument.\<close>

definition sha1_round :: "(u32 \<Rightarrow> u32 \<Rightarrow> u32 \<Rightarrow> u32) \<Rightarrow> u32 \<Rightarrow> u32 list \<Rightarrow> u32 \<Rightarrow> u32 \<Rightarrow> u32 \<Rightarrow> u32 \<Rightarrow> u32 \<Rightarrow> nat \<Rightarrow> u32 \<times> u32" where
  "sha1_round f k w a b c d e i = (e + (sha1_rotl a 5 + f b c d + k + w ! i), sha1_rotl b 30)"

text \<open>Five rounds in a row; after them every variable is back in its role.\<close>

definition sha1_round5 :: "(u32 \<Rightarrow> u32 \<Rightarrow> u32 \<Rightarrow> u32) \<Rightarrow> u32 \<Rightarrow> u32 list \<Rightarrow> sha1_state \<Rightarrow> nat \<Rightarrow> sha1_state" where
  "sha1_round5 f k w = (\<lambda>(a, b, c, d, e) i.
     let (e, b) = sha1_round f k w a b c d e i;
         (d, a) = sha1_round f k w e a b c d (i + 1);
         (c, e) = sha1_round f k w d e a b c (i + 2);
         (b, d) = sha1_round f k w c d e a b (i + 3);
         (a, c) = sha1_round f k w b c d e a (i + 4)
     in (a, b, c, d, e))"

definition sha1_schedule :: "bytes \<Rightarrow> u32 list" where
  "sha1_schedule block =
     foldl (\<lambda>w i. w @ [sha1_rotl (w ! (i - 3) XOR w ! (i - 8) XOR w ! (i - 14) XOR w ! (i - 16)) 1])
       (map (\<lambda>i. load_be32 (drop (i * 4) block)) [0..<16]) [16..<80]"

definition sha1_process_block_sw :: "sha1_state \<Rightarrow> bytes \<Rightarrow> sha1_state" where
  "sha1_process_block_sw = (\<lambda>(s0, s1, s2, s3, s4) block.
     let w = sha1_schedule block;
         v = (s0, s1, s2, s3, s4);
         v = foldl (sha1_round5 sha1_f0 0x5A827999 w) v [0, 5, 10, 15];
         v = foldl (sha1_round5 sha1_f1 0x6ED9EBA1 w) v [20, 25, 30, 35];
         v = foldl (sha1_round5 sha1_f2 0x8F1BBCDC w) v [40, 45, 50, 55];
         (a, b, c, d, e) = foldl (sha1_round5 sha1_f1 0xCA62C1D6 w) v [60, 65, 70, 75]
     in (s0 + a, s1 + b, s2 + c, s3 + d, s4 + e))"

definition sha1_reset :: "sha1_state hash_context" where
  "sha1_reset = \<lparr>hc_state = (0x67452301, 0xEFCDAB89, 0x98BADCFE, 0x10325476, 0xC3D2E1F0), hc_count = 0, hc_buffer = []\<rparr>"

definition sha1_update :: "bytes \<Rightarrow> sha1_state hash_context \<Rightarrow> sha1_state hash_context" where
  "sha1_update = context_update sha1_process_block_sw"

definition sha1_digest :: "sha1_state \<Rightarrow> bytes" where
  "sha1_digest = (\<lambda>(a, b, c, d, e). concat (map store_be32 [a, b, c, d, e]))"

definition sha1_finalize :: "sha1_state hash_context \<Rightarrow> bytes \<times> sha1_state hash_context" where
  "sha1_finalize c = (let c' = context_finalize sha1_process_block_sw c in (sha1_digest (hc_state c'), c'))"

definition sha1 :: "bytes \<Rightarrow> bytes" where
  "sha1 data = fst (sha1_finalize (sha1_update data sha1_reset))"

definition sha1_hex :: "bytes \<Rightarrow> string" where
  "sha1_hex digest = digest_hex digest"

section \<open>FIPS 180-4\<close>

definition fips_ch :: "u32 \<Rightarrow> u32 \<Rightarrow> u32 \<Rightarrow> u32" where
  "fips_ch x y z = (x AND y) XOR (NOT x AND z)"

definition fips_maj :: "u32 \<Rightarrow> u32 \<Rightarrow> u32 \<Rightarrow> u32" where
  "fips_maj x y z = (x AND y) XOR (x AND z) XOR (y AND z)"

definition fips1_f :: "nat \<Rightarrow> u32 \<Rightarrow> u32 \<Rightarrow> u32 \<Rightarrow> u32" where
  "fips1_f t = (if t < 20 then fips_ch else if 40 \<le> t \<and> t < 60 then fips_maj else (\<lambda>x y z. x XOR y XOR z))"

definition fips1_k :: "nat \<Rightarrow> u32" where
  "fips1_k t = (if t < 20 then 0x5A827999 else if t < 40 then 0x6ED9EBA1 else if t < 60 then 0x8F1BBCDC else 0xCA62C1D6)"

definition fips_word :: "bytes \<Rightarrow> nat \<Rightarrow> u32" where
  "fips_word block t = be_word (take 4 (drop (4 * t) block))"

fun fips1_w :: "bytes \<Rightarrow> nat \<Rightarrow> u32" where
  "fips1_w block t =
     (if t < 16 then fips_word block t
      else word_rotl 1 (fips1_w block (t - 3) XOR fips1_w block (t - 8) XOR fips1_w block (t - 14) XOR fips1_w block (t - 16)))"

declare fips1_w.simps [simp del]

definition fips1_step :: "bytes \<Rightarrow> sha1_state \<Rightarrow> nat \<Rightarrow> sha1_state" where
  "fips1_step block = (\<lambda>(a, b, c, d, e) t.
     (word_rotl 5 a + fips1_f t b c d + e + fips1_k t + fips1_w block t, a, word_rotl 30 b, c, d))"

definition fips1_compress :: "sha1_state \<Rightarrow> bytes \<Rightarrow> sha1_state" where
  "fips1_compress = (\<lambda>(h0, h1, h2, h3, h4) block.
     let (a, b, c, d, e) = foldl (fips1_step block) (h0, h1, h2, h3, h4) [0..<80]
     in (h0 + a, h1 + b, h2 + c, h3 + d, h4 + e))"

definition fips_sha1 :: "bytes \<Rightarrow> bytes" where
  "fips_sha1 m = (case sha_spec fips1_compress (0x67452301, 0xEFCDAB89, 0x98BADCFE, 0x10325476, 0xC3D2E1F0) m of
     (a, b, c, d, e) \<Rightarrow> be_bytes a @ be_bytes b @ be_bytes c @ be_bytes d @ be_bytes e)"

section \<open>The code computes it\<close>

lemma sha1_rotl_eq: "0 < n \<Longrightarrow> n < 32 \<Longrightarrow> sha1_rotl x n = word_rotl n x"
  unfolding sha1_rotl_def by (rule rotl_bits)

lemma sha1_f0_eq: "sha1_f0 = fips_ch"
  by (intro ext bit_word_eqI) (auto simp: sha1_f0_def fips_ch_def bit_or_iff bit_and_iff bit_xor_iff bit_not_iff)

lemma sha1_f2_eq: "sha1_f2 = fips_maj"
  by (intro ext bit_word_eqI) (auto simp: sha1_f2_def fips_maj_def bit_or_iff bit_and_iff bit_xor_iff)

lemma sha1_schedule_upto:
  assumes "length block = 64"
  shows "foldl (\<lambda>w i. w @ [sha1_rotl (w ! (i - 3) XOR w ! (i - 8) XOR w ! (i - 14) XOR w ! (i - 16)) 1])
    (map (\<lambda>i. load_be32 (drop (i * 4) block)) [0..<16]) [16..<16 + n] = map (fips1_w block) [0..<16 + n]"
proof (induction n)
  case 0
  have "load_be32 (drop (i * 4) block) = fips1_w block i" if "i < 16" for i
    using that assms by (simp add: fips1_w.simps [of block i] fips_word_def load_be32_be_word mult.commute)
  then show ?case by simp
next
  case (Suc n)
  have u: "[16..<16 + Suc n] = [16..<16 + n] @ [16 + n]"
    using upt_Suc_append [of 16 "16 + n"] by (simp only: add_Suc_right le_add1)
  have v: "[0..<16 + Suc n] = [0..<16 + n] @ [16 + n]"
    using upt_Suc_append [of 0 "16 + n"] by (simp only: add_Suc_right le0)
  have w: "fips1_w block (16 + n) = word_rotl 1 (fips1_w block (16 + n - 3) XOR fips1_w block (16 + n - 8) XOR
      fips1_w block (16 + n - 14) XOR fips1_w block (16 + n - 16))" by (simp add: fips1_w.simps [of block "16 + n"])
  show ?case unfolding u v foldl_append Suc.IH by (simp add: sha1_rotl_eq w nth_append del: upt_Suc)
qed

lemma sha1_schedule_eq:
  assumes "length block = 64"
  shows "sha1_schedule block = map (fips1_w block) [0..<80]"
proof -
  have e: "(16 :: nat) + 64 = 80" by simp
  from sha1_schedule_upto [OF assms, of 64] show ?thesis unfolding sha1_schedule_def e .
qed

lemma sha1_round5_eq:
  assumes "\<And>t. i \<le> t \<Longrightarrow> t < i + 5 \<Longrightarrow> fips1_f t = f \<and> fips1_k t = k \<and> w ! t = fips1_w block t"
  shows "sha1_round5 f k w v i = foldl (fips1_step block) v [i..<i + 5]"
proof -
  define T where "T t a b c d e = word_rotl 5 a + fips1_f t b c d + e + fips1_k t + fips1_w block t" for t a b c d e
  have s: "fips1_step block (a, b, c, d, e) t = (T t a b c d e, a, word_rotl 30 b, c, d)" for a b c d e t
    by (simp add: fips1_step_def T_def)
  have "sha1_round f k w a b c d e t = (T t a b c d e, word_rotl 30 b)" if "i \<le> t" "t < i + 5" for a b c d e t
    using assms [OF that] by (simp add: sha1_round_def sha1_rotl_eq T_def add.commute add.left_commute)
  then have r: "sha1_round f k w a b c d e i = (T i a b c d e, word_rotl 30 b)"
    "sha1_round f k w a b c d e (i + 1) = (T (i + 1) a b c d e, word_rotl 30 b)"
    "sha1_round f k w a b c d e (i + 2) = (T (i + 2) a b c d e, word_rotl 30 b)"
    "sha1_round f k w a b c d e (i + 3) = (T (i + 3) a b c d e, word_rotl 30 b)"
    "sha1_round f k w a b c d e (i + 4) = (T (i + 4) a b c d e, word_rotl 30 b)" for a b c d e
    by simp_all
  have u: "[i..<i + 5] = [i, i + 1, i + 2, i + 3, i + 4]" by (simp add: upt_rec)
  obtain a b c d e where v: "v = (a, b, c, d, e)" by (cases v)
  show ?thesis unfolding u v sha1_round5_def prod.case Let_def r foldl.simps s ..
qed

lemma sha1_group_eq:
  assumes "\<And>t. i \<le> t \<Longrightarrow> t < i + 20 \<Longrightarrow> fips1_f t = f \<and> fips1_k t = k \<and> w ! t = fips1_w block t"
  shows "foldl (sha1_round5 f k w) v [i, i + 5, i + 10, i + 15] = foldl (fips1_step block) v [i..<i + 20]"
proof -
  have r: "sha1_round5 f k w v j = foldl (fips1_step block) v [j..<l]" if "i \<le> j" "l = j + 5" "l \<le> i + 20" for v j l
    unfolding that(2) using that assms by (intro sha1_round5_eq) simp
  have "[i..<i + 20] = [i..<i + 5] @ [i + 5..<i + 10] @ [i + 10..<i + 15] @ [i + 15..<i + 20]"
    using upt_split [of i "i + 5" "i + 20"] upt_split [of "i + 5" "i + 10" "i + 20"] upt_split [of "i + 10" "i + 15" "i + 20"]
    by (simp del: upt_Suc)
  then show ?thesis
    using r [of i "i + 5"] r [of "i + 5" "i + 10"] r [of "i + 10" "i + 15"] r [of "i + 15" "i + 20"] by (simp del: upt_Suc)
qed

lemma sha1_process_block_eq:
  assumes "length block = 64"
  shows "sha1_process_block_sw v block = fips1_compress v block"
proof -
  let ?w = "sha1_schedule block" and ?s = "foldl (fips1_step block)"
  have w: "?w ! t = fips1_w block t" if "t < 80" for t using that by (simp add: sha1_schedule_eq [OF assms] del: upt_Suc)
  have g0: "foldl (sha1_round5 sha1_f0 0x5A827999 ?w) v [0, 5, 10, 15] = ?s v [0..<20]" for v
    using sha1_group_eq [of 0 sha1_f0 "0x5A827999" ?w block v] w by (simp add: fips1_f_def fips1_k_def sha1_f0_eq del: upt_Suc)
  have g1: "foldl (sha1_round5 sha1_f1 0x6ED9EBA1 ?w) v [20, 25, 30, 35] = ?s v [20..<40]" for v
    using sha1_group_eq [of 20 sha1_f1 "0x6ED9EBA1" ?w block v] w by (simp add: fips1_f_def fips1_k_def sha1_f1_def fun_eq_iff del: upt_Suc)
  have g2: "foldl (sha1_round5 sha1_f2 0x8F1BBCDC ?w) v [40, 45, 50, 55] = ?s v [40..<60]" for v
    using sha1_group_eq [of 40 sha1_f2 "0x8F1BBCDC" ?w block v] w by (simp add: fips1_f_def fips1_k_def sha1_f2_eq del: upt_Suc)
  have g3: "foldl (sha1_round5 sha1_f1 0xCA62C1D6 ?w) v [60, 65, 70, 75] = ?s v [60..<80]" for v
    using sha1_group_eq [of 60 sha1_f1 "0xCA62C1D6" ?w block v] w by (simp add: fips1_f_def fips1_k_def sha1_f1_def fun_eq_iff del: upt_Suc)
  have u: "[0..<80] = [0..<20] @ [20..<40] @ [40..<60] @ [60..<80]"
    using upt_split [of 0 20 80] upt_split [of 20 40 80] upt_split [of 40 60 80] by (simp only: append_assoc)
  show ?thesis
    by (cases v) (simp only: sha1_process_block_sw_def fips1_compress_def prod.case Let_def g0 g1 g2 g3 u foldl_append)
qed

lemma sha1_blocks_eq: "foldl sha1_process_block_sw v (blocks_of m) = foldl fips1_compress v (blocks_of m)"
  by (rule foldl_blocks_cong) (rule sha1_process_block_eq)

lemma sha1_digest_eq: "sha1_digest (a, b, c, d, e) = be_bytes a @ be_bytes b @ be_bytes c @ be_bytes d @ be_bytes e"
  by (simp add: sha1_digest_def store_be32_be_bytes)

text \<open>
  C38: SHA-1 is that of the standard. However a message is cut into pieces for update, finalize returns the digest that
  FIPS 180-4 defines for the whole message: its padding, block schedule and rounds, although the code
  buffers partial blocks, unrolls the rounds with rotating variables and has other Boolean functions.
\<close>

theorem sha1_pieces_fips: "fst (sha1_finalize (foldl (\<lambda>c d. sha1_update d c) sha1_reset pieces)) = fips_sha1 (concat pieces)"
proof -
  let ?i = "(0x67452301, 0xEFCDAB89, 0x98BADCFE, 0x10325476, 0xC3D2E1F0) :: sha1_state"
  have start: "context_of sha1_process_block_sw ?i [] sha1_reset" "hc_count sha1_reset = of_nat (length ([] :: bytes))"
    by (simp_all add: context_of_def sha1_reset_def)
  note c = context_updates_of [OF start, of pieces, simplified]
  from context_finalize_of [OF conjunct1 [OF c] conjunct2 [OF c]]
  have "hc_state (context_finalize sha1_process_block_sw (foldl (\<lambda>c d. sha1_update d c) sha1_reset pieces)) =
      sha_spec fips1_compress ?i (concat pieces)"
    by (simp add: sha1_update_def sha_spec_def sha1_blocks_eq)
  then show ?thesis
    by (simp add: sha1_finalize_def Let_def fips_sha1_def sha1_digest_eq split: prod.split)
qed

end
