(* ===== verification/Spec2Isabelle.thy ===== *)
theory Spec2Isabelle
  imports Wake_State Intrusive_List Waiters Semaphore Elio_Mutex Elio_Event
    Crc32 Bytes Rpc_Buffer Rpc_Types Rpc_Protocol Websocket_Utf8 Websocket_Frame Websocket_Parser Mpmc_Ring
    Http_Text Http_Headers Http_Headers_Props Http_Chunk Incremental Http_Request Http_Request_Steps Http_Request_Props
    Http_Response Http_Response_Steps Http_Response_Props Http_Response_Framed
    Block_Hash Sha1
begin

text \<open>
  \<^bold>\<open>Elio.\<close> Elio is a header-only C++20 coroutine library (src/include/elio). Coroutines wait on
  synchronization primitives, a scheduler resumes them, and on top stand network protocols: an RPC format,
  HTTP/1 and WebSocket. This library models the parts whose behaviour is decided by the sources themselves
  and proves what their users rely on. Every definition that models code is executable.

  \<^bold>\<open>Shared theories.\<close>

  \<^item> \<open>Prelude\<close>: integer types of the sources, the compare-exchange loop, reachable states of a transition
    system and the interface \<open>invariant_system\<close>, results with errors (\<open>ebind\<close>), list lemmas.
  \<^item> \<open>Bytes\<close>: little and big endian byte lists of machine integers.
  \<^item> \<open>Incremental\<close>: parsers that work in steps on a buffer. The interface \<open>incremental_parser\<close> asks that a
    step and input that arrives later can be exchanged; its clients get termination and independence of the
    pieces of a stream. The HTTP request and response parsers are its instances.

  \<^bold>\<open>Synchronization\<close> (src/include/elio/sync, src/include/elio/detail).

  \<^item> \<open>Wake_State\<close> models sync/detail/wake\_state.hpp, the atomic word of a suspended waiter. Each operation is
    the decision of its compare-exchange loop on a loaded value. Shown: in all interleavings a waiter is scheduled at
    most once, notification and cancellation exclude each other, the retry loop equals its atomic form.
  \<^item> \<open>Intrusive_List\<close> models detail/intrusive\_list.hpp on a heap of nodes and refines it to lists; the interface
    \<open>waiter_queue\<close> holds for the pointer structure and for lists, and the primitives use the latter.
  \<^item> \<open>Waiters\<close>: the waiter object and the claim loop that semaphore, mutex and event share.
  \<^item> \<open>Semaphore\<close>, \<open>Elio_Mutex\<close>, \<open>Elio_Event\<close> model sync/semaphore.hpp, sync/mutex.hpp and sync/event.hpp:
    every operation of the awaiters and of the primitive, and a transition system of all interleavings with
    cancellation requests and destroyed frames. Shown by invariants: permits are conserved, one
    owner of the mutex, no lost wake-up, no failing assertion, hand-off in arrival order, set wakes all.
  \<^item> \<open>Mpmc_Ring\<close> models sync/lockfree\_ring.hpp with one step per access to an atomic or to a slot. Shown:
    every value is returned at most once and in claim order, and when operations refuse. The bound is
    fewer than \<open>2 ^ 62\<close> pushes on one ring: beyond it the signed distance of two positions is ambiguous.

  \<^bold>\<open>Checksums.\<close> \<open>Crc32\<close> models hash/crc32.hpp: tables, slicing-by-8 loops and the loops over processor
  instructions, which are parameters with their documented meaning as hypothesis. Shown: all of them
  compute the bit-serial CRC, in one call or in pieces.
  \<open>Block_Hash\<close> has the buffering and padding of the context of hash/sha1.hpp, for any block processor, and \<open>Sha1\<close> its
  software block processor; a message in any pieces has the digest of FIPS 180-4. The bit count is
  64 bits wide there and here, as the standard demands messages below \<open>2 ^ 64\<close> bits.

  \<^bold>\<open>RPC\<close> (src/include/elio/rpc). \<open>Rpc_Buffer\<close> models rpc\_endian.hpp and rpc\_buffer.hpp, \<open>Rpc_Types\<close>
  the serialize and deserialize overloads of rpc\_types.hpp as functions on a schema, \<open>Rpc_Protocol\<close> the
  frames of rpc\_protocol.hpp. Values of buffers, counted data and frame headers share the interface \<open>wire_codec\<close>;
  the reader relies on \<open>exact_stream\<close>, the stream being a parameter. Shown: round trips between hosts of either byte
  order, no read outside the buffer for any input, accepted frames are valid and carry the right checksum, and the
  scatter-gather writer sends the frame exactly, whatever partial writes happen.

  \<^bold>\<open>WebSocket\<close> (src/include/elio/http/websocket\_frame.hpp). \<open>Websocket_Utf8\<close> has the validator of text
  messages, \<open>Websocket_Frame\<close> headers, masking, encoders, close payloads and the frame parser, \<open>Websocket_Parser\<close> its
  properties: independence of the pieces, delivery of fragmented messages, safety for any input. The
  source of masking keys is a parameter.

  \<^bold>\<open>HTTP/1\<close> (src/include/elio/http/http\_common.hpp, http\_parser.hpp). \<open>Http_Text\<close> has the rules for tokens,
  targets, authorities, versions, methods and status codes, \<open>Http_Headers\<close> the case-insensitive header collection
  (\<open>Http_Headers_Props\<close>: it stays well-formed and its serialization cannot inject lines),
  \<open>Http_Chunk\<close> chunk-size lines, extensions and trailers, \<open>Http_Request\<close> and \<open>Http_Response\<close> the parsers. A
  C++ exception is the left value of a result; a loop without an evident bound is a partial function
  with the value \<open>None\<close> when it does not return. \<open>Http_Request_Steps\<close> and \<open>Http_Response_Steps\<close> cut the
  loops into steps and interpret \<open>incremental_parser\<close>. \<open>Http_Request_Props\<close> shows that the request parser
  returns and does not throw, that the pieces do not matter, and that an accepted request has exactly one framing;
  \<open>Http_Response_Props\<close> shows the first two for responses and that stored framing data is
  bounded by the limits, \<open>Http_Response_Framed\<close> that an accepted response has exactly one framing. inet\_pton, which checks IPv6 literals, is a parameter; character classes are those of the C locale;
  the order in which an unordered map is serialized is a parameter.

  \<^bold>\<open>Conventions.\<close> Atomics are sequentially consistent, also where the sources ask for less. The code between taking and
  releasing an internal lock is one step. Sizes of data in memory are natural numbers where the
  sources only compare or add sizes of existing objects; stored counters, limits and values from the wire are 64-bit
  words and wrap. Addresses are natural numbers.

  \<^bold>\<open>Not modelled.\<close> Coroutine frames, tasks and cancellation tokens (src/include/elio/coro): their
  behaviour is the compiler's coroutine transformation. The scheduler (runtime), io, net, time, signal and log: system calls
  and threads. TLS, RDMA and HTTP/2: wrappers of libraries that are not in the sources. RPC and HTTP clients and
  servers, server-sent events, tunnels, proxies and the WebSocket sessions: coroutines over sockets whose
  message formats are modelled here. Channel, shared mutex, condition variable, object cache, spinlock, SHA-256, the
  url parser and the buffer pools have no model yet.
\<close>

end
